(* ===== verification/Prelude.thy ===== *)
theory Prelude
  imports Main "HOL-Library.Word" "HOL-Library.Monad_Syntax"
begin

unbundle bit_operations_syntax

text \<open>
  Shared vocabulary of the development: the C types and the memory model that every component
  uses, with the lemmas about them that the component theories rely on.

  A C computation that may run into undefined behaviour (a null or out-of-range access, a read
  of memory that was never written, an overflowing signed increment) has a result of type
  \<open>'a option\<close>; \<open>None\<close> is the fault. A theorem of the form \<open>f x = Some y\<close> therefore says
  that the code does not fault and returns \<open>y\<close>.
\<close>

named_theorems mem_simps \<open>rewrite rules of the array memory model\<close>
named_theorems c_arith \<open>rewrite rules of the machine arithmetic used by the sources\<close>

section \<open>Types\<close>

type_synonym addr = "64 word"      \<comment> \<open>an object pointer; 0 is NULL\<close>
type_synonym u128 = "128 word"     \<comment> \<open>\<open>unsigned __int128\<close>\<close>
type_synonym 'a mem = "'a option list"
  \<comment> \<open>a malloc'ed array: one cell per element, \<open>None\<close> while the cell was never written\<close>

abbreviation NULL :: addr where "NULL \<equiv> 0"

abbreviation INT_MAX :: int where "INT_MAX \<equiv> 2147483647"

abbreviation INT_MIN :: int where "INT_MIN \<equiv> - 2147483648"

definition is_int :: "int \<Rightarrow> bool" where
  "is_int n \<longleftrightarrow> INT_MIN \<le> n \<and> n \<le> INT_MAX"

section \<open>Array cells\<close>

definition mem_get :: "'a mem \<Rightarrow> nat \<Rightarrow> 'a option" where
  "mem_get m i = (if i < length m then m ! i else None)"

definition mem_set :: "'a mem \<Rightarrow> nat \<Rightarrow> 'a \<Rightarrow> 'a mem option" where
  "mem_set m i x = (if i < length m then Some (m[i := Some x]) else None)"

definition mem_realloc :: "'a mem \<Rightarrow> nat \<Rightarrow> 'a mem" where
  "mem_realloc m n = take n m @ replicate (n - length m) None"

lemma mem_get_Some_iff [mem_simps]: "mem_get m i = Some x \<longleftrightarrow> i < length m \<and> m ! i = Some x"
  by (simp add: mem_get_def)

lemma mem_set_Some_iff [mem_simps]:
  "mem_set m i x = Some m' \<longleftrightarrow> i < length m \<and> m' = m[i := Some x]"
  by (auto simp: mem_set_def)

lemma mem_set_in_range: "i < length m \<Longrightarrow> mem_set m i x = Some (m[i := Some x])"
  by (simp add: mem_set_def)

lemma mem_get_out_of_range: "length m \<le> i \<Longrightarrow> mem_get m i = None"
  by (simp add: mem_get_def)

lemma mem_set_out_of_range: "length m \<le> i \<Longrightarrow> mem_set m i x = None"
  by (simp add: mem_set_def)

lemma length_mem_realloc [simp]: "length (mem_realloc m n) = n"
  by (simp add: mem_realloc_def)

lemma take_mem_realloc: "k \<le> length m \<Longrightarrow> k \<le> n \<Longrightarrow> take k (mem_realloc m n) = take k m"
  by (simp add: mem_realloc_def min_absorb1)

lemma mem_realloc_empty [simp]: "mem_realloc [] n = replicate n None"
  by (simp add: mem_realloc_def)

text \<open>The part of an array that has been written, as a list of values.\<close>

definition written :: "nat \<Rightarrow> 'a mem \<Rightarrow> 'a list" where
  "written n m = map the (take n m)"

lemma length_written [simp]: "n \<le> length m \<Longrightarrow> length (written n m) = n"
  by (simp add: written_def)

lemma nth_written: "i < n \<Longrightarrow> n \<le> length m \<Longrightarrow> written n m ! i = the (m ! i)"
  by (simp add: written_def)

lemma written_Suc: "n < length m \<Longrightarrow> m ! n = Some x \<Longrightarrow> written (Suc n) m = written n m @ [x]"
  by (simp add: written_def take_Suc_conv_app_nth)

lemma written_update_beyond: "n \<le> i \<Longrightarrow> written n (m[i := x]) = written n m"
  by (simp add: written_def)

lemma written_update: "i < n \<Longrightarrow> n \<le> length m \<Longrightarrow> written n (m[i := Some x]) = (written n m)[i := x]"
  by (simp add: written_def take_update_swap map_update)

lemma take_written: "k \<le> n \<Longrightarrow> take k (written n m) = written k m"
  by (simp add: written_def take_map min_absorb1)

section \<open>Machine arithmetic\<close>

text \<open>\<open>size_t\<close> values are natural numbers below \<open>2 ^ 64\<close>; the operations wrap.\<close>

definition sz_add :: "nat \<Rightarrow> nat \<Rightarrow> nat" where
  "sz_add a b = (a + b) mod 2 ^ 64"

definition sz_sub :: "nat \<Rightarrow> nat \<Rightarrow> nat" where
  "sz_sub a b = (a + 2 ^ 64 - b mod 2 ^ 64) mod 2 ^ 64"

definition sz_mul :: "nat \<Rightarrow> nat \<Rightarrow> nat" where
  "sz_mul a b = (a * b) mod 2 ^ 64"

lemma sz_add_small [c_arith]: "a + b < 2 ^ 64 \<Longrightarrow> sz_add a b = a + b"
  by (simp add: sz_add_def)

lemma sz_mul_small [c_arith]: "a * b < 2 ^ 64 \<Longrightarrow> sz_mul a b = a * b"
  by (simp add: sz_mul_def)

lemma sz_sub_small [c_arith]: "b \<le> a \<Longrightarrow> a < 2 ^ 64 \<Longrightarrow> sz_sub a b = a - b"
proof -
  assume ab: "b \<le> a" and a: "a < 2 ^ 64"
  then have "b mod 2 ^ 64 = b" by simp
  then have "sz_sub a b = ((a - b) + 2 ^ 64) mod 2 ^ 64"
    using ab by (simp add: sz_sub_def)
  also have "\<dots> = (a - b) mod 2 ^ 64" by (rule mod_add_self2)
  also have "\<dots> = a - b" using a by simp
  finally show ?thesis .
qed

text \<open>\<open>x++\<close> on an \<open>int\<close> is undefined at \<open>INT_MAX\<close>.\<close>

definition int_inc :: "int \<Rightarrow> int option" where
  "int_inc n = (if n < INT_MAX then Some (n + 1) else None)"

lemma int_inc_Some [c_arith]: "n < INT_MAX \<Longrightarrow> int_inc n = Some (n + 1)"
  by (simp add: int_inc_def)

section \<open>Exclusive or\<close>

lemma xor_cancel_left [simp]: "(a::'a::len word) XOR (a XOR b) = b"
  by (simp flip: xor.assoc)

lemma xor_cancel_right [simp]: "((a::'a::len word) XOR b) XOR b = a"
  by (simp add: xor.assoc)

lemma xor_cancel_middle [simp]: "((a::'a::len word) XOR b) XOR a = b"
  by (metis xor.commute xor_cancel_right)

section \<open>Bind\<close>

declare Option.bind_eq_Some_conv [simp]

section \<open>C strings in byte arrays\<close>

text \<open>What the string functions see of an array of bytes: everything before the first NUL.\<close>

definition c_str :: "string \<Rightarrow> string" where
  "c_str s = takeWhile (\<lambda>c. c \<noteq> CHR 0x00) s"

lemma c_str_no_nul [simp]: "CHR 0x00 \<notin> set (c_str s)"
  by (auto simp: c_str_def dest: set_takeWhileD)

lemma c_str_id [simp]: "CHR 0x00 \<notin> set s \<Longrightarrow> c_str s = s"
  unfolding c_str_def takeWhile_eq_all_conv by auto

end
