(* ===== verification/BalancedTree.thy ===== *)
theory BalancedTree
  imports Prelude
begin

text \<open>
  The table of nodes of the control process: \<^verbatim>\<open>lab6/structures/balanced_tree.{h,c}\<close>.
  A \<open>b_tree\<close> is a growable array that holds a binary tree in heap order: the children of the
  entry at index \<open>i\<close> are the entries at \<open>2 * i + 1\<close> and \<open>2 * i + 2\<close>. The array is an
  \<open>'a mem\<close> of \<open>pool_size\<close> cells, of which the first \<open>bt_size\<close> are in use. \<open>nodes\<close> is the
  abstraction: the list of the entries in use. The operations are shown to implement list
  operations on it, and the locale \<open>node_table\<close> is the interface the control node relies on.
\<close>

section \<open>Data\<close>

record b_tree_node =
  id_of :: int
  pid :: int
  main_address :: "string option"   \<comment> \<open>\<open>char*\<close>, \<open>None\<close> for NULL\<close>
  ping_address :: "string option"

record b_tree =
  buf :: "b_tree_node mem"
  pool_size :: nat
  bt_size :: nat

abbreviation K_SIZE :: nat where "K_SIZE \<equiv> 2"

text \<open>The value \<open>{-1, -1, false}\<close> that a search returns when it finds nothing.\<close>

definition no_node :: b_tree_node where
  "no_node = \<lparr>id_of = -1, pid = -1, main_address = None, ping_address = None\<rparr>"

section \<open>Operations\<close>

definition btree_init :: b_tree where
  "btree_init = \<lparr>buf = [], pool_size = 0, bt_size = 0\<rparr>"

definition btree_destroy :: "b_tree \<Rightarrow> b_tree" where
  "btree_destroy t = t\<lparr>bt_size := 0, pool_size := 0, buf := []\<rparr>"

text \<open>
  \<open>realloc(t->buf, n * sizeof(b_tree_node))\<close>: the byte count wraps, an entry has 24 bytes.
\<close>

definition realloc_nodes :: "b_tree_node mem \<Rightarrow> nat \<Rightarrow> b_tree_node mem" where
  "realloc_nodes m n = mem_realloc m (sz_mul n 24 div 24)"

text \<open>The flag \<open>ok\<close> says whether the allocator grants the request.\<close>

definition set_size :: "bool \<Rightarrow> b_tree \<Rightarrow> nat \<Rightarrow> b_tree \<times> bool" where
  "set_size ok t new_size =
    (if new_size < bt_size t then
       let t1 = t\<lparr>bt_size := new_size\<rparr> in
       if sz_mul (sz_mul (bt_size t1) 2) K_SIZE \<le> pool_size t1 then
         let p = pool_size t1 div K_SIZE in
         (t1\<lparr>pool_size := p, buf := (if ok then realloc_nodes (buf t1) p else [])\<rparr>, True)
       else (t1, True)
     else if new_size > bt_size t then
       let t1 = t\<lparr>bt_size := new_size\<rparr> in
       if new_size > pool_size t1 then
         let new_pool_size =
           (if pool_size t1 = 0 then K_SIZE * 2 else sz_mul (pool_size t1) K_SIZE) in
         if \<not> ok then (t1, False)
         else (t1\<lparr>pool_size := new_pool_size, buf := realloc_nodes (buf t1) new_pool_size\<rparr>, True)
       else (t1, True)
     else (t, True))"

definition btree_add :: "bool \<Rightarrow> b_tree \<Rightarrow> b_tree_node \<Rightarrow> (b_tree \<times> bool) option" where
  "btree_add ok t elem =
    (let (t1, res) = set_size ok t (sz_add (bt_size t) 1) in
     if \<not> res then Some (t1, False)
     else do {
       b \<leftarrow> mem_set (buf t1) (sz_sub (bt_size t1) 1) elem;
       Some (t1\<lparr>buf := b\<rparr>, True)
     })"

definition btree_last_elem_parent :: "b_tree \<Rightarrow> b_tree_node option" where
  "btree_last_elem_parent t = mem_get (buf t) (sz_sub (bt_size t) 2 div 2)"

definition btree_last_elem :: "b_tree \<Rightarrow> b_tree_node option" where
  "btree_last_elem t = mem_get (buf t) (sz_sub (bt_size t) 1)"

text \<open>
  The loop \<open>for (int i = ..; i < t->size; ++i) if (t->buf[i].id == elem_id) ..\<close> that every search
  runs: \<open>Some (Some i)\<close> when it breaks at index \<open>i\<close>, \<open>Some None\<close> when it runs to the end.
\<close>

function btree_loop :: "b_tree \<Rightarrow> int \<Rightarrow> nat \<Rightarrow> nat option option" where
  "btree_loop t elem_id i =
    (if i < bt_size t then
       do {
         e \<leftarrow> mem_get (buf t) i;
         if id_of e = elem_id then Some (Some i)
         else if int i < INT_MAX then btree_loop t elem_id (Suc i)
         else None
       }
     else Some None)"
  by pat_completeness auto
termination
  by (relation "measure (\<lambda>(t, elem_id, i). bt_size t - i)") auto

declare btree_loop.simps [simp del]

definition btree_remove :: "b_tree \<Rightarrow> int \<Rightarrow> (b_tree \<times> b_tree_node) option" where
  "btree_remove t elem_id = do {
     r_elem \<leftarrow> mem_get (buf t) (sz_sub (bt_size t) 1);
     hit \<leftarrow> btree_loop t elem_id 0;
     b \<leftarrow> (case hit of
        None \<Rightarrow> Some (buf t)
      | Some i \<Rightarrow> do {
          e \<leftarrow> mem_get (buf t) i;
          b1 \<leftarrow> mem_set (buf t) i (e\<lparr>main_address := None, ping_address := None\<rparr>);
          mem_set b1 i r_elem
        });
     Some (t\<lparr>buf := b, bt_size := sz_sub (bt_size t) 1\<rparr>, r_elem)
   }"

definition btree_find :: "b_tree \<Rightarrow> int \<Rightarrow> b_tree_node option" where
  "btree_find t elem_id = do {
     hit \<leftarrow> btree_loop t elem_id 0;
     case hit of None \<Rightarrow> Some no_node | Some i \<Rightarrow> mem_get (buf t) i
   }"

definition btree_get_parent :: "b_tree \<Rightarrow> int \<Rightarrow> b_tree_node option" where
  "btree_get_parent t elem_id = do {
     hit \<leftarrow> btree_loop t elem_id 0;
     case hit of
       None \<Rightarrow> Some no_node
     | Some i \<Rightarrow> if i = 0 then Some no_node else mem_get (buf t) ((i - 1) div 2)
   }"

text \<open>The index of a child, \<open>2*i+1\<close> or \<open>2*i+2\<close>, is computed as an \<open>int\<close>.\<close>

definition btree_child :: "nat \<Rightarrow> b_tree \<Rightarrow> int \<Rightarrow> b_tree_node option" where
  "btree_child k t elem_id = do {
     hit \<leftarrow> btree_loop t elem_id 0;
     case hit of
       None \<Rightarrow> Some no_node
     | Some i \<Rightarrow>
         if int (2 * i + k) > INT_MAX then None
         else if 2 * i + k \<ge> bt_size t then Some no_node
         else mem_get (buf t) (2 * i + k)
   }"

definition btree_get_left :: "b_tree \<Rightarrow> int \<Rightarrow> b_tree_node option" where
  "btree_get_left = btree_child 1"

definition btree_get_right :: "b_tree \<Rightarrow> int \<Rightarrow> b_tree_node option" where
  "btree_get_right = btree_child 2"

section \<open>Abstraction and invariant\<close>

definition nodes :: "b_tree \<Rightarrow> b_tree_node list" where
  "nodes t = written (bt_size t) (buf t)"

definition btree_inv :: "b_tree \<Rightarrow> bool" where
  "btree_inv t \<longleftrightarrow> length (buf t) = pool_size t \<and> bt_size t \<le> pool_size t \<and> pool_size t < 2 ^ 32 \<and>
     bt_size t < 2 ^ 30 \<and> (\<forall>i < bt_size t. buf t ! i \<noteq> None)"

text \<open>The index of the first entry with a given id.\<close>

fun node_index :: "b_tree_node list \<Rightarrow> int \<Rightarrow> nat option" where
  "node_index [] elem_id = None"
| "node_index (n # ns) elem_id =
     (if id_of n = elem_id then Some 0 else map_option Suc (node_index ns elem_id))"

definition entry :: "b_tree_node list \<Rightarrow> nat \<Rightarrow> b_tree_node" where
  "entry ns i = (if i < length ns then ns ! i else no_node)"

lemma node_index_None [simp]: "node_index ns e = None \<longleftrightarrow> e \<notin> id_of ` set ns"
  by (induction ns) auto

lemma node_index_SomeD:
  "node_index ns e = Some i \<Longrightarrow> i < length ns \<and> id_of (ns ! i) = e \<and> (\<forall>j<i. id_of (ns ! j) \<noteq> e)"
proof (induction ns arbitrary: i)
  case (Cons n ns)
  show ?case
  proof (cases "id_of n = e")
    case False
    with Cons.prems obtain k where "node_index ns e = Some k" "i = Suc k" by auto
    with Cons.IH False show ?thesis by (auto simp: nth_Cons split: nat.split)
  qed (use Cons.prems in simp)
qed simp

lemma node_index_distinct:
  "distinct (map id_of ns) \<Longrightarrow> i < length ns \<Longrightarrow> node_index ns (id_of (ns ! i)) = Some i"
proof (induction ns arbitrary: i)
  case (Cons n ns)
  then show ?case by (cases i) auto
qed simp

lemma node_index_append:
  "node_index (xs @ ys) e =
    (case node_index xs e of Some i \<Rightarrow> Some i | None \<Rightarrow> map_option (\<lambda>k. k + length xs) (node_index ys e))"
  by (induction xs) (auto simp: option.map_comp option.map_ident o_def simp del: node_index_None split: option.splits)

lemma btree_invD:
  assumes "btree_inv t"
  shows length_nodes: "length (nodes t) = bt_size t"
    and cell_nodes: "i < bt_size t \<Longrightarrow> mem_get (buf t) i = Some (nodes t ! i)"
    and size_bound: "bt_size t < 2 ^ 30"
  using assms by (auto simp: btree_inv_def nodes_def nth_written mem_simps)

text \<open>The search loop finds the first entry with the id, or nothing, and never faults.\<close>

lemma btree_loop_spec:
  assumes "btree_inv t" "i \<le> bt_size t"
  shows "btree_loop t e i = Some (map_option (\<lambda>k. k + i) (node_index (drop i (nodes t)) e))"
  using assms(2)
proof (induction "bt_size t - i" arbitrary: i)
  case 0
  then show ?case using assms(1) by (simp add: btree_loop.simps length_nodes)
next
  case (Suc n)
  then have i: "i < bt_size t" by simp
  then have split: "drop i (nodes t) = nodes t ! i # drop (Suc i) (nodes t)"
    using assms(1) by (simp add: Cons_nth_drop_Suc length_nodes)
  have small: "int i < INT_MAX" using i size_bound [OF assms(1)] by simp
  have IH: "btree_loop t e (Suc i) = Some (map_option (\<lambda>k. k + Suc i) (node_index (drop (Suc i) (nodes t)) e))"
    using Suc i by simp
  show ?case
    using i small cell_nodes [OF assms(1) i]
    by (subst btree_loop.simps) (simp add: IH split option.map_comp o_def)
qed

corollary btree_loop_0: "btree_inv t \<Longrightarrow> btree_loop t e 0 = Some (node_index (nodes t) e)"
  by (simp add: btree_loop_spec option.map_ident)

section \<open>The operations implement list operations\<close>

lemma btree_init_correct: "btree_inv btree_init" "nodes btree_init = []"
  by (simp_all add: btree_inv_def btree_init_def nodes_def written_def)

lemma realloc_nodes_small: "n < 2 ^ 40 \<Longrightarrow> realloc_nodes m n = mem_realloc m n"
  by (simp add: realloc_nodes_def sz_mul_small)

lemma set_size_grow:
  assumes "btree_inv t" "bt_size t + 1 < 2 ^ 30" "set_size True t (Suc (bt_size t)) = (t1, res)"
  shows "res" "bt_size t1 = Suc (bt_size t)" "length (buf t1) = pool_size t1"
    "Suc (bt_size t) \<le> pool_size t1" "pool_size t1 < 2 ^ 32"
    "take (bt_size t) (buf t1) = take (bt_size t) (buf t)"
  using assms
  by (auto simp: set_size_def btree_inv_def sz_mul_small realloc_nodes_small take_mem_realloc
      Let_def split: if_splits)

lemma btree_add_spec:
  assumes inv: "btree_inv t" and room: "bt_size t + 1 < 2 ^ 30"
  obtains t' where "btree_add True t e = Some (t', True)" "btree_inv t'" "nodes t' = nodes t @ [e]"
proof -
  obtain t1 res where set: "set_size True t (Suc (bt_size t)) = (t1, res)" by fastforce
  note grown = set_size_grow [OF inv room set]
  define t' where "t' = t1\<lparr>buf := (buf t1)[bt_size t := Some e]\<rparr>"
  have "sz_add (bt_size t) 1 = Suc (bt_size t)" "sz_sub (bt_size t1) 1 = bt_size t"
    using room grown by (simp_all add: sz_add_small sz_sub_small)
  then have add: "btree_add True t e = Some (t', True)"
    using grown by (simp add: btree_add_def set mem_simps t'_def)
  have cells: "buf t' ! i = (if i = bt_size t then Some e else buf t ! i)" if "i < bt_size t'" for i
    using that grown nth_take [of i "bt_size t" "buf t1"] nth_take [of i "bt_size t" "buf t"]
    by (auto simp: t'_def nth_list_update less_Suc_eq)
  have "btree_inv t'"
    using inv room grown cells by (auto simp: btree_inv_def t'_def less_Suc_eq)
  moreover have "nodes t' = nodes t @ [e]"
    using grown inv
    by (simp add: nodes_def t'_def written_Suc written_update_beyond) (simp add: written_def)
  ultimately show thesis using add that by blast
qed

text \<open>
  When the allocator refuses, the size has already been raised: the array is left with a
  \<open>bt_size\<close> larger than its capacity.
\<close>

lemma btree_add_refused:
  assumes "btree_inv t" "bt_size t = pool_size t" "bt_size t + 1 < 2 ^ 30"
  shows "btree_add False t e = Some (t\<lparr>bt_size := Suc (bt_size t)\<rparr>, False)"
  using assms by (simp add: btree_add_def set_size_def sz_add_small btree_inv_def)

lemma btree_find_spec:
  "btree_inv t \<Longrightarrow>
   btree_find t e = Some (case node_index (nodes t) e of None \<Rightarrow> no_node | Some i \<Rightarrow> nodes t ! i)"
  by (auto simp: btree_find_def btree_loop_0 cell_nodes length_nodes split: option.splits
      dest!: node_index_SomeD)

lemma btree_get_parent_spec:
  "btree_inv t \<Longrightarrow>
   btree_get_parent t e = Some (case node_index (nodes t) e of
      None \<Rightarrow> no_node | Some i \<Rightarrow> if i = 0 then no_node else nodes t ! ((i - 1) div 2))"
  by (auto simp: btree_get_parent_def btree_loop_0 cell_nodes length_nodes split: option.splits
      dest!: node_index_SomeD)

lemma btree_child_spec:
  assumes inv: "btree_inv t" and k: "k \<le> 2"
  shows "btree_child k t e = Some (case node_index (nodes t) e of
      None \<Rightarrow> no_node | Some i \<Rightarrow> entry (nodes t) (2 * i + k))"
proof -
  have "2 * i + k \<le> 2147483647" if "i < bt_size t" for i
    using that size_bound [OF inv] k by simp
  then have "\<not> 2147483647 < int (2 * i + k)" if "i < bt_size t" for i
    using that by (metis int_ops(3) not_le of_nat_le_iff of_nat_numeral)
  then show ?thesis
    using inv by (auto simp: btree_child_def btree_loop_0 cell_nodes length_nodes entry_def
        simp del: of_nat_add of_nat_mult split: option.splits dest!: node_index_SomeD)
qed

lemmas btree_nav_specs =
  btree_find_spec btree_get_parent_spec
  btree_child_spec [where k = 1, folded btree_get_left_def, simplified]
  btree_child_spec [where k = 2, folded btree_get_right_def, simplified]

lemma btree_last_spec:
  "btree_inv t \<Longrightarrow> 0 < bt_size t \<Longrightarrow> btree_last_elem t = Some (last (nodes t))"
  using size_bound [of t] cell_nodes [of t "bt_size t - 1"] length_nodes [of t]
  by (simp add: btree_last_elem_def sz_sub_small last_conv_nth flip: length_greater_0_conv)

lemma btree_last_parent_spec:
  "btree_inv t \<Longrightarrow> 2 \<le> bt_size t \<Longrightarrow>
   btree_last_elem_parent t = Some (nodes t ! ((bt_size t - 2) div 2))"
  using size_bound [of t] cell_nodes [of t "(bt_size t - 2) div 2"]
  by (simp add: btree_last_elem_parent_def sz_sub_small)

text \<open>Removal moves the last entry into the place of the removed one.\<close>

definition remove_node :: "b_tree_node list \<Rightarrow> int \<Rightarrow> b_tree_node list" where
  "remove_node ns e =
     (case node_index ns e of None \<Rightarrow> butlast ns | Some i \<Rightarrow> butlast (ns[i := last ns]))"

lemma btree_remove_spec:
  assumes inv: "btree_inv t" and ne: "0 < bt_size t"
  obtains t' where "btree_remove t e = Some (t', last (nodes t))" "btree_inv t'"
    "nodes t' = remove_node (nodes t) e"
proof -
  let ?n = "bt_size t" let ?last = "last (nodes t)"
  have last: "mem_get (buf t) (?n - 1) = Some ?last"
    using btree_last_spec [OF inv ne] ne size_bound [OF inv]
    by (simp add: btree_last_elem_def sz_sub_small)
  define b where "b = (case node_index (nodes t) e of None \<Rightarrow> buf t | Some i \<Rightarrow> (buf t)[i := Some ?last])"
  define t' where "t' = t\<lparr>buf := b, bt_size := ?n - 1\<rparr>"
  have len: "length b = length (buf t)"
    by (simp add: b_def split: option.split)
  have idx: "i < length (buf t)" if "i < ?n" for i
    using that inv by (simp add: btree_inv_def)
  have "btree_remove t e = Some (t', ?last)"
    using inv ne last size_bound [OF inv] idx
    by (auto simp: btree_remove_def sz_sub_small btree_loop_0 cell_nodes length_nodes t'_def b_def
        mem_set_in_range split: option.splits dest!: node_index_SomeD)
  moreover have "btree_inv t'"
    using inv len length_nodes [OF inv]
    by (auto simp: btree_inv_def t'_def b_def nth_list_update simp del: node_index_None
        split: option.splits dest: node_index_SomeD)
  moreover have "nodes t' = remove_node (nodes t) e"
  proof -
    have t': "nodes t' = written (?n - 1) b" by (simp add: nodes_def t'_def)
    show ?thesis
    proof (cases "node_index (nodes t) e")
      case None
      then have "nodes t' = take (?n - 1) (nodes t)"
        by (simp add: t' b_def del: node_index_None) (simp add: nodes_def take_written)
      with None show ?thesis
        by (simp add: remove_node_def butlast_conv_take length_nodes inv del: node_index_None)
    next
      case (Some i)
      then have i: "i < ?n" using node_index_SomeD length_nodes [OF inv] by metis
      have "written ?n ((buf t)[i := Some ?last]) = (nodes t)[i := ?last]"
        using i inv by (simp add: written_update nodes_def btree_inv_def)
      then have "nodes t' = take (?n - 1) ((nodes t)[i := ?last])"
        using Some by (metis (no_types) t' b_def diff_le_self option.simps(5) take_written)
      with Some show ?thesis
        by (simp add: remove_node_def butlast_conv_take length_nodes inv)
    qed
  qed
  ultimately show thesis using that by blast
qed

section \<open>The interface of the table\<close>

text \<open>Moving the last entry over the \<open>i\<close>-th one removes exactly the \<open>i\<close>-th.\<close>

lemma butlast_move_last:
  assumes "distinct (map f xs)" "i < length xs"
  shows "distinct (map f (butlast (xs[i := last xs])))"
    "set (butlast (xs[i := last xs])) = set xs - {xs ! i}"
proof -
  obtain ys y where xs: "xs = ys @ [y]" using assms(2) by (cases xs rule: rev_cases) auto
  have dist: "distinct (map f ys)" "f y \<notin> f ` set ys" "distinct ys"
    using assms(1) by (auto simp: xs distinct_map)
  show "distinct (map f (butlast (xs[i := last xs])))"
    using dist assms(2)
    by (auto simp: xs list_update_append nth_append map_update less_Suc_eq
        intro: distinct_list_update dest: in_set_conv_nth [THEN iffD1])
  show "set (butlast (xs[i := last xs])) = set xs - {xs ! i}"
    using dist assms(2)
    by (auto simp: xs list_update_append nth_append less_Suc_eq set_update_distinct)
qed

text \<open>
  What a client of the table may rely on. \<open>elems\<close> are the entries of the table in heap order;
  \<open>add\<close> and \<open>remove\<close> keep the entries findable under their ids as long as the ids are distinct.
\<close>

locale node_table =
  fixes inv :: "'t \<Rightarrow> bool"
    and elems :: "'t \<Rightarrow> b_tree_node list"
    and room :: "'t \<Rightarrow> bool"
    and add :: "'t \<Rightarrow> b_tree_node \<Rightarrow> ('t \<times> bool) option"
    and remove :: "'t \<Rightarrow> int \<Rightarrow> ('t \<times> b_tree_node) option"
    and find_id :: "'t \<Rightarrow> int \<Rightarrow> b_tree_node option"
  assumes add: "inv t \<Longrightarrow> room t \<Longrightarrow>
      \<exists>t'. add t e = Some (t', True) \<and> inv t' \<and> elems t' = elems t @ [e]"
    and remove: "inv t \<Longrightarrow> elems t \<noteq> [] \<Longrightarrow>
      \<exists>t' r. remove t i = Some (t', r) \<and> inv t' \<and> elems t' = remove_node (elems t) i"
    and find_id: "inv t \<Longrightarrow>
      find_id t i = Some (case node_index (elems t) i of None \<Rightarrow> no_node | Some k \<Rightarrow> elems t ! k)"
begin

definition well_keyed :: "'t \<Rightarrow> bool" where
  "well_keyed t \<longleftrightarrow> inv t \<and> distinct (map id_of (elems t))"

lemma find_present:
  "well_keyed t \<Longrightarrow> n \<in> set (elems t) \<Longrightarrow> find_id t (id_of n) = Some n"
  by (auto simp: well_keyed_def find_id in_set_conv_nth node_index_distinct)

lemma find_absent:
  "inv t \<Longrightarrow> i \<notin> id_of ` set (elems t) \<Longrightarrow> find_id t i = Some no_node"
  using node_index_None [of "elems t" i] by (simp add: find_id del: node_index_None)

lemma add_new:
  assumes "well_keyed t" "room t" "id_of e \<notin> id_of ` set (elems t)"
  obtains t' where "add t e = Some (t', True)" "well_keyed t'" "elems t' = elems t @ [e]"
  using assms add [of t e] by (auto simp: well_keyed_def)

lemma remove_present:
  assumes t: "well_keyed t" and n: "n \<in> set (elems t)"
  obtains t' r where "remove t (id_of n) = Some (t', r)" "well_keyed t'"
    "set (elems t') = set (elems t) - {n}" "length (elems t') = length (elems t) - 1"
proof -
  obtain i where i: "i < length (elems t)" "elems t ! i = n"
    using n by (auto simp: in_set_conv_nth)
  obtain t' r where rm: "remove t (id_of n) = Some (t', r)" "inv t'"
      "elems t' = remove_node (elems t) (id_of n)"
    using remove [of t "id_of n"] t n unfolding well_keyed_def by force
  then have elems: "elems t' = butlast ((elems t)[i := last (elems t)])"
    using t i node_index_distinct [of "elems t" i] by (simp add: well_keyed_def remove_node_def)
  have dist: "distinct (map id_of (elems t))" using t by (simp add: well_keyed_def)
  note moved = butlast_move_last [OF dist i(1)]
  show thesis
    using rm(1,2) moved i by (intro that [of t' r]) (simp_all add: well_keyed_def elems)
qed

end

definition btree_room :: "b_tree \<Rightarrow> bool" where
  "btree_room t \<longleftrightarrow> bt_size t + 1 < 2 ^ 30"

interpretation bt: node_table btree_inv nodes btree_room "btree_add True" btree_remove btree_find
proof unfold_locales
  fix t e assume "btree_inv t" "btree_room t"
  then show "\<exists>t'. btree_add True t e = Some (t', True) \<and> btree_inv t' \<and> nodes t' = nodes t @ [e]"
    unfolding btree_room_def by (blast elim: btree_add_spec)
next
  fix t i assume "btree_inv t" "nodes t \<noteq> []"
  then show "\<exists>t' r. btree_remove t i = Some (t', r) \<and> btree_inv t' \<and> nodes t' = remove_node (nodes t) i"
    using length_nodes [of t] by (metis btree_remove_spec length_greater_0_conv)
qed (rule btree_find_spec)

lemma btree_add_spec_parent:
  assumes "btree_inv t" "btree_room t" "nodes t \<noteq> []"
  shows "\<exists>t'. btree_add True t e = Some (t', True) \<and> btree_inv t' \<and> nodes t' = nodes t @ [e] \<and>
     btree_last_elem_parent t' = Some (nodes t ! ((bt_size t - 1) div 2))"
proof -
  obtain t' where t': "btree_add True t e = Some (t', True)" "btree_inv t'" "nodes t' = nodes t @ [e]"
    using bt.add [OF assms(1,2)] by blast
  have sz: "bt_size t' = Suc (bt_size t)"
    using t' assms length_nodes by (metis length_append_singleton)
  have "btree_last_elem_parent t' = Some (nodes t ! ((bt_size t - 1) div 2))"
  proof -
    have pos: "0 < bt_size t" using assms(3) length_nodes [OF assms(1)] by (metis length_greater_0_conv)
    then have "(bt_size t' - 2) div 2 < length (nodes t)"
      using length_nodes [OF assms(1)] by (simp add: sz)
    then show ?thesis
      using btree_last_parent_spec [OF t'(2)] pos by (simp add: sz t'(3) nth_append)
  qed
  with t' show ?thesis by blast
qed

section \<open>Properties\<close>

text \<open>
  C34: growing. While the table has fewer than \<open>2 ^ 30 - 1\<close> entries and the allocator grants the
  request, \<open>btree_add\<close> does not fault, reports success, keeps the invariant (capacity, written
  cells), and appends the new entry behind the old ones, which stay where they are. The parent
  that the control node then asks for is the entry half-way back.
\<close>

theorem btree_add_correct:
  assumes "btree_inv t" "btree_room t"
  shows "\<exists>t'. btree_add True t e = Some (t', True) \<and> btree_inv t' \<and> nodes t' = nodes t @ [e] \<and>
     (nodes t \<noteq> [] \<longrightarrow> btree_last_elem_parent t' = Some (nodes t ! ((bt_size t - 1) div 2)))"
  using bt.add [OF assms] btree_add_spec_parent [OF assms] by (cases "nodes t = []") auto

text \<open>
  Searching. With distinct ids, every entry is found under its id; an id that no entry has
  yields the value \<open>{-1, -1, NULL, NULL}\<close>. The search never faults.
\<close>

theorem btree_find_correct:
  assumes "btree_inv t" "distinct (map id_of (nodes t))"
  shows "(\<forall>n \<in> set (nodes t). btree_find t (id_of n) = Some n) \<and>
     (\<forall>e. e \<notin> id_of ` set (nodes t) \<longrightarrow> btree_find t e = Some no_node)"
  using assms bt.find_present bt.find_absent by (auto simp: bt.well_keyed_def)

text \<open>
  C33: removing an entry that is in the table. The call does not fault; afterwards exactly that
  entry is gone, the ids are still distinct, the table has one entry less, and the last entry
  stands at the index of the removed one unless it was the removed one itself.
\<close>

theorem btree_remove_correct:
  assumes "btree_inv t" "distinct (map id_of (nodes t))" "i < length (nodes t)"
  shows "\<exists>t'. btree_remove t (id_of (nodes t ! i)) = Some (t', last (nodes t)) \<and> btree_inv t' \<and>
     distinct (map id_of (nodes t')) \<and> set (nodes t') = set (nodes t) - {nodes t ! i} \<and>
     nodes t' = butlast ((nodes t)[i := last (nodes t)])"
proof -
  have "0 < bt_size t" using assms(3) length_nodes [OF assms(1)] by simp
  then obtain t' where t': "btree_remove t (id_of (nodes t ! i)) = Some (t', last (nodes t))"
      "btree_inv t'" "nodes t' = remove_node (nodes t) (id_of (nodes t ! i))"
    using btree_remove_spec [OF assms(1)] by blast
  then have "nodes t' = butlast ((nodes t)[i := last (nodes t)])"
    by (simp add: remove_node_def node_index_distinct [OF assms(2,3)])
  with t' butlast_move_last [OF assms(2,3)] show ?thesis by auto
qed

text \<open>
  Removing an id that is not in the table. \<open>btree_remove\<close> has no such case in its loop, so it
  still shrinks the table: the last entry, which has another id, is lost.
\<close>

theorem btree_remove_absent:
  assumes "btree_inv t" "nodes t \<noteq> []" "e \<notin> id_of ` set (nodes t)"
  shows "\<exists>t'. btree_remove t e = Some (t', last (nodes t)) \<and> nodes t' = butlast (nodes t)"
proof -
  have "0 < bt_size t" using assms(2) length_nodes [OF assms(1)] by (metis length_greater_0_conv)
  then obtain t' where "btree_remove t e = Some (t', last (nodes t))"
      "nodes t' = remove_node (nodes t) e"
    using btree_remove_spec [OF assms(1)] by blast
  moreover have "node_index (nodes t) e = None" using assms(3) by simp
  ultimately show ?thesis by (simp add: remove_node_def del: node_index_None)
qed

text \<open>
  The family relations. For the entry at index \<open>i\<close> of a table with distinct ids, the left and
  right child are the entries at \<open>2 * i + 1\<close> and \<open>2 * i + 2\<close> (the value \<open>no_node\<close> past the end),
  and each existing child has this entry as its parent. The root has no parent.
\<close>

theorem btree_family:
  assumes "btree_inv t" "distinct (map id_of (nodes t))" "i < length (nodes t)"
  shows "btree_get_left t (id_of (nodes t ! i)) = Some (entry (nodes t) (2 * i + 1)) \<and>
     btree_get_right t (id_of (nodes t ! i)) = Some (entry (nodes t) (2 * i + 2)) \<and>
     (\<forall>c \<in> {2 * i + 1, 2 * i + 2}. c < length (nodes t) \<longrightarrow>
        btree_get_parent t (id_of (nodes t ! c)) = Some (nodes t ! i)) \<and>
     btree_get_parent t (id_of (nodes t ! 0)) = Some no_node"
  using assms
  by (auto simp: btree_nav_specs node_index_distinct length_greater_0_conv [symmetric]
      simp del: length_greater_0_conv)

text \<open>
  Growing when the allocator refuses. \<open>set_size\<close> writes the new size before it asks for
  memory, so after the reported failure the table claims one entry more than it has cells: the
  invariant is broken and the next search that reaches the end of the table reads out of bounds.
\<close>

theorem btree_add_failure_corrupts:
  assumes "btree_inv t" "btree_room t" "bt_size t = pool_size t" "e \<notin> id_of ` set (nodes t)"
  shows "\<exists>t'. btree_add False t e0 = Some (t', False) \<and> \<not> btree_inv t' \<and> bt_size t' = pool_size t' + 1 \<and>
     btree_find t' e = None"
proof -
  define t' where "t' = t\<lparr>bt_size := Suc (bt_size t)\<rparr>"
  have loop: "btree_loop t' e i = None" if "i \<le> bt_size t" for i
    using that
  proof (induction "bt_size t - i" arbitrary: i)
    case 0
    then show ?case
      using assms(1,3)
      by (subst btree_loop.simps) (simp add: t'_def btree_inv_def mem_get_out_of_range)
  next
    case (Suc n)
    then have i: "i < bt_size t" by simp
    then have "nodes t ! i \<in> set (nodes t)" using length_nodes [OF assms(1)] by simp
    then have "id_of (nodes t ! i) \<noteq> e" using assms(4) by blast
    moreover have "btree_loop t' e (Suc i) = None" using Suc by simp
    ultimately show ?case
      using cell_nodes [OF assms(1) i] i by (subst btree_loop.simps) (simp add: t'_def)
  qed
  have "btree_add False t e0 = Some (t', False)"
    using assms btree_add_refused [of t] by (simp add: btree_room_def t'_def)
  moreover have "btree_find t' e = None" by (simp add: btree_find_def loop)
  ultimately show ?thesis using assms(3) by (auto simp: btree_inv_def t'_def)
qed

section \<open>Concrete tables\<close>

definition demo_node :: "int \<Rightarrow> b_tree_node" where
  "demo_node k = \<lparr>id_of = k, pid = 100 + k, main_address = Some ''m'', ping_address = Some ''p''\<rparr>"

definition demo_tree :: b_tree where
  "demo_tree = \<lparr>buf = [Some (demo_node (-1)), Some (demo_node 5), Some (demo_node 7), None],
     pool_size = 4, bt_size = 3\<rparr>"

definition demo_full :: b_tree where
  "demo_full = \<lparr>buf = [Some (demo_node (-1)), Some (demo_node 5), Some (demo_node 7), Some (demo_node 9)],
     pool_size = 4, bt_size = 4\<rparr>"

lemma btree_inv_executable:
  "btree_inv t \<longleftrightarrow> length (buf t) = pool_size t \<and> bt_size t \<le> pool_size t \<and> pool_size t < 2 ^ 32 \<and>
     bt_size t < 2 ^ 30 \<and> None \<notin> set (take (bt_size t) (buf t))"
  by (auto simp: btree_inv_def in_set_conv_nth)

lemma demo_tree_facts:
  "btree_inv demo_tree" "btree_room demo_tree"
  "nodes demo_tree = [demo_node (-1), demo_node 5, demo_node 7]"
  "distinct (map id_of (nodes demo_tree))"
  by (simp_all add: btree_inv_executable btree_room_def demo_tree_def nodes_def written_def demo_node_def)

lemma demo_full_facts:
  "btree_inv demo_full" "btree_room demo_full"
  "nodes demo_full = [demo_node (-1), demo_node 5, demo_node 7, demo_node 9]"
  by (simp_all add: btree_inv_executable btree_room_def demo_full_def nodes_def written_def)

theorem btree_add_correct_witness:
  "\<exists>t'. btree_add True demo_tree (demo_node 8) = Some (t', True) \<and> length (nodes t') = 4 \<and>
     btree_last_elem_parent t' = Some (demo_node 5)"
  using btree_add_correct [OF demo_tree_facts(1,2), of "demo_node 8"] demo_tree_facts(3)
  by (fastforce simp: demo_tree_def)

theorem btree_find_correct_witness:
  "btree_find demo_tree 7 = Some (demo_node 7) \<and> btree_find demo_tree 6 = Some no_node"
  using btree_find_correct [OF demo_tree_facts(1,4)] demo_tree_facts(3)
  by (auto simp: demo_node_def)

theorem btree_remove_correct_witness:
  "\<exists>t'. btree_remove demo_tree 5 = Some (t', demo_node 7) \<and> nodes t' = [demo_node (-1), demo_node 7]"
  using btree_remove_correct [OF demo_tree_facts(1,4), of 1] demo_tree_facts(3)
  by (auto simp: demo_node_def)

theorem btree_remove_absent_witness:
  "\<exists>t'. btree_remove demo_tree 6 = Some (t', demo_node 7) \<and> nodes t' = [demo_node (-1), demo_node 5]"
  using btree_remove_absent [OF demo_tree_facts(1), of 6] demo_tree_facts(3)
  by (auto simp: demo_node_def)

theorem btree_family_witness:
  "btree_get_left demo_tree (-1) = Some (demo_node 5) \<and> btree_get_right demo_tree (-1) = Some (demo_node 7) \<and>
   btree_get_parent demo_tree 7 = Some (demo_node (-1)) \<and> btree_get_parent demo_tree (-1) = Some no_node"
  using btree_family [OF demo_tree_facts(1,4), of 0] demo_tree_facts(3)
  by (simp add: demo_node_def entry_def)

theorem btree_add_failure_corrupts_witness:
  "\<exists>t'. btree_add False demo_full (demo_node 8) = Some (t', False) \<and> \<not> btree_inv t' \<and>
     btree_find t' 8 = None"
  using btree_add_failure_corrupts [OF demo_full_facts(1,2), of 8 "demo_node 8"] demo_full_facts(3)
  by (fastforce simp: demo_full_def demo_node_def)

end
