(* ===== verification/XorList.thy ===== *)
theory XorList
  imports Prelude
begin

text \<open>
  The queue of removals of the control process: \<^verbatim>\<open>lab6/structures/rm_list.{h,c}\<close>, a doubly
  linked circular list in which an element stores only \<open>pn\<close>, the exclusive or of the addresses
  of its two neighbours, and an iterator carries the two addresses it stands between. The ring is
  closed by \<open>barrier\<close>, an element embedded in the list structure itself.

  The elements live in an explicit heap from addresses to elements. \<open>cursor\<close> is the abstraction:
  an iterator of a list that holds the values \<open>xs @ ys\<close> stands before the first value of \<open>ys\<close>.
  The locale \<open>cursor_list\<close> is the interface clients use; the heap model satisfies it.
\<close>

section \<open>Data\<close>

record remove_struct =
  len_commands :: int
  remove_node_id :: int
  commands :: "string option list"    \<comment> \<open>\<open>char **commands\<close>, \<open>None\<close> for a NULL entry\<close>
  number_commands :: int
  now_command :: int

record 'v listel =
  val :: "'v option"                  \<comment> \<open>\<open>None\<close> while never written\<close>
  pn :: addr

record 'v rm_list =
  heap :: "addr \<rightharpoonup> 'v listel"         \<comment> \<open>the live list elements\<close>
  barrier :: addr                     \<comment> \<open>\<open>&l->barrier\<close>\<close>
  first :: addr
  list_size :: int

record list_iter =
  lst :: addr                         \<comment> \<open>the list, by the address of its barrier\<close>
  prev :: addr
  cur :: addr

section \<open>Operations\<close>

definition load :: "'v rm_list \<Rightarrow> addr \<Rightarrow> 'v listel option" where
  "load l a = (if a = NULL then None else heap l a)"

definition store_pn :: "'v rm_list \<Rightarrow> addr \<Rightarrow> addr \<Rightarrow> 'v rm_list option" where
  "store_pn l a p = do { e \<leftarrow> load l a; Some (l\<lparr>heap := (heap l)(a \<mapsto> e\<lparr>pn := p\<rparr>)\<rparr>) }"

text \<open>\<open>free\<close> of an address that is not a live malloc'ed element is undefined.\<close>

definition free_el :: "'v rm_list \<Rightarrow> addr \<Rightarrow> 'v rm_list option" where
  "free_el l a =
    (if a = barrier l then None
     else do { _ \<leftarrow> load l a; Some (l\<lparr>heap := (heap l)(a := None)\<rparr>) })"

definition listel_xor :: "addr \<Rightarrow> addr \<Rightarrow> addr" where
  "listel_xor l1 l2 = l1 XOR l2"

definition get_next :: "'v rm_list \<Rightarrow> list_iter \<Rightarrow> addr option" where
  "get_next l it = do { c \<leftarrow> load l (cur it); Some (listel_xor (pn c) (prev it)) }"

definition get_prev_before :: "'v rm_list \<Rightarrow> list_iter \<Rightarrow> addr option" where
  "get_prev_before l it = do { p \<leftarrow> load l (prev it); Some (listel_xor (cur it) (pn p)) }"

definition list_init :: "'v rm_list \<Rightarrow> 'v rm_list option" where
  "list_init l = do { l1 \<leftarrow> store_pn l (barrier l) NULL; Some (l1\<lparr>first := barrier l, list_size := 0\<rparr>) }"

definition get_size :: "'v rm_list \<Rightarrow> int" where
  "get_size l = list_size l"

definition list_iter_begin :: "'v rm_list \<Rightarrow> list_iter" where
  "list_iter_begin l = \<lparr>lst = barrier l, prev = barrier l, cur = first l\<rparr>"

definition list_iter_end :: "'v rm_list \<Rightarrow> list_iter option" where
  "list_iter_end l = do {
     b \<leftarrow> load l (barrier l);
     Some \<lparr>lst = barrier l, prev = listel_xor (pn b) (first l), cur = barrier l\<rparr>
   }"

definition list_iter_equal :: "list_iter \<Rightarrow> list_iter \<Rightarrow> bool" where
  "list_iter_equal it1 it2 \<longleftrightarrow> prev it1 = prev it2 \<and> cur it1 = cur it2 \<and> lst it1 = lst it2"

definition list_iter_move_next :: "'v rm_list \<Rightarrow> list_iter \<Rightarrow> list_iter option" where
  "list_iter_move_next l it = do { nxt \<leftarrow> get_next l it; Some (it\<lparr>prev := cur it, cur := nxt\<rparr>) }"

definition list_iter_get :: "'v rm_list \<Rightarrow> list_iter \<Rightarrow> 'v option" where
  "list_iter_get l it = do { c \<leftarrow> load l (cur it); val c }"

definition list_iter_set :: "'v rm_list \<Rightarrow> list_iter \<Rightarrow> 'v \<Rightarrow> 'v rm_list option" where
  "list_iter_set l it v = do {
     c \<leftarrow> load l (cur it);
     Some (l\<lparr>heap := (heap l)(cur it \<mapsto> c\<lparr>val := Some v\<rparr>)\<rparr>)
   }"

text \<open>\<open>new_el\<close> is the address that \<open>malloc\<close> returns; writing through a NULL result faults.\<close>

definition list_iter_insert_before ::
    "addr \<Rightarrow> 'v rm_list \<Rightarrow> list_iter \<Rightarrow> 'v \<Rightarrow> ('v rm_list \<times> list_iter) option" where
  "list_iter_insert_before new_el l it v =
    (if new_el = NULL then None
     else do {
       let l1 = l\<lparr>heap := (heap l)(new_el \<mapsto> \<lparr>val = Some v, pn = listel_xor (cur it) (prev it)\<rparr>)\<rparr>;
       nxt \<leftarrow> get_next l1 it;
       l2 \<leftarrow> (if get_size l1 > 0 then do {
                q \<leftarrow> get_prev_before l1 it;
                l1' \<leftarrow> store_pn l1 (prev it) (listel_xor q new_el);
                store_pn l1' (cur it) (listel_xor new_el nxt)
              } else Some l1);
       let it' = it\<lparr>prev := new_el\<rparr>;
       n \<leftarrow> int_inc (list_size l2);
       let l3 = l2\<lparr>list_size := n\<rparr>;
       Some (if cur it' = first l3 then l3\<lparr>first := new_el\<rparr> else l3, it')
     })"

definition list_iter_remove :: "'v rm_list \<Rightarrow> list_iter \<Rightarrow> ('v rm_list \<times> list_iter) option" where
  "list_iter_remove l it = do {
     nxt \<leftarrow> get_next l it;
     l1 \<leftarrow> (if get_size l > 0 then do {
              q \<leftarrow> get_prev_before l it;
              l' \<leftarrow> store_pn l (prev it) (listel_xor q nxt);
              n \<leftarrow> load l' nxt;
              store_pn l' nxt (listel_xor (listel_xor (pn n) (cur it)) (prev it))
            } else Some l);
     let l2 = (if first l1 = cur it then l1\<lparr>first := nxt\<rparr> else l1);
     l3 \<leftarrow> free_el l2 (cur it);
     if list_size l3 > INT_MIN
     then Some (l3\<lparr>list_size := list_size l3 - 1\<rparr>, it\<lparr>cur := nxt\<rparr>)
     else None
   }"

text \<open>The loop of \<open>list_destroy\<close>; \<open>None\<close> also when it does not end.\<close>

partial_function (option) destroy_loop :: "'v rm_list \<Rightarrow> list_iter \<Rightarrow> 'v rm_list option" where
  "destroy_loop l it = do {
     e \<leftarrow> list_iter_end l;
     if list_iter_equal it e then Some l
     else do { (l', it') \<leftarrow> list_iter_remove l it; destroy_loop l' it' }
   }"

definition list_destroy :: "'v rm_list \<Rightarrow> 'v rm_list option" where
  "list_destroy l = destroy_loop l (list_iter_begin l)"

section \<open>Segments and rings on the heap\<close>

text \<open>
  \<open>xseg h p cs n\<close>: the elements \<open>cs\<close> are live and linked in this order, with \<open>p\<close> before the first
  and \<open>n\<close> behind the last one.
\<close>

fun xseg :: "(addr \<rightharpoonup> 'v listel) \<Rightarrow> addr \<Rightarrow> addr list \<Rightarrow> addr \<Rightarrow> bool" where
  "xseg h p [] n \<longleftrightarrow> True"
| "xseg h p (c # cs) n \<longleftrightarrow>
     (\<exists>e. h c = Some e \<and> pn e = p XOR hd (cs @ [n])) \<and> xseg h c cs n"

lemma xseg_append:
  "xseg h p (xs @ ys) n \<longleftrightarrow> xseg h p xs (hd (ys @ [n])) \<and> xseg h (last (p # xs)) ys n"
proof (induction xs arbitrary: p)
  case (Cons x xs)
  have "hd ((xs @ ys) @ [n]) = hd (xs @ [hd (ys @ [n])])" by (cases xs) auto
  with Cons show ?case by auto
qed simp

lemma xseg_cong:
  "(\<And>a. a \<in> set cs \<Longrightarrow> map_option pn (h a) = map_option pn (h' a)) \<Longrightarrow>
   xseg h p cs n \<longleftrightarrow> xseg h' p cs n"
proof (induction cs arbitrary: p)
  case (Cons c cs)
  have "(\<exists>e. h c = Some e \<and> pn e = x) \<longleftrightarrow> (\<exists>e. h' c = Some e \<and> pn e = x)" for x
    using Cons.prems [of c] by (cases "h c"; cases "h' c") auto
  with Cons show ?case by simp
qed simp

text \<open>A ring: the neighbours of the last element are its predecessor and the first element.\<close>

definition xring :: "(addr \<rightharpoonup> 'v listel) \<Rightarrow> addr list \<Rightarrow> bool" where
  "xring h r \<longleftrightarrow> xseg h (last r) r (hd r)"

lemma xring_rotate: "xring h (xs @ ys) \<longleftrightarrow> xring h (ys @ xs)"
proof (cases "xs = [] \<or> ys = []")
  case False
  then show ?thesis
    by (auto simp: xring_def xseg_append hd_append last_append)
qed auto

lemma xring_single [simp]: "xring h [a] \<longleftrightarrow> (\<exists>e. h a = Some e \<and> pn e = NULL)"
  by (simp add: xring_def)

text \<open>A ring of two or more elements, seen from its first element \<open>c\<close> and its last one \<open>p\<close>.\<close>

lemma xring_ends:
  "xring h (c # m @ [p]) \<longleftrightarrow>
     (\<exists>e. h c = Some e \<and> pn e = p XOR hd (m @ [p])) \<and> xseg h c m p \<and>
     (\<exists>e. h p = Some e \<and> pn e = last (c # m) XOR c)"
  by (simp add: xring_def xseg_append)

lemma xring_insert:
  assumes ring: "xring h (c # m @ [p])" and dist: "distinct (a # c # m @ [p])"
    and c: "h c = Some ec" and p: "h p = Some ep"
  shows "xring (h(a \<mapsto> \<lparr>val = v, pn = c XOR p\<rparr>, p \<mapsto> ep\<lparr>pn := (c XOR pn ep) XOR a\<rparr>,
      c \<mapsto> ec\<lparr>pn := a XOR (pn ec XOR p)\<rparr>)) (a # c # m @ [p])" (is "xring ?h _")
proof -
  have pns: "pn ec = p XOR hd (m @ [p])" "pn ep = last (c # m) XOR c" and m: "xseg h c m p"
    using ring c p by (auto simp: xring_ends)
  have "xseg ?h c m p"
    using m dist by (subst xseg_cong [of m _ h]) auto
  moreover have "(c XOR pn ep) XOR a = last (c # m) XOR a" "pn ec XOR p = hd (m @ [p])"
    by (simp_all only: pns xor.commute [of _ c] xor_cancel_left xor_cancel_middle)
  ultimately show ?thesis
    using dist by (auto simp: xring_def xseg_append xor.commute)
qed

lemma xring_remove:
  assumes ring: "xring h (a # n # m @ [p])" and dist: "distinct (a # n # m @ [p])"
    and n: "h n = Some en" and p: "h p = Some ep"
  shows "xring (h(p \<mapsto> ep\<lparr>pn := (a XOR pn ep) XOR n\<rparr>, n \<mapsto> en\<lparr>pn := (pn en XOR a) XOR p\<rparr>, a := None))
      (n # m @ [p])" (is "xring ?h _")
proof -
  have pns: "pn en = a XOR hd (m @ [p])" "pn ep = last (n # m) XOR a" and m: "xseg h n m p"
    using ring n p by (auto simp: xring_def xseg_append hd_append)
  have "xseg ?h n m p"
    using m dist by (subst xseg_cong [of m _ h]) auto
  moreover have "a XOR pn ep = last (n # m)" "pn en XOR a = hd (m @ [p])"
    by (simp_all only: pns xor.commute [of _ a] xor_cancel_left xor_cancel_middle)
  ultimately show ?thesis
    using dist by (auto simp: xring_ends xor.commute)
qed

section \<open>Lists and cursors\<close>

definition list_rep :: "'v rm_list \<Rightarrow> addr list \<Rightarrow> bool" where
  "list_rep l as \<longleftrightarrow>
     distinct (barrier l # as) \<and> NULL \<notin> set (barrier l # as) \<and> dom (heap l) = set (barrier l # as) \<and>
     first l = hd (as @ [barrier l]) \<and> list_size l = int (length as) \<and> list_size l \<le> INT_MAX \<and>
     xring (heap l) (barrier l # as)"

definition holds :: "'v rm_list \<Rightarrow> addr list \<Rightarrow> 'v list \<Rightarrow> bool" where
  "holds l as vs \<longleftrightarrow> map (\<lambda>a. heap l a \<bind> val) as = map Some vs"

definition between :: "'v rm_list \<Rightarrow> list_iter \<Rightarrow> addr list \<Rightarrow> addr list \<Rightarrow> bool" where
  "between l it as bs \<longleftrightarrow>
     it = \<lparr>lst = barrier l, prev = last (barrier l # as), cur = hd (bs @ [barrier l])\<rparr>"

text \<open>The iterator \<open>it\<close> of a list of the values \<open>xs @ ys\<close> stands before the first value of \<open>ys\<close>.\<close>

definition cursor :: "'v rm_list \<Rightarrow> list_iter \<Rightarrow> 'v list \<Rightarrow> 'v list \<Rightarrow> bool" where
  "cursor l it xs ys \<longleftrightarrow>
     (\<exists>as bs. list_rep l (as @ bs) \<and> between l it as bs \<and> holds l as xs \<and> holds l bs ys)"

definition list_of :: "'v rm_list \<Rightarrow> 'v list \<Rightarrow> bool" where
  "list_of l vs \<longleftrightarrow> (\<exists>as. list_rep l as \<and> holds l as vs)"

lemma holds_Nil [simp]: "holds l [] vs \<longleftrightarrow> vs = []" "holds l as [] \<longleftrightarrow> as = []"
  by (simp_all add: holds_def)

lemma holds_Cons:
  "holds l (a # as) vs \<longleftrightarrow> (\<exists>v ws. vs = v # ws \<and> heap l a \<bind> val = Some v \<and> holds l as ws)"
  by (cases vs) (auto simp: holds_def)

lemma holds_append: "holds l as xs \<Longrightarrow> holds l bs ys \<Longrightarrow> holds l (as @ bs) (xs @ ys)"
  by (simp add: holds_def)

lemma holds_appendE:
  assumes "holds l as (xs @ ys)"
  obtains as1 as2 where "as = as1 @ as2" "holds l as1 xs" "holds l as2 ys"
  using assms by (auto simp: holds_def map_eq_append_conv)

lemma holds_frame:
  "\<forall>c. c \<noteq> b \<longrightarrow> heap l' c \<bind> val = heap l c \<bind> val \<Longrightarrow> b \<notin> set as \<Longrightarrow> holds l as vs \<Longrightarrow> holds l' as vs"
  unfolding holds_def by (metis (no_types, lifting) map_eq_conv)

lemma holds_snoc: "holds l as xs \<Longrightarrow> heap l a \<bind> val = Some v \<Longrightarrow> holds l (as @ [a]) (xs @ [v])"
  by (simp add: holds_def)

lemma cursorI:
  "list_rep l (as @ bs) \<Longrightarrow> between l it as bs \<Longrightarrow> holds l as xs \<Longrightarrow> holds l bs ys \<Longrightarrow> cursor l it xs ys"
  unfolding cursor_def by blast

lemma holds_length: "holds l as vs \<Longrightarrow> length as = length vs"
  unfolding holds_def by (metis length_map)

lemma cursor_list_of: "cursor l it xs ys \<Longrightarrow> list_of l (xs @ ys)"
  by (auto simp: cursor_def list_of_def intro: holds_append)

lemma list_rep_load: "list_rep l as \<Longrightarrow> a \<in> set (barrier l # as) \<Longrightarrow> \<exists>e. load l a = Some e \<and> heap l a = Some e"
  unfolding list_rep_def load_def by (metis domD)

text \<open>The ring of a list, turned so that it starts where the iterator stands.\<close>

lemma ring_at:
  assumes "list_rep l (as @ bs)"
  shows "xring (heap l) (bs @ barrier l # as)"
  using assms xring_rotate [of "heap l" "barrier l # as" bs] by (simp add: list_rep_def)

lemma get_next_cursor:
  assumes rep: "list_rep l (as @ b # bs)" and it: "between l it as (b # bs)"
  shows "get_next l it = Some (hd (bs @ [barrier l]))"
proof -
  obtain e where e: "load l b = Some e" "heap l b = Some e"
    using list_rep_load [OF rep, of b] by auto
  have "pn e = last (barrier l # as) XOR hd ((bs @ barrier l # as) @ [b])"
    using ring_at [OF rep] e by (simp add: xring_def)
  then have "pn e XOR last (barrier l # as) = hd (bs @ [barrier l])"
    by (simp add: hd_append)
  with e it show ?thesis by (simp add: get_next_def between_def listel_xor_def del: last.simps)
qed

text \<open>Two elements at least: the ring from the iterator on, by its first and its last element.\<close>

lemma ring_splitE:
  assumes "as @ bs \<noteq> []"
  obtains m where "bs @ x # as = hd (bs @ [x]) # m @ [last (x # as)]"
proof -
  let ?r = "bs @ x # as"
  have "tl ?r \<noteq> []" using assms by (cases bs) auto
  then have "?r = hd ?r # butlast (tl ?r) @ [last (tl ?r)]"
    by (metis append_butlast_last_id list.exhaust_sel tl_Nil)
  moreover have "hd ?r = hd (bs @ [x])" by (cases bs) auto
  moreover have "last (tl ?r) = last (x # as)"
    using \<open>tl ?r \<noteq> []\<close> by (metis last_appendR last_tl list.distinct(1))
  ultimately show thesis using that by metis
qed

lemma first_iff:
  assumes "list_rep l (as @ bs)"
  shows "hd (bs @ [barrier l]) = first l \<longleftrightarrow> as = []"
proof (cases as)
  case (Cons a as')
  have "hd (bs @ [barrier l]) \<in> set (bs @ [barrier l])" by (rule hd_in_set) simp
  then have "hd (bs @ [barrier l]) \<noteq> a" using assms Cons by (auto simp: list_rep_def)
  with assms Cons show ?thesis by (simp add: list_rep_def)
qed (use assms in \<open>simp add: list_rep_def\<close>)

lemma insert_at:
  assumes rep: "list_rep l (as @ bs)" and it: "between l it as bs"
    and new: "new \<noteq> NULL" "heap l new = None" and room: "list_size l < INT_MAX"
  shows "\<exists>l'. list_iter_insert_before new l it v = Some (l', it\<lparr>prev := new\<rparr>) \<and>
     list_rep l' (as @ new # bs) \<and> barrier l' = barrier l \<and> heap l' new \<bind> val = Some v \<and>
     (\<forall>a. a \<noteq> new \<longrightarrow> heap l' a \<bind> val = heap l a \<bind> val)"
proof (cases "as @ bs = []")
  case True
  then obtain e where "heap l (barrier l) = Some e" "pn e = NULL"
    using rep by (auto simp: list_rep_def)
  with True rep it new show ?thesis
    by (auto simp: list_rep_def between_def list_iter_insert_before_def get_next_def load_def
        get_size_def listel_xor_def int_inc_def xring_def)
next
  case False
  let ?p = "last (barrier l # as)" and ?c = "hd (bs @ [barrier l])"
  obtain m where r: "bs @ barrier l # as = ?c # m @ [?p]" using ring_splitE [OF False] .
  have ring: "xring (heap l) (?c # m @ [?p])" using ring_at [OF rep] by (simp only: r)
  have set_r: "set (?c # m @ [?p]) = set (barrier l # as @ bs)" by (simp only: r [symmetric]) auto
  have fresh: "new \<notin> set (barrier l # as @ bs)"
    using rep new(2) unfolding list_rep_def by (metis domIff)
  then have mem: "new \<notin> set (?c # m @ [?p])" "?c \<in> set (barrier l # as @ bs)" "?p \<in> set (barrier l # as @ bs)"
    by (simp_all only: flip: set_r) simp_all
  have "distinct (bs @ barrier l # as)" using rep by (auto simp: list_rep_def)
  with mem(1) have dist: "distinct (new # ?c # m @ [?p])" by (simp only: r distinct.simps(2) simp_thms)
  obtain ec where ec: "heap l ?c = Some ec" "?c \<noteq> NULL"
    using list_rep_load [OF rep mem(2)] by (auto simp: load_def simp del: last.simps split: if_splits)
  obtain ep where ep: "heap l ?p = Some ep" "?p \<noteq> NULL"
    using list_rep_load [OF rep mem(3)] by (auto simp: load_def simp del: last.simps split: if_splits)
  define h where "h = (heap l)(new \<mapsto> \<lparr>val = Some v, pn = ?c XOR ?p\<rparr>,
      ?p \<mapsto> ep\<lparr>pn := (?c XOR pn ep) XOR new\<rparr>, ?c \<mapsto> ec\<lparr>pn := new XOR (pn ec XOR ?p)\<rparr>)"
  define l' where "l' = l\<lparr>heap := h, list_size := list_size l + 1,
      first := (if as = [] then new else first l)\<rparr>"
  have neq: "?c \<noteq> ?p" "new \<noteq> ?c" "new \<noteq> ?p" using dist by (auto simp del: last.simps)
  have pos: "0 < list_size l" 
    using rep False unfolding list_rep_def by (metis length_greater_0_conv of_nat_0_less_iff)
  have "list_iter_insert_before new l it v = Some (l', it\<lparr>prev := new\<rparr>)"
    using it new neq ec ep pos room first_iff [OF rep]
    by (simp add: list_iter_insert_before_def between_def get_next_def get_prev_before_def store_pn_def
        load_def get_size_def listel_xor_def int_inc_def l'_def h_def fun_upd_twist del: last.simps)
  moreover have "xring h (new # ?c # m @ [?p])"
    unfolding h_def by (rule xring_insert [OF ring dist ec(1) ep(1)])
  then have "xring h ((new # bs) @ barrier l # as)" by (simp only: r append_Cons)
  then have "xring h (barrier l # as @ new # bs)" by (subst (asm) xring_rotate) simp
  moreover have "dom h = insert new (dom (heap l))"
    using ec ep by (auto simp: h_def dom_def simp del: last.simps)
  moreover have "h new \<bind> val = Some v" "\<forall>a. a \<noteq> new \<longrightarrow> h a \<bind> val = heap l a \<bind> val"
    using ec ep neq by (auto simp: h_def simp del: last.simps)
  ultimately show ?thesis
    using rep new room fresh
    by (intro exI [of _ l']) (auto simp: list_rep_def l'_def dom_def hd_append simp del: last.simps)
qed

lemma remove_at:
  assumes rep: "list_rep l (as @ b # bs)" and it: "between l it as (b # bs)"
  shows "\<exists>l'. list_iter_remove l it = Some (l', it\<lparr>cur := hd (bs @ [barrier l])\<rparr>) \<and>
     list_rep l' (as @ bs) \<and> barrier l' = barrier l \<and>
     (\<forall>a. a \<noteq> b \<longrightarrow> heap l' a \<bind> val = heap l a \<bind> val)"
proof -
  let ?p = "last (barrier l # as)" and ?n = "hd (bs @ [barrier l])"
  have nxt: "get_next l it = Some ?n" by (rule get_next_cursor [OF rep it])
  have ring: "xring (heap l) (b # bs @ barrier l # as)" using ring_at [OF rep] by simp
  have dist: "distinct (b # bs @ barrier l # as)" using rep by (auto simp: list_rep_def)
  have "?n \<in> set (bs @ [barrier l])" "?p \<in> set (barrier l # as)"
    by (rule hd_in_set, simp, rule last_in_set, simp)
  then have mem: "?n \<in> set (barrier l # as @ b # bs)" "?p \<in> set (barrier l # as @ b # bs)"
      and neq: "?n \<noteq> b" "?p \<noteq> b" using dist by (auto simp del: last.simps)
  obtain en where en: "heap l ?n = Some en" "?n \<noteq> NULL"
    using list_rep_load [OF rep mem(1)] by (auto simp: load_def simp del: last.simps split: if_splits)
  obtain ep where ep: "heap l ?p = Some ep" "?p \<noteq> NULL"
    using list_rep_load [OF rep mem(2)] by (auto simp: load_def simp del: last.simps split: if_splits)
  obtain eb where eb: "heap l b = Some eb" "b \<noteq> NULL"
    using list_rep_load [OF rep, of b] by (auto simp: load_def split: if_splits)
  have b: "b \<noteq> barrier l" using dist by auto
  have pos: "0 < list_size l" "list_size l > INT_MIN" using rep by (auto simp: list_rep_def)
  have fst: "b = first l \<longleftrightarrow> as = []" using first_iff [OF rep] by simp
  define h where "h = (if ?p = ?n
     then (heap l)(?n \<mapsto> en\<lparr>pn := ((((b XOR pn ep) XOR ?n) XOR b) XOR ?p)\<rparr>, b := None)
     else (heap l)(?p \<mapsto> ep\<lparr>pn := (b XOR pn ep) XOR ?n\<rparr>, ?n \<mapsto> en\<lparr>pn := (pn en XOR b) XOR ?p\<rparr>, b := None))"
  define l' where "l' = l\<lparr>heap := h, list_size := list_size l - 1,
      first := (if as = [] then ?n else first l)\<rparr>"
  have "list_iter_remove l it = Some (l', it\<lparr>cur := ?n\<rparr>)"
    using it nxt neq en ep eb pos fst b
    by (auto simp: list_iter_remove_def between_def get_prev_before_def store_pn_def load_def
        get_size_def listel_xor_def free_el_def l'_def h_def simp del: last.simps)
  moreover have "xring h (barrier l # as @ bs)"
  proof (cases "as @ bs = []")
    case True
    then have "pn ep = NULL" "en = ep" using ring en ep by (auto simp: xring_def)
    with True en ep show ?thesis using b by (simp add: h_def)
  next
    case False
    obtain m where r: "bs @ barrier l # as = ?n # m @ [?p]" using ring_splitE [OF False] .
    have "?p \<noteq> ?n" using dist unfolding r by auto
    moreover have "xring ((heap l)(?p \<mapsto> ep\<lparr>pn := (b XOR pn ep) XOR ?n\<rparr>,
        ?n \<mapsto> en\<lparr>pn := (pn en XOR b) XOR ?p\<rparr>, b := None)) (?n # m @ [?p])"
      using ring dist en ep by (intro xring_remove) (simp_all only: r)
    ultimately have "xring h (bs @ barrier l # as)" by (simp only: r h_def if_False)
    then show ?thesis by (subst (asm) xring_rotate) simp
  qed
  moreover have "dom h = dom (heap l) - {b}"
    using en ep by (auto simp: h_def dom_def simp del: last.simps)
  then have "dom h = set (barrier l # as @ bs)"
    using rep dist by (auto simp: list_rep_def)
  moreover have "\<forall>a. a \<noteq> b \<longrightarrow> h a \<bind> val = heap l a \<bind> val"
    using en ep by (auto simp: h_def simp del: last.simps)
  ultimately show ?thesis
    using rep by (intro exI [of _ l']) (auto simp: list_rep_def l'_def hd_append simp del: last.simps)
qed

definition fresh_addr :: "'v rm_list \<Rightarrow> addr \<Rightarrow> bool" where
  "fresh_addr l a \<longleftrightarrow> a \<noteq> NULL \<and> heap l a = None \<and> list_size l < INT_MAX"

lemma cursor_begin: "list_of l vs \<Longrightarrow> cursor l (list_iter_begin l) [] vs"
proof -
  assume "list_of l vs"
  then obtain as where as: "list_rep l as" "holds l as vs" by (auto simp: list_of_def)
  then have "list_rep l ([] @ as) \<and> between l (list_iter_begin l) [] as"
    by (simp add: between_def list_iter_begin_def list_rep_def)
  with as show ?thesis unfolding cursor_def by fastforce
qed

lemma list_iter_end_spec:
  assumes "list_rep l as"
  shows "list_iter_end l = Some \<lparr>lst = barrier l, prev = last (barrier l # as), cur = barrier l\<rparr>"
proof -
  obtain e where e: "load l (barrier l) = Some e" "heap l (barrier l) = Some e"
    using list_rep_load [OF assms, of "barrier l"] by auto
  have "xring (heap l) (barrier l # as)" and "first l = hd (as @ [barrier l])"
    using assms by (simp_all add: list_rep_def)
  then have "pn e = last (barrier l # as) XOR first l"
    using e by (auto simp: xring_def)
  with e show ?thesis by (simp add: list_iter_end_def listel_xor_def)
qed

lemma cursor_end:
  assumes "cursor l it xs ys"
  shows "\<exists>e. list_iter_end l = Some e \<and> (list_iter_equal it e \<longleftrightarrow> ys = [])"
proof -
  obtain as bs where rep: "list_rep l (as @ bs)" "between l it as bs" "holds l bs ys"
    using assms by (auto simp: cursor_def)
  have "barrier l \<notin> set bs" using rep(1) by (simp add: list_rep_def)
  then have "hd (bs @ [barrier l]) = barrier l \<longleftrightarrow> bs = []" by (cases bs) auto
  moreover have "bs = [] \<longleftrightarrow> ys = []" using rep(3) holds_length by force
  ultimately show ?thesis
    using rep(2) by (auto simp: list_iter_end_spec [OF rep(1)] list_iter_equal_def between_def)
qed

text \<open>The first value behind the cursor and its address.\<close>

lemma cursor_ConsE:
  assumes "cursor l it xs (y # ys)"
  obtains as b bs where "list_rep l (as @ b # bs)" "between l it as (b # bs)"
    "holds l as xs" "holds l bs ys" "heap l b \<bind> val = Some y"
proof -
  obtain as bs' where rep: "list_rep l (as @ bs')" "between l it as bs'" "holds l as xs" "holds l bs' (y # ys)"
    using assms by (auto simp: cursor_def)
  then obtain b bs where "bs' = b # bs" by (cases bs') (auto simp: holds_def)
  with rep that [of as b bs] show thesis by (simp add: holds_Cons)
qed

lemma cursor_next:
  assumes "cursor l it xs (y # ys)"
  shows "\<exists>it'. list_iter_move_next l it = Some it' \<and> cursor l it' (xs @ [y]) ys"
proof -
  obtain as b bs where rep: "list_rep l (as @ b # bs)" "between l it as (b # bs)"
      "holds l as xs" "holds l bs ys" "heap l b \<bind> val = Some y"
    using cursor_ConsE [OF assms] .
  have "list_iter_move_next l it = Some \<lparr>lst = barrier l, prev = b, cur = hd (bs @ [barrier l])\<rparr>"
    using get_next_cursor [OF rep(1,2)] rep(2) by (simp add: list_iter_move_next_def between_def)
  moreover have "cursor l \<lparr>lst = barrier l, prev = b, cur = hd (bs @ [barrier l])\<rparr> (xs @ [y]) ys"
    using rep by (intro cursorI [of l "as @ [b]" bs] holds_snoc) (simp_all add: between_def)
  ultimately show ?thesis by blast
qed

lemma cursor_get: "cursor l it xs (y # ys) \<Longrightarrow> list_iter_get l it = Some y"
proof -
  assume "cursor l it xs (y # ys)"
  then obtain as b bs where "list_rep l (as @ b # bs)" "between l it as (b # bs)" "heap l b \<bind> val = Some y"
    by (rule cursor_ConsE)
  then show ?thesis
    using list_rep_load [of l "as @ b # bs" b] by (auto simp: list_iter_get_def between_def)
qed

lemma cursor_set:
  assumes "cursor l it xs (y # ys)"
  shows "\<exists>l'. list_iter_set l it v = Some l' \<and> cursor l' it xs (v # ys) \<and> barrier l' = barrier l"
proof -
  obtain as b bs where rep: "list_rep l (as @ b # bs)" "between l it as (b # bs)"
      "holds l as xs" "holds l bs ys"
    using cursor_ConsE [OF assms] by metis
  obtain e where e: "load l b = Some e" "heap l b = Some e"
    using list_rep_load [OF rep(1), of b] by auto
  let ?h = "(heap l)(b \<mapsto> e\<lparr>val := Some v\<rparr>)"
  have "list_iter_set l it v = Some (l\<lparr>heap := ?h\<rparr>)"
    using e rep(2) by (simp add: list_iter_set_def between_def)
  moreover have "xring ?h r \<longleftrightarrow> xring (heap l) r" for r
    unfolding xring_def by (rule xseg_cong) (simp add: e)
  then have "list_rep (l\<lparr>heap := ?h\<rparr>) (as @ b # bs)"
    using rep(1) e by (auto simp: list_rep_def)
  moreover have "b \<notin> set as" "b \<notin> set bs" using rep(1) by (auto simp: list_rep_def)
  then have "holds (l\<lparr>heap := ?h\<rparr>) as xs" "holds (l\<lparr>heap := ?h\<rparr>) bs ys"
    using rep(3,4) by (auto intro: holds_frame [of b])
  ultimately have "cursor (l\<lparr>heap := ?h\<rparr>) it xs (v # ys)"
    using rep(2) by (intro cursorI [of _ as "b # bs"]) (simp_all add: holds_Cons between_def)
  with \<open>list_iter_set l it v = _\<close> show ?thesis by simp
qed

lemma cursor_insert:
  assumes "cursor l it xs ys" "fresh_addr l a"
  shows "\<exists>l' it'. list_iter_insert_before a l it v = Some (l', it') \<and> cursor l' it' (xs @ [v]) ys \<and>
     barrier l' = barrier l"
proof -
  obtain as bs where rep: "list_rep l (as @ bs)" "between l it as bs" "holds l as xs" "holds l bs ys"
    using assms by (auto simp: cursor_def)
  obtain l' where l': "list_iter_insert_before a l it v = Some (l', it\<lparr>prev := a\<rparr>)"
      "list_rep l' (as @ a # bs)" "barrier l' = barrier l" "heap l' a \<bind> val = Some v"
      "\<forall>c. c \<noteq> a \<longrightarrow> heap l' c \<bind> val = heap l c \<bind> val"
    using insert_at [OF rep(1,2), of a v] assms(2) by (auto simp: fresh_addr_def)
  have "a \<notin> set as" "a \<notin> set bs" using l'(2) by (auto simp: list_rep_def)
  then have "holds l' as xs" "holds l' bs ys"
    using rep(3,4) l'(5) by (auto intro: holds_frame [of a])
  then have "cursor l' (it\<lparr>prev := a\<rparr>) (xs @ [v]) ys"
    using l' rep(2) by (intro cursorI [of l' "as @ [a]" bs] holds_snoc) (simp_all add: between_def)
  with l' show ?thesis by blast
qed

lemma cursor_remove:
  assumes "cursor l it xs (y # ys)"
  shows "\<exists>l' it'. list_iter_remove l it = Some (l', it') \<and> cursor l' it' xs ys \<and> barrier l' = barrier l"
proof -
  obtain as b bs where rep: "list_rep l (as @ b # bs)" "between l it as (b # bs)"
      "holds l as xs" "holds l bs ys"
    using cursor_ConsE [OF assms] by metis
  obtain l' where l': "list_iter_remove l it = Some (l', it\<lparr>cur := hd (bs @ [barrier l])\<rparr>)"
      "list_rep l' (as @ bs)" "barrier l' = barrier l"
      "\<forall>c. c \<noteq> b \<longrightarrow> heap l' c \<bind> val = heap l c \<bind> val"
    using remove_at [OF rep(1,2)] by auto
  have "b \<notin> set as" "b \<notin> set bs" using rep(1) by (auto simp: list_rep_def)
  then have "holds l' as xs" "holds l' bs ys"
    using rep(3,4) l'(4) by (auto intro: holds_frame [of b])
  then have "cursor l' (it\<lparr>cur := hd (bs @ [barrier l])\<rparr>) xs ys"
    using l' rep(2) by (intro cursorI [of l' as bs]) (simp_all add: between_def)
  with l' show ?thesis by blast
qed

section \<open>The interface of the list\<close>

text \<open>
  What a client may rely on: positions are pairs of the values before and behind the iterator.
  \<open>owner\<close> identifies the list, which no operation changes.
\<close>

locale cursor_list =
  fixes lists :: "'l \<Rightarrow> 'v list \<Rightarrow> bool"
    and at :: "'l \<Rightarrow> 'it \<Rightarrow> 'v list \<Rightarrow> 'v list \<Rightarrow> bool"
    and fresh :: "'l \<Rightarrow> 'a \<Rightarrow> bool"
    and owner :: "'l \<Rightarrow> 'o"
    and start :: "'l \<Rightarrow> 'it"
    and finish :: "'l \<Rightarrow> 'it option"
    and same :: "'it \<Rightarrow> 'it \<Rightarrow> bool"
    and next_of :: "'l \<Rightarrow> 'it \<Rightarrow> 'it option"
    and get :: "'l \<Rightarrow> 'it \<Rightarrow> 'v option"
    and put :: "'l \<Rightarrow> 'it \<Rightarrow> 'v \<Rightarrow> 'l option"
    and insert_before :: "'a \<Rightarrow> 'l \<Rightarrow> 'it \<Rightarrow> 'v \<Rightarrow> ('l \<times> 'it) option"
    and remove_at :: "'l \<Rightarrow> 'it \<Rightarrow> ('l \<times> 'it) option"
  assumes at_lists: "at l it xs ys \<Longrightarrow> lists l (xs @ ys)"
    and start: "lists l vs \<Longrightarrow> at l (start l) [] vs"
    and finish: "at l it xs ys \<Longrightarrow> \<exists>e. finish l = Some e \<and> (same it e \<longleftrightarrow> ys = [])"
    and next_of: "at l it xs (y # ys) \<Longrightarrow> \<exists>it'. next_of l it = Some it' \<and> at l it' (xs @ [y]) ys"
    and get: "at l it xs (y # ys) \<Longrightarrow> get l it = Some y"
    and put: "at l it xs (y # ys) \<Longrightarrow>
      \<exists>l'. put l it v = Some l' \<and> at l' it xs (v # ys) \<and> owner l' = owner l"
    and insert_before: "at l it xs ys \<Longrightarrow> fresh l a \<Longrightarrow>
      \<exists>l' it'. insert_before a l it v = Some (l', it') \<and> at l' it' (xs @ [v]) ys \<and> owner l' = owner l"
    and remove_at: "at l it xs (y # ys) \<Longrightarrow>
      \<exists>l' it'. remove_at l it = Some (l', it') \<and> at l' it' xs ys \<and> owner l' = owner l"
begin

text \<open>
  A loop that removes at a fixed iterator until the end empties the rest of the list; in
  particular it ends.
\<close>

lemma drain:
  assumes loop: "\<And>l it. loop l it = do {
      e \<leftarrow> finish l;
      if same it e then Some l else do { (l', it') \<leftarrow> remove_at l it; loop l' it' } }"
  shows "at l it xs ys \<Longrightarrow> \<exists>l'. loop l it = Some l' \<and> lists l' xs \<and> owner l' = owner l"
proof (induction ys arbitrary: l it)
  case Nil
  then show ?case
    using finish [OF Nil] at_lists [OF Nil] by (subst loop) auto
next
  case (Cons y ys)
  obtain l1 it1 where rm: "remove_at l it = Some (l1, it1)" "at l1 it1 xs ys" "owner l1 = owner l"
    using remove_at [OF Cons.prems] by blast
  from Cons.IH [OF rm(2)] obtain l' where "loop l1 it1 = Some l'" "lists l' xs" "owner l' = owner l"
    using rm(3) by auto
  then show ?case
    using finish [OF Cons.prems] rm(1) by (subst loop) auto
qed

text \<open>
  A loop that moves on until the value under the iterator satisfies \<open>P\<close> stops at the first such
  value, or at the end if there is none; \<open>r\<close> is the last value it has read.
\<close>

lemma search:
  assumes loop: "\<And>it r. loop it r = do {
      e \<leftarrow> finish l;
      if same it e then Some (it, r)
      else do {
        v \<leftarrow> get l it;
        hit \<leftarrow> P v;
        if hit then Some (it, Some v) else do { it' \<leftarrow> next_of l it; loop it' (Some v) }
      } }"
    and P: "\<forall>v \<in> set ys. P v = Some (Q v)"
  shows "at l it xs ys \<Longrightarrow> \<exists>it'.
     loop it r = Some (it', (case dropWhile (\<lambda>v. \<not> Q v) ys of
        [] \<Rightarrow> if ys = [] then r else Some (last ys) | v # _ \<Rightarrow> Some v)) \<and>
     at l it' (xs @ takeWhile (\<lambda>v. \<not> Q v) ys) (dropWhile (\<lambda>v. \<not> Q v) ys)"
  using P
proof (induction ys arbitrary: it xs r)
  case Nil
  then show ?case using finish [OF Nil(1)] by (subst loop) auto
next
  case (Cons y ys)
  obtain e where e: "finish l = Some e" "\<not> same it e" using finish [OF Cons.prems(1)] by auto
  obtain it1 where it1: "next_of l it = Some it1" "at l it1 (xs @ [y]) ys"
    using next_of [OF Cons.prems(1)] by blast
  show ?case
  proof (cases "Q y")
    case True
    with e get [OF Cons.prems(1)] Cons.prems show ?thesis by (subst loop) auto
  next
    case False
    from Cons.IH [OF it1(2), of "Some y"] Cons.prems(2) obtain it' where
      "loop it1 (Some y) = Some (it', (case dropWhile (\<lambda>v. \<not> Q v) ys of
         [] \<Rightarrow> if ys = [] then Some y else Some (last ys) | v # _ \<Rightarrow> Some v))"
      "at l it' ((xs @ [y]) @ takeWhile (\<lambda>v. \<not> Q v) ys) (dropWhile (\<lambda>v. \<not> Q v) ys)" by auto
    with False e it1 get [OF Cons.prems(1)] Cons.prems(2) show ?thesis
      by (subst loop) (auto simp del: dropWhile_eq_Nil_conv split: list.splits)
  qed
qed

end

interpretation xl: cursor_list list_of cursor fresh_addr barrier list_iter_begin list_iter_end
  list_iter_equal list_iter_move_next list_iter_get list_iter_set list_iter_insert_before list_iter_remove
  by unfold_locales
    (blast intro: cursor_list_of cursor_begin cursor_end cursor_next cursor_get cursor_set
      cursor_insert cursor_remove)+

section \<open>Properties\<close>

lemma list_init_list_of:
  assumes "heap l = [barrier l \<mapsto> e]" "barrier l \<noteq> NULL"
  obtains l' where "list_init l = Some l'" "list_of l' []" "barrier l' = barrier l"
proof -
  define l' where "l' = l\<lparr>heap := [barrier l \<mapsto> e\<lparr>pn := NULL\<rparr>], first := barrier l, list_size := 0\<rparr>"
  have "list_init l = Some l'"
    using assms by (simp add: list_init_def store_pn_def load_def l'_def)
  moreover have "list_of l' []" using assms(2) by (simp add: list_of_def list_rep_def l'_def)
  ultimately show thesis using that by (simp add: l'_def)
qed

text \<open>
  C35: insertion. At any position of a list that holds \<open>xs @ ys\<close>, with a new element granted by
  \<open>malloc\<close>, the insertion relinks the neighbours without touching any other element: afterwards
  the list holds \<open>xs @ [v] @ ys\<close> and the iterator still stands before \<open>ys\<close>.
\<close>

theorem list_insert_correct:
  assumes "cursor l it xs ys" "fresh_addr l a"
  shows "\<exists>l' it'. list_iter_insert_before a l it v = Some (l', it') \<and>
     cursor l' it' (xs @ [v]) ys \<and> list_of l' (xs @ v # ys)"
  using xl.insert_before [OF assms, of v] xl.at_lists by fastforce

text \<open>
  C36: removal. At any position but the end, the element under the iterator is unlinked and
  freed; the iterator then stands before the next value. It holds for the only element of a
  list too, where both neighbours are the barrier.
\<close>

theorem list_remove_correct:
  assumes "cursor l it xs (y # ys)"
  shows "\<exists>l' it'. list_iter_remove l it = Some (l', it') \<and> cursor l' it' xs ys \<and> list_of l' (xs @ ys)"
  using xl.remove_at [OF assms] xl.at_lists by fastforce

text \<open>
  C9: traversal. From \<open>list_iter_begin\<close> the \<open>k\<close>-th step reads the \<open>k\<close>-th value, the iterator
  equals \<open>list_iter_end\<close> after exactly as many steps as the list has values, and no step faults.
\<close>

fun moves :: "'v rm_list \<Rightarrow> nat \<Rightarrow> list_iter \<Rightarrow> list_iter option" where
  "moves l 0 it = Some it"
| "moves l (Suc k) it = do { it' \<leftarrow> list_iter_move_next l it; moves l k it' }"

lemma moves_cursor:
  "cursor l it xs ys \<Longrightarrow> k \<le> length ys \<Longrightarrow>
   \<exists>it'. moves l k it = Some it' \<and> cursor l it' (xs @ take k ys) (drop k ys)"
proof (induction k arbitrary: it xs ys)
  case (Suc k)
  then obtain y zs where ys: "ys = y # zs" by (cases ys) auto
  obtain it1 where it1: "list_iter_move_next l it = Some it1" "cursor l it1 (xs @ [y]) zs"
    using xl.next_of [of l it xs y zs] Suc.prems(1) unfolding ys by blast
  with Suc.IH [OF it1(2)] Suc.prems(2) ys show ?case by auto
qed simp

theorem list_traversal:
  assumes "list_of l vs" "k \<le> length vs"
  shows "\<exists>it e. moves l k (list_iter_begin l) = Some it \<and> list_iter_end l = Some e \<and>
     (if k < length vs then list_iter_get l it = Some (vs ! k) \<and> \<not> list_iter_equal it e
      else list_iter_equal it e)"
proof -
  obtain it where it: "moves l k (list_iter_begin l) = Some it" "cursor l it (take k vs) (drop k vs)"
    using moves_cursor [OF xl.start [OF assms(1)] assms(2)] by auto
  show ?thesis
  proof (cases "k < length vs")
    case True
    then have "drop k vs = vs ! k # drop (Suc k) vs" by (simp add: Cons_nth_drop_Suc)
    with True it xl.finish [OF it(2)] xl.get [of l it "take k vs" "vs ! k"] show ?thesis by auto
  next
    case False
    with it xl.finish [OF it(2)] show ?thesis by auto
  qed
qed

text \<open>
  \<open>list_destroy\<close> ends on every list, and when it returns every malloc'ed element has been
  freed: only the barrier is left in the heap, linked to itself.
\<close>

theorem list_destroy_frees_all:
  assumes "list_of l vs"
  shows "\<exists>l'. list_destroy l = Some l' \<and> list_of l' [] \<and> dom (heap l') = {barrier l}"
proof -
  obtain l' where l': "list_destroy l = Some l'" "list_of l' []" "barrier l' = barrier l"
    using xl.drain [OF destroy_loop.simps xl.start [OF assms]] by (auto simp: list_destroy_def)
  then have "dom (heap l') = {barrier l}" by (auto simp: list_of_def list_rep_def)
  with l' show ?thesis by blast
qed

section \<open>A concrete list\<close>

definition demo_two :: "nat rm_list" where
  "demo_two = \<lparr>heap = [8 \<mapsto> \<lparr>val = None, pn = 16 XOR 24\<rparr>, 16 \<mapsto> \<lparr>val = Some 1, pn = 8 XOR 24\<rparr>,
       24 \<mapsto> \<lparr>val = Some 2, pn = 16 XOR 8\<rparr>], barrier = 8, first = 16, list_size = 2\<rparr>"

definition demo_iter :: list_iter where
  "demo_iter = \<lparr>lst = 8, prev = 16, cur = 24\<rparr>"

lemma demo_two_rep: "list_rep demo_two [16, 24]" "holds demo_two [16, 24] [1, 2]"
  by (auto simp: list_rep_def demo_two_def xring_def holds_def xor.commute)

lemma demo_two_list: "list_of demo_two [1, 2]"
  using demo_two_rep unfolding list_of_def by blast

lemma demo_two_cursor: "cursor demo_two demo_iter [1] [2]"
  using demo_two_rep unfolding cursor_def
  by (intro exI [of _ "[16]"] exI [of _ "[24]"]) (simp add: between_def demo_iter_def demo_two_def holds_def)

theorem list_insert_correct_witness:
  "\<exists>l' it'. list_iter_insert_before 32 demo_two demo_iter 7 = Some (l', it') \<and>
     cursor l' it' [1, 7] [2] \<and> list_of l' [1, 7, 2]"
proof -
  have "fresh_addr demo_two 32" by (simp add: fresh_addr_def demo_two_def)
  from list_insert_correct [OF demo_two_cursor this, of 7] show ?thesis by simp
qed

theorem list_remove_correct_witness:
  "\<exists>l' it'. list_iter_remove demo_two demo_iter = Some (l', it') \<and> cursor l' it' [1] [] \<and> list_of l' [1]"
  using list_remove_correct [OF demo_two_cursor] by simp

theorem list_traversal_witness:
  "\<exists>it e. moves demo_two 1 (list_iter_begin demo_two) = Some it \<and> list_iter_end demo_two = Some e \<and>
     list_iter_get demo_two it = Some 2 \<and> \<not> list_iter_equal it e"
  using list_traversal [OF demo_two_list, of 1] by simp

theorem list_destroy_frees_all_witness:
  "\<exists>l'. list_destroy demo_two = Some l' \<and> list_of l' [] \<and> dom (heap l') = {8}"
  using list_destroy_frees_all [OF demo_two_list] by (simp add: demo_two_def)

end
