(* ===== verification/CString.thy ===== *)
theory CString
  imports Prelude
begin

text \<open>
  C strings are values of type \<open>string\<close> (bytes before the terminating NUL). This theory models
  the decimal conversions of the standard library that the sources use, \<open>sprintf("%d")\<close> and
  \<open>strtol(.., 10)\<close>, the helpers of \<^verbatim>\<open>lab6/control_node.c\<close> built on them, and the fact that
  all ids travel through messages unharmed: parsing a printed \<open>int\<close> gives it back.
\<close>

section \<open>Decimal printing\<close>

definition digit_char :: "nat \<Rightarrow> char" where
  "digit_char d = char_of (48 + d)"

definition char_digit :: "char \<Rightarrow> nat" where
  "char_digit c = of_char c - 48"

definition isdigit :: "char \<Rightarrow> bool" where
  "isdigit c \<longleftrightarrow> 48 \<le> (of_char c :: nat) \<and> (of_char c :: nat) \<le> 57"

definition isspace :: "char \<Rightarrow> bool" where
  "isspace c \<longleftrightarrow> (of_char c :: nat) = 32 \<or> (9 \<le> (of_char c :: nat) \<and> (of_char c :: nat) \<le> 13)"

fun nat_to_dec :: "nat \<Rightarrow> string" where
  "nat_to_dec n = (if n < 10 then [digit_char n] else nat_to_dec (n div 10) @ [digit_char (n mod 10)])"

declare nat_to_dec.simps [simp del]

text \<open>\<open>sprintf(res, "%d", a)\<close>.\<close>

definition int_to_str :: "int \<Rightarrow> string" where
  "int_to_str a = (if a < 0 then CHR ''-'' # nat_to_dec (nat (- a)) else nat_to_dec (nat a))"

section \<open>Decimal parsing\<close>

definition digits_value :: "string \<Rightarrow> nat" where
  "digits_value s = foldl (\<lambda>v c. 10 * v + char_digit c) 0 s"

definition clamp_long :: "int \<Rightarrow> int" where
  "clamp_long n = max (- (2 ^ 63)) (min (2 ^ 63 - 1) n)"

text \<open>\<open>strtol(s, NULL, 10)\<close>: leading space, an optional sign, the longest run of digits.\<close>

definition strtol :: "string \<Rightarrow> int" where
  "strtol s =
    (let t = dropWhile isspace s in
     case t of
       [] \<Rightarrow> 0
     | c # u \<Rightarrow>
         if c = CHR ''-'' then clamp_long (- int (digits_value (takeWhile isdigit u)))
         else if c = CHR ''+'' then clamp_long (int (digits_value (takeWhile isdigit u)))
         else clamp_long (int (digits_value (takeWhile isdigit t))))"

text \<open>The conversion of a \<open>long\<close> to an \<open>int\<close> keeps the low 32 bits.\<close>

definition long_to_int :: "int \<Rightarrow> int" where
  "long_to_int n = signed_take_bit 31 n"

section \<open>Helpers of the control node\<close>

definition str_copy :: "string option \<Rightarrow> string option" where
  "str_copy s = (case s of None \<Rightarrow> None | Some t \<Rightarrow> Some (take (length t) t))"

text \<open>\<open>gen_address\<close> with the current \<open>address_shift\<close>: the bind address and the connect address.\<close>

definition gen_address :: "int \<Rightarrow> (string \<times> string \<times> int) option" where
  "gen_address shift =
    (let b = int_to_str shift in
     do { shift' \<leftarrow> int_inc shift; Some (''tcp://*:'' @ b, ''tcp://localhost:'' @ b, shift') })"

section \<open>Lemmas\<close>

lemma char_digit_char [simp]: "d < 10 \<Longrightarrow> char_digit (digit_char d) = d"
  by (simp add: char_digit_def digit_char_def)

lemma isdigit_digit_char [simp]: "d < 10 \<Longrightarrow> isdigit (digit_char d)"
  by (simp add: isdigit_def digit_char_def)

lemma nat_to_dec_digits: "c \<in> set (nat_to_dec n) \<Longrightarrow> isdigit c"
proof (induction n rule: nat_to_dec.induct)
  case (1 n)
  show ?case
  proof (cases "n < 10")
    case True
    with 1(2) show ?thesis by (subst (asm) nat_to_dec.simps) simp
  next
    case False
    with 1(2) have "c \<in> set (nat_to_dec (n div 10)) \<or> c = digit_char (n mod 10)"
      by (subst (asm) nat_to_dec.simps) auto
    with 1(1) False show ?thesis by auto
  qed
qed

lemma nat_to_dec_nonempty [simp]: "nat_to_dec n \<noteq> []"
  by (subst nat_to_dec.simps) simp

lemma digits_value_snoc: "digits_value (s @ [c]) = 10 * digits_value s + char_digit c"
  by (simp add: digits_value_def)

lemma digits_value_nat_to_dec [simp]: "digits_value (nat_to_dec n) = n"
proof (induction n rule: nat_to_dec.induct)
  case (1 n)
  show ?case
  proof (cases "n < 10")
    case True
    then show ?thesis by (subst nat_to_dec.simps) (simp add: digits_value_def)
  next
    case False
    with 1 show ?thesis by (subst nat_to_dec.simps) (simp add: digits_value_snoc)
  qed
qed

lemma takeWhile_dec [simp]: "takeWhile isdigit (nat_to_dec n) = nat_to_dec n"
  by (simp add: nat_to_dec_digits)

lemma isdigit_not_space: "isdigit c \<Longrightarrow> \<not> isspace c \<and> c \<noteq> CHR ''-'' \<and> c \<noteq> CHR ''+''"
  by (intro conjI notI) (simp_all add: isdigit_def isspace_def)

lemma nat_to_dec_Cons: "\<exists>c u. nat_to_dec n = c # u \<and> \<not> isspace c \<and> c \<noteq> CHR ''-'' \<and> c \<noteq> CHR ''+''"
  using nat_to_dec_digits [of _ n] isdigit_not_space
  by (metis list.exhaust list.set_intros(1) nat_to_dec_nonempty)

lemma clamp_long_id: "- (2 ^ 63) \<le> n \<Longrightarrow> n < 2 ^ 63 \<Longrightarrow> clamp_long n = n"
  by (simp add: clamp_long_def)

lemma strtol_nat_to_dec: "strtol (nat_to_dec n) = clamp_long (int n)"
proof -
  obtain c u where "nat_to_dec n = c # u" "\<not> isspace c" "c \<noteq> CHR ''-''" "c \<noteq> CHR ''+''"
    using nat_to_dec_Cons by blast
  then show ?thesis
    using takeWhile_dec [of n] digits_value_nat_to_dec [of n] by (simp add: strtol_def)
qed

lemma strtol_neg_nat_to_dec: "strtol (CHR ''-'' # nat_to_dec n) = clamp_long (- int n)"
  by (simp add: strtol_def isspace_def)

lemma strtol_int_to_str: "is_int n \<Longrightarrow> strtol (int_to_str n) = n"
  by (auto simp: int_to_str_def is_int_def strtol_nat_to_dec strtol_neg_nat_to_dec clamp_long_id)

lemma int_to_str_inject [simp]:
  "is_int m \<Longrightarrow> is_int n \<Longrightarrow> int_to_str m = int_to_str n \<longleftrightarrow> m = n"
  by (metis strtol_int_to_str)

lemma long_to_int_id: "is_int n \<Longrightarrow> long_to_int n = n"
  by (simp add: long_to_int_def is_int_def signed_take_bit_int_eq_self_iff)

lemma length_nat_to_dec: "n < 10 ^ k \<Longrightarrow> 0 < k \<Longrightarrow> length (nat_to_dec n) \<le> k"
proof (induction k arbitrary: n)
  case (Suc k)
  show ?case
  proof (cases "n < 10 \<or> k = 0")
    case True
    with Suc.prems show ?thesis by (subst nat_to_dec.simps) auto
  next
    case False
    with Suc.prems have "n div 10 < 10 ^ k" by (simp add: less_mult_imp_div_less mult.commute)
    with Suc.IH False have "length (nat_to_dec (n div 10)) \<le> k" by simp
    with False show ?thesis by (subst nat_to_dec.simps) simp
  qed
qed simp

lemma length_int_to_str: "is_int n \<Longrightarrow> length (int_to_str n) \<le> 11"
proof -
  assume "is_int n"
  then have "nat \<bar>n\<bar> < 10 ^ 10" by (auto simp: is_int_def)
  then have "length (nat_to_dec (nat \<bar>n\<bar>)) \<le> 10" by (rule length_nat_to_dec) simp
  then show ?thesis by (auto simp: int_to_str_def)
qed

section \<open>Properties\<close>

text \<open>
  Ids in messages. Every \<open>int\<close> is printed in at most 11 characters, so \<open>int_to_str\<close> stays
  inside its 12-byte buffer, and parsing the printed text gives the same \<open>int\<close> back.
\<close>

theorem int_to_str_roundtrip:
  assumes "is_int n"
  shows "long_to_int (strtol (int_to_str n)) = n \<and> length (int_to_str n) + 1 \<le> 12"
  using assms by (simp add: strtol_int_to_str long_to_int_id length_int_to_str)

theorem int_to_str_roundtrip_witness:
  "long_to_int (strtol (int_to_str (-2147483648))) = -2147483648 \<and>
   length (int_to_str (-2147483648)) + 1 \<le> 12"
  by (rule int_to_str_roundtrip) (simp add: is_int_def)

text \<open>
  Addresses. Both addresses of \<open>gen_address\<close> fit, with their NUL, into the 32-byte buffers
  the control node allocates, and two calls never return the same address.
\<close>

theorem gen_address_fits_and_fresh:
  assumes "is_int s1" "is_int s2" "s1 < INT_MAX" "s2 < INT_MAX"
  shows "\<exists>rep1 req1 rep2 req2.
     gen_address s1 = Some (rep1, req1, s1 + 1) \<and> gen_address s2 = Some (rep2, req2, s2 + 1) \<and>
     length rep1 + 1 \<le> 32 \<and> length req1 + 1 \<le> 32 \<and> (s1 \<noteq> s2 \<longrightarrow> rep1 \<noteq> rep2 \<and> req1 \<noteq> req2)"
  using assms length_int_to_str [of s1] length_int_to_str [of s2] by (simp add: gen_address_def int_inc_Some Let_def)

theorem gen_address_fits_and_fresh_witness:
  "\<exists>rep1 req1 rep2 req2.
     gen_address 5000 = Some (rep1, req1, 5001) \<and> gen_address 5001 = Some (rep2, req2, 5002) \<and>
     req1 \<noteq> req2"
  using gen_address_fits_and_fresh [of 5000 5001] by (auto simp: is_int_def)

end
