(* ===== verification/HexCodec.thy ===== *)
theory HexCodec
  imports Prelude
begin

text \<open>
  The 128-bit hexadecimal codec of lab 3, \<^verbatim>\<open>lab3/string_utils.c\<close>: digit conversions, the
  parser \<open>hex_to_int128\<close> over the 32 characters at a pointer and the printer \<open>int128_to_hex\<close> into
  a buffer. The parser is shown equal to the positional value of its digits, and the two to be
  inverse to each other; the printer's last store is shown to miss the buffer that the header
  declares for it.
\<close>

section \<open>The code\<close>

abbreviation MAX_128_HEX_BYTES :: nat where "MAX_128_HEX_BYTES \<equiv> 32"

text \<open>Code points; a \<open>char\<close> from 128 on is negative in the sources and fails every test alike.\<close>

definition hex_to_int :: "char \<Rightarrow> u128" where
  "hex_to_int c =
    (let k = (of_char c :: nat) in
     if 48 \<le> k \<and> k \<le> 57 then of_nat (k - 48)
     else if 65 \<le> k \<and> k \<le> 70 then of_nat (10 + k - 65)
     else 0)"

definition int_to_hex :: "u128 \<Rightarrow> char" where
  "int_to_hex c =
    (if 0 \<le> c \<and> c < 10 then char_of (48 + unat c)
     else if c > 9 \<and> c < 16 then char_of (65 + unat c - 10)
     else CHR ''0'')"

text \<open>The loop reads one character per round; reading past the end of the memory faults.\<close>

fun hex_loop :: "nat \<Rightarrow> u128 \<Rightarrow> string \<Rightarrow> (u128 \<times> string) option" where
  "hex_loop 0 number st = Some (number, st)"
| "hex_loop (Suc k) number [] = None"
| "hex_loop (Suc k) number (c # st) = hex_loop k (push_bit 4 (number OR hex_to_int c)) st"

definition hex_to_int128 :: "string \<Rightarrow> u128 option" where
  "hex_to_int128 st = do {
     (number, rest) \<leftarrow> hex_loop (MAX_128_HEX_BYTES - 1) 0 st;
     case rest of [] \<Rightarrow> None | c # _ \<Rightarrow> Some (number OR hex_to_int c)
   }"

text \<open>Rounds \<open>i, i + 1, ..\<close> of the printing loop, \<open>k\<close> of them.\<close>

fun to_hex_loop :: "nat \<Rightarrow> nat \<Rightarrow> u128 \<Rightarrow> char mem \<Rightarrow> char mem option" where
  "to_hex_loop 0 i number st = Some st"
| "to_hex_loop (Suc k) i number st = do {
     st' \<leftarrow> mem_set st (MAX_128_HEX_BYTES - i) (int_to_hex (number AND 15));
     to_hex_loop k (Suc i) (drop_bit 4 number) st'
   }"

definition int128_to_hex :: "u128 \<Rightarrow> char mem \<Rightarrow> char mem option" where
  "int128_to_hex number st = do {
     st' \<leftarrow> to_hex_loop MAX_128_HEX_BYTES 1 number st;
     mem_set st' (MAX_128_HEX_BYTES + 1) (CHR 0x00)
   }"

section \<open>Digits\<close>

definition digit_of :: "char \<Rightarrow> nat" where
  "digit_of c = unat (hex_to_int c)"

definition is_hex :: "char \<Rightarrow> bool" where
  "is_hex c \<longleftrightarrow> (48 \<le> (of_char c :: nat) \<and> (of_char c :: nat) \<le> 57) \<or>
     (65 \<le> (of_char c :: nat) \<and> (of_char c :: nat) \<le> 70)"

definition hex_value :: "string \<Rightarrow> nat" where
  "hex_value s = foldl (\<lambda>v c. 16 * v + digit_of c) 0 s"

definition hex_digits :: "u128 \<Rightarrow> string" where
  "hex_digits n = map (\<lambda>j. int_to_hex (drop_bit (4 * (31 - j)) n AND 15)) [0..<32]"

lemma unat_small [simp]: "m < 16 \<Longrightarrow> unat (of_nat m :: u128) = m"
  by (simp add: unat_of_nat)

lemma digit_of_eq:
  "digit_of c = (let k = (of_char c :: nat) in
     if 48 \<le> k \<and> k \<le> 57 then k - 48 else if 65 \<le> k \<and> k \<le> 70 then 10 + k - 65 else 0)"
  by (auto simp: digit_of_def hex_to_int_def Let_def simp del: of_nat_diff of_nat_add intro!: unat_small)

lemma digit_of_less [simp]: "digit_of c < 16"
  by (auto simp: digit_of_eq Let_def)

lemma hex_to_int_digit: "hex_to_int c = of_nat (digit_of c)"
  by (simp add: digit_of_def)

lemma of_char_int_to_hex:
  assumes "x < 16"
  shows "(of_char (int_to_hex x) :: nat) = (if unat x < 10 then 48 + unat x else 55 + unat x)"
proof -
  have "unat x < 16" using assms by (simp add: word_less_nat_alt)
  moreover have "x < 10 \<longleftrightarrow> unat x < 10" "x > 9 \<longleftrightarrow> 9 < unat x" by (simp_all add: word_less_nat_alt)
  ultimately show ?thesis using assms by (simp add: int_to_hex_def)
qed

lemma digit_of_int_to_hex [simp]: "x < 16 \<Longrightarrow> digit_of (int_to_hex x) = unat x"
  using of_char_int_to_hex [of x] by (simp add: digit_of_eq word_less_nat_alt Let_def)

lemma is_hex_int_to_hex [simp]: "x < 16 \<Longrightarrow> is_hex (int_to_hex x)"
  using of_char_int_to_hex [of x] by (simp add: is_hex_def word_less_nat_alt)

lemma digit_of_inject:
  assumes "is_hex c" "is_hex d" "digit_of c = digit_of d"
  shows "c = d"
proof -
  obtain a b where ab: "(of_char c :: nat) = a" "(of_char d :: nat) = b" by blast
  have "a = b" using assms unfolding is_hex_def digit_of_eq Let_def ab by (auto split: if_splits)
  with ab have "(of_char c :: nat) = of_char d" by simp
  then show ?thesis by simp
qed

section \<open>The parser\<close>

lemma low_nibble_or:
  fixes n h :: u128
  assumes "h < 16"
  shows "(push_bit 4 n) OR h = 16 * n + h"
proof -
  have "\<not> bit h i" if "4 \<le> i" for i
  proof -
    have "unat h < 16" using assms by (simp add: word_less_nat_alt)
    also have "16 \<le> (2::nat) ^ i" using power_increasing [OF that, of "2::nat"] by simp
    finally have "\<not> bit (unat h) i" by (simp add: bit_iff_odd)
    then show ?thesis by (auto simp: bit_unsigned_iff dest: bit_imp_le_length)
  qed
  then have "push_bit 4 n + h = push_bit 4 n OR h"
    by (intro disjunctive_add) (auto simp: bit_push_bit_iff not_le)
  then show ?thesis by (simp add: push_bit_eq_mult mult.commute)
qed

lemma hex_value_snoc: "hex_value (s @ [c]) = 16 * hex_value s + digit_of c"
  by (simp add: hex_value_def)

definition word_value :: "u128 \<Rightarrow> string \<Rightarrow> u128" where
  "word_value v s = foldl (\<lambda>v c. 16 * v + hex_to_int c) v s"

lemma word_value_of_nat: "word_value (of_nat v) s = of_nat (foldl (\<lambda>v c. 16 * v + digit_of c) v s)"
proof (induction s arbitrary: v)
  case (Cons c s)
  from Cons [of "16 * v + digit_of c"] show ?case by (simp add: word_value_def hex_to_int_digit)
qed (simp add: word_value_def)

lemma word_value_hex_value: "word_value 0 s = of_nat (hex_value s)"
  using word_value_of_nat [of 0 s] by (simp add: hex_value_def)

lemma hex_loop_spec:
  "hex_loop k (push_bit 4 m) st =
    (if k \<le> length st then Some (push_bit 4 (word_value m (take k st)), drop k st) else None)"
proof (induction k arbitrary: m st)
  case (Suc k)
  show ?case
  proof (cases st)
    case (Cons c st')
    have "hex_to_int c < 16"
      using digit_of_less [of c] by (simp add: digit_of_def word_less_nat_alt)
    then have "push_bit 4 m OR hex_to_int c = 16 * m + hex_to_int c" by (rule low_nibble_or)
    then show ?thesis using Suc [of "16 * m + hex_to_int c" st'] Cons by (simp add: word_value_def)
  qed simp
qed (simp add: word_value_def)

lemma hex_to_int128_spec:
  "hex_to_int128 st = (if 32 \<le> length st then Some (of_nat (hex_value (take 32 st))) else None)"
proof (cases "32 \<le> length st")
  case True
  then obtain c rest where rest: "drop 31 st = c # rest" by (cases "drop 31 st") auto
  have take: "take 32 st = take 31 st @ [c]"
    using rest True take_Suc_conv_app_nth [of 31 st] hd_drop_conv_nth [of 31 st] by simp
  have "hex_to_int c < 16"
    using digit_of_less [of c] by (simp add: digit_of_def word_less_nat_alt)
  then have "push_bit 4 x OR hex_to_int c = 16 * x + hex_to_int c" for x by (rule low_nibble_or)
  then show ?thesis
    using True hex_loop_spec [of 31 0 st] rest
    by (simp add: hex_to_int128_def take word_value_hex_value hex_value_snoc hex_to_int_digit)
next
  case False
  then have "length st \<le> 31" by simp
  then show ?thesis
    using False hex_loop_spec [of 31 0 st] by (simp add: hex_to_int128_def)
qed

lemma hex_value_bound: "hex_value s < 16 ^ length s"
proof (induction s rule: rev_induct)
  case (snoc c s)
  have "16 * hex_value s + digit_of c < 16 * 16 ^ length s"
    using snoc digit_of_less [of c] by linarith
  then show ?case by (simp add: hex_value_snoc)
qed (simp add: hex_value_def)

lemma hex_value_inject:
  "length s = length t \<Longrightarrow> list_all is_hex s \<Longrightarrow> list_all is_hex t \<Longrightarrow> hex_value s = hex_value t \<Longrightarrow> s = t"
proof (induction s arbitrary: t rule: rev_induct)
  case (snoc c s)
  then obtain u d where t: "t = u @ [d]" by (cases t rule: rev_cases) auto
  have "16 * hex_value s + digit_of c = 16 * hex_value u + digit_of d"
    using snoc.prems by (simp add: t hex_value_snoc)
  then have "hex_value s = hex_value u" "digit_of c = digit_of d"
    using digit_of_less [of c] digit_of_less [of d] by presburger+
  with snoc t show ?case by (auto dest: digit_of_inject)
qed simp

section \<open>The printer\<close>

lemma nibble_less [simp]: "(x::u128) AND 15 < 16"
  using word_and_le1 [of x 15] by (simp add: word_le_nat_alt word_less_nat_alt)

lemma unat_nibble: "unat ((drop_bit (4 * m) n :: u128) AND 15) = (unat n div 16 ^ m) mod 16"
proof -
  have "unat n < 2 ^ 128" using unsigned_less [of n] by simp
  then have full: "take_bit 128 (unat n) = unat n" by (simp add: take_bit_nat_eq_self)
  have "(15::u128) = mask 4" by (simp add: mask_eq_exp_minus_1)
  then have "drop_bit (4 * m) n AND 15 = take_bit 4 (drop_bit (4 * m) n)"
    by (metis take_bit_eq_mask)
  then have "unat (drop_bit (4 * m) n AND 15) = take_bit 4 (drop_bit (4 * m) (unat n))"
    by (simp add: unsigned_take_bit_eq unsigned_drop_bit_eq full)
  also have "\<dots> = (unat n div 2 ^ (4 * m)) mod 2 ^ 4"
    by (simp add: take_bit_eq_mod drop_bit_eq_div)
  also have "(2::nat) ^ (4 * m) = 16 ^ m" by (simp add: power_mult)
  finally show ?thesis by simp
qed

lemma hex_value_digits: "hex_value (hex_digits n) = unat n"
proof -
  have "foldl (\<lambda>v c. 16 * v + digit_of c) 0 (map (\<lambda>j. int_to_hex (drop_bit (4 * (31 - j)) n AND 15)) [0..<k])
      = unat n div 16 ^ (32 - k)" if "k \<le> 32" for k
    using that
  proof (induction k)
    case 0
    have "unat n < 2 ^ 128" using unsigned_less [of n] by simp
    then show ?case by simp
  next
    case (Suc k)
    let ?m = "unat n div 16 ^ (31 - k)"
    have "32 - k = Suc (31 - k)" using Suc.prems by simp
    then have "(16::nat) ^ (32 - k) = 16 ^ (31 - k) * 16" by (simp only: power_Suc2)
    then have "unat n div 16 ^ (32 - k) = ?m div 16" by (simp add: div_mult2_eq)
    with Suc show ?case by (simp add: unat_nibble)
  qed
  from this [of 32] show ?thesis by (simp add: hex_value_def hex_digits_def del: upt_rec_numeral)
qed

lemma hex_digits_facts: "length (hex_digits n) = 32" "list_all is_hex (hex_digits n)"
  by (auto simp: hex_digits_def list_all_iff simp del: upt_rec_numeral)

lemma to_hex_loop_spec:
  assumes "k \<le> 32" "33 \<le> length st"
  shows "\<exists>st'. to_hex_loop k (33 - k) n st = Some st' \<and> length st' = length st \<and>
     (\<forall>j < length st. st' ! j =
        (if j < k then Some (int_to_hex (drop_bit (4 * (k - 1 - j)) n AND 15)) else st ! j))"
  using assms
proof (induction k arbitrary: n st)
  case (Suc k)
  let ?st = "st[k := Some (int_to_hex (n AND 15))]"
  have "32 - (33 - Suc k) = k" "Suc (33 - Suc k) = 33 - k" using Suc.prems by auto
  then have step: "to_hex_loop (Suc k) (33 - Suc k) n st = to_hex_loop k (33 - k) (drop_bit 4 n) ?st"
    using Suc.prems by (simp add: mem_set_in_range)
  obtain st' where st': "to_hex_loop k (33 - k) (drop_bit 4 n) ?st = Some st'" "length st' = length st"
      "\<forall>j < length st. st' ! j =
        (if j < k then Some (int_to_hex (drop_bit (4 * (k - 1 - j)) (drop_bit 4 n) AND 15)) else ?st ! j)"
    using Suc.IH [of ?st "drop_bit 4 n"] Suc.prems by auto
  have "4 + 4 * (k - 1 - j) = 4 * (k - j)" if "j < k" for j using that by simp
  then have "drop_bit (4 * (k - 1 - j)) (drop_bit 4 n) = drop_bit (4 * (k - j)) n" if "j < k" for j
    using that by (simp add: drop_bit_drop_bit add.commute)
  with st' step Suc.prems show ?case by (auto simp: nth_list_update less_Suc_eq)
qed auto

lemma to_hex_loop_32:
  assumes "33 \<le> length st"
  shows "\<exists>st'. to_hex_loop 32 1 n st = Some st' \<and> length st' = length st \<and>
     take 32 st' = map Some (hex_digits n) \<and> drop 32 st' = drop 32 st"
proof -
  obtain st' where st': "to_hex_loop 32 1 n st = Some st'" "length st' = length st"
      "\<forall>j < length st. st' ! j =
        (if j < 32 then Some (int_to_hex (drop_bit (4 * (31 - j)) n AND 15)) else st ! j)"
    using to_hex_loop_spec [of 32 st n] assms by (auto simp del: to_hex_loop.simps)
  have "take 32 st' = map Some (hex_digits n)" "drop 32 st' = drop 32 st"
    using st'(2,3) assms
    by (auto intro!: nth_equalityI simp: hex_digits_def simp del: upt_rec_numeral)
  with st' show ?thesis by blast
qed

section \<open>Properties\<close>

text \<open>
  The parser computes the positional value. On at least 32 readable characters
  \<open>hex_to_int128\<close> returns the number whose hexadecimal digits are the first 32 (a character that
  is not \<open>0-9A-F\<close> counts as 0), without losing a bit; on fewer it reads out of bounds.
\<close>

theorem hex_to_int128_value:
  "(32 \<le> length st \<longrightarrow> (\<exists>n. hex_to_int128 st = Some n \<and> unat n = hex_value (take 32 st))) \<and>
   (length st < 32 \<longrightarrow> hex_to_int128 st = None)"
proof -
  have "hex_value (take 32 st) < 2 ^ 128" if "32 \<le> length st"
    using hex_value_bound [of "take 32 st"] that by (simp add: min_absorb2)
  then show ?thesis
    by (auto simp: hex_to_int128_spec unat_of_nat)
qed

theorem hex_to_int128_value_witness:
  "\<exists>n. hex_to_int128 ''000000000000000000000000000000FF'' = Some n \<and> unat n = 255"
proof -
  have "hex_value (take 32 ''000000000000000000000000000000FF'') = 255"
    by (simp add: hex_value_def digit_of_eq)
  with hex_to_int128_value [of "''000000000000000000000000000000FF''"] show ?thesis by simp
qed

text \<open>
  C39: printing and parsing are inverse. Into a buffer of at least 34 characters every 128-bit
  number is printed as 32 hexadecimal digits, which \<open>hex_to_int128\<close> reads back as the number;
  and any 32 hexadecimal digits are printed again from the number they are parsed to.
\<close>

theorem hex128_roundtrip:
  assumes "34 \<le> length st" "length s = 32" "list_all is_hex s"
  shows "(\<exists>st'. int128_to_hex n st = Some st' \<and> take 32 st' = map Some (hex_digits n)) \<and>
     hex_to_int128 (hex_digits n) = Some n \<and>
     (\<exists>v. hex_to_int128 s = Some v \<and> hex_digits v = s)"
proof (intro conjI)
  obtain st' where "to_hex_loop 32 1 n st = Some st'" "length st' = length st"
      "take 32 st' = map Some (hex_digits n)"
    using to_hex_loop_32 [of st n] assms(1) by auto
  then show "\<exists>st'. int128_to_hex n st = Some st' \<and> take 32 st' = map Some (hex_digits n)"
    using assms(1) by (simp add: int128_to_hex_def mem_set_in_range del: to_hex_loop.simps)
  show "hex_to_int128 (hex_digits n) = Some n"
    by (simp add: hex_to_int128_spec hex_digits_facts hex_value_digits)
  have "hex_value s < 2 ^ 128" using hex_value_bound [of s] assms(2) by simp
  then have "hex_value (hex_digits (of_nat (hex_value s))) = hex_value s"
    by (simp add: hex_value_digits unat_of_nat)
  then have "hex_digits (of_nat (hex_value s)) = s"
    using assms(2,3) by (intro hex_value_inject) (simp_all add: hex_digits_facts)
  then show "\<exists>v. hex_to_int128 s = Some v \<and> hex_digits v = s"
    using assms(2) by (simp add: hex_to_int128_spec)
qed

theorem hex128_roundtrip_witness:
  "\<exists>st'. int128_to_hex 48879 (replicate 34 None) = Some st' \<and> take 32 st' = map Some (hex_digits 48879)"
  using hex128_roundtrip [of "replicate 34 None" "replicate 32 (CHR ''A'')" 48879]
  by (simp add: is_hex_def list_all_iff)

text \<open>
  The terminator misses the buffer. The parameter of \<open>int128_to_hex\<close> is declared as an array
  of \<open>MAX_128_HEX_BYTES + 1\<close> characters, and the generator passes exactly such an array; the last
  statement stores at index \<open>MAX_128_HEX_BYTES + 1\<close>, one past its end. So every call on a buffer of
  the declared size runs into undefined behaviour, after having written all 32 digits.
\<close>

theorem int128_to_hex_overflows_declared_buffer:
  assumes "length st = MAX_128_HEX_BYTES + 1"
  shows "int128_to_hex n st = None \<and>
     (\<exists>st'. to_hex_loop MAX_128_HEX_BYTES 1 n st = Some st' \<and> take 32 st' = map Some (hex_digits n))"
proof -
  obtain st' where "to_hex_loop 32 1 n st = Some st'" "length st' = 33"
      "take 32 st' = map Some (hex_digits n)"
    using to_hex_loop_32 [of st n] assms by auto
  then show ?thesis by (simp add: int128_to_hex_def mem_set_out_of_range del: to_hex_loop.simps)
qed

theorem int128_to_hex_overflows_declared_buffer_witness:
  "int128_to_hex 5 (replicate 33 None) = None"
  using int128_to_hex_overflows_declared_buffer [of "replicate 33 None" 5] by simp

end
