(* ===== verification/MathLibs.thy ===== *)
theory MathLibs
  imports Complex_Main Prelude "HOL-Library.Signed_Division"
begin

text \<open>
  Lab 5: two implementations of the interface \<^verbatim>\<open>lab5/lib.h\<close> (\<open>gcd\<close> and \<open>Pi\<close>) in
  \<^verbatim>\<open>lib1.c\<close> and \<^verbatim>\<open>lib2.c\<close>, the program \<^verbatim>\<open>prog1.c\<close> linked against the first and the
  program \<^verbatim>\<open>prog2.c\<close> that loads either at run time and switches between them. Integers are C
  \<open>int\<close>s: the remainder truncates and is undefined for a zero divisor and for \<open>INT_MIN % -1\<close>.
  Floating-point code takes the rounding functions of \<open>float\<close> and \<open>double\<close> as parameters. The
  locale \<open>gcd_lib\<close> is the contract of \<^verbatim>\<open>lib.h\<close> that the programs rely on.
\<close>

section \<open>Integer code\<close>

definition c_rem :: "int \<Rightarrow> int \<Rightarrow> int option" where
  "c_rem a b = (if b = 0 \<or> (a = INT_MIN \<and> b = -1) then None else Some (a smod b))"

lemma smod_eq_sgn_mod: "(a::int) smod b = sgn a * (\<bar>a\<bar> mod \<bar>b\<bar>)"
  by (simp add: signed_modulo_int_def)

lemma abs_smod: "\<bar>(a::int) smod b\<bar> = \<bar>a\<bar> mod \<bar>b\<bar>"
proof -
  have "0 \<le> \<bar>a\<bar> mod \<bar>b\<bar>" by (cases "b = 0") simp_all
  then show ?thesis by (cases "a = 0") (simp_all add: smod_eq_sgn_mod abs_mult)
qed

text \<open>\<^verbatim>\<open>lib1.c\<close>: Euclid's algorithm.\<close>

function gcd1 :: "int \<Rightarrow> int \<Rightarrow> int option" where
  "gcd1 A B = (if B = 0 then Some A else (case c_rem A B of None \<Rightarrow> None | Some r \<Rightarrow> gcd1 B r))"
  by pat_completeness auto
termination
proof (relation "measure (\<lambda>(A, B). nat \<bar>B\<bar>)")
  fix A B r :: int
  assume "B \<noteq> 0" "c_rem A B = Some r"
  then show "((B, r), A, B) \<in> measure (\<lambda>(A, B). nat \<bar>B\<bar>)"
    by (auto simp: c_rem_def abs_smod split: if_splits)
qed simp

text \<open>
  \<^verbatim>\<open>lib2.c\<close>: the loop \<open>while (A % x != 0 || B % x != 0) x--\<close>; decrementing \<open>INT_MIN\<close> is
  undefined.
\<close>

function gcd2_loop :: "int \<Rightarrow> int \<Rightarrow> int \<Rightarrow> int option" where
  "gcd2_loop A B x =
    (case c_rem A x of
       None \<Rightarrow> None
     | Some r \<Rightarrow>
         if r \<noteq> 0 then (if x > INT_MIN then gcd2_loop A B (x - 1) else None)
         else (case c_rem B x of
             None \<Rightarrow> None
           | Some s \<Rightarrow>
               if s \<noteq> 0 then (if x > INT_MIN then gcd2_loop A B (x - 1) else None)
               else Some x))"
  by pat_completeness auto
termination by (relation "measure (\<lambda>(A, B, x). nat (x - INT_MIN))") auto

definition gcd2 :: "int \<Rightarrow> int \<Rightarrow> int option" where
  "gcd2 A B = gcd2_loop A B (if A > B then B else A)"

declare gcd1.simps [simp del] gcd2_loop.simps [simp del]

section \<open>Correctness of the two algorithms\<close>

lemma smod_eq_0_iff: "(a::int) smod b = 0 \<longleftrightarrow> b dvd a"
  using abs_smod [of a b] by (metis abs_eq_0 abs_dvd_iff dvd_abs_iff mod_eq_0_iff_dvd)

lemma gcd_smod: "gcd b ((a::int) smod b) = gcd a b"
proof -
  have "gcd b (a smod b) = gcd b (\<bar>a\<bar> mod \<bar>b\<bar>)"
    by (cases "a = 0") (auto simp: smod_eq_sgn_mod sgn_if)
  also have "\<dots> = gcd \<bar>b\<bar> (\<bar>a\<bar> mod \<bar>b\<bar>)" by simp
  also have "\<dots> = gcd \<bar>a\<bar> \<bar>b\<bar>" by (metis gcd.commute gcd_red_int)
  finally show ?thesis by simp
qed

lemma smod_bounds: "is_int a \<Longrightarrow> a \<noteq> INT_MIN \<Longrightarrow> b \<noteq> 0 \<Longrightarrow> \<bar>(a::int) smod b\<bar> \<le> \<bar>a\<bar> \<and> \<bar>a smod b\<bar> < \<bar>b\<bar>"
  by (simp add: abs_smod zmod_le_nonneg_dividend)

lemma gcd1_spec:
  assumes "is_int A" "is_int B" "A \<noteq> INT_MIN" "B \<noteq> INT_MIN"
  shows "\<exists>g. gcd1 A B = Some g \<and> \<bar>g\<bar> = gcd A B \<and> (0 \<le> A \<longrightarrow> 0 \<le> B \<longrightarrow> 0 \<le> g)"
  using assms
proof (induction A B rule: gcd1.induct)
  case (1 A B)
  show ?case
  proof (cases "B = 0")
    case True
    then show ?thesis by (subst gcd1.simps) simp
  next
    case False
    then have r: "c_rem A B = Some (A smod B)" using 1 by (simp add: c_rem_def)
    have "\<bar>A smod B\<bar> \<le> \<bar>A\<bar>" using smod_bounds 1 False by blast
    then have "is_int (A smod B)" "A smod B \<noteq> INT_MIN" using 1 by (auto simp: is_int_def)
    then obtain g where g: "gcd1 B (A smod B) = Some g" "\<bar>g\<bar> = gcd B (A smod B)"
        "0 \<le> B \<longrightarrow> 0 \<le> A smod B \<longrightarrow> 0 \<le> g"
      using "1.IH" [OF False r] 1 by blast
    have "0 \<le> A \<Longrightarrow> 0 \<le> A smod B" by (simp add: smod_eq_sgn_mod sgn_if False)
    with g r False show ?thesis by (subst gcd1.simps) (auto simp: gcd_smod)
  qed
qed

lemma gcd2_loop_spec:
  assumes "0 < A" "0 < B" "gcd A B \<le> x" "x \<le> INT_MAX"
  shows "gcd2_loop A B x = Some (gcd A B)"
  using assms
proof (induction "nat (x - gcd A B)" arbitrary: x)
  case 0
  then have "x = gcd A B" "0 < x" by auto
  then show ?case using assms(1,2) by (subst gcd2_loop.simps) (simp add: c_rem_def smod_eq_0_iff)
next
  case (Suc n)
  then have "gcd A B < x" by simp
  moreover have "0 < gcd A B" using assms by (simp add: gcd_pos_int)
  ultimately have x: "gcd A B \<le> x - 1" "0 < x" by linarith+
  have "\<not> (x dvd A \<and> x dvd B)"
    using \<open>gcd A B < x\<close> \<open>0 < gcd A B\<close> by (metis gcd_greatest not_le zdvd_imp_le)
  moreover have "gcd2_loop A B (x - 1) = Some (gcd A B)" using Suc x by simp
  ultimately show ?case using x by (subst gcd2_loop.simps) (auto simp: c_rem_def smod_eq_0_iff)
qed

lemma gcd2_spec:
  assumes "0 < A" "0 < B" "is_int A" "is_int B"
  shows "gcd2 A B = Some (gcd A B)"
  using assms gcd2_loop_spec [OF assms(1,2), of "if A > B then B else A"]
  by (simp add: gcd2_def is_int_def zdvd_imp_le)

text \<open>A negative start: only the start itself can divide both, and the loop then runs down.\<close>

lemma smod_small: "\<bar>a\<bar> < \<bar>b\<bar> \<Longrightarrow> (a::int) smod b = a"
  by (simp add: smod_eq_sgn_mod sgn_mult_abs)

lemma gcd2_loop_below:
  assumes "m = A \<or> m = B" "m < 0" "x < m" "m \<noteq> INT_MIN" "INT_MIN \<le> x"
  shows "gcd2_loop A B x = None"
  using assms(3,5)
proof (induction "nat (x - INT_MIN)" arbitrary: x)
  case 0
  then have x: "x = INT_MIN" by simp
  have "m smod INT_MIN = m" using assms 0 by (intro smod_small) (simp add: x)
  then show ?case
    using assms x by (subst gcd2_loop.simps) (auto simp: c_rem_def split: option.split)
next
  case (Suc n)
  then have x: "INT_MIN < x" "gcd2_loop A B (x - 1) = None" by auto
  have "m smod x = m" using assms Suc by (intro smod_small) simp
  then show ?case
    using assms x by (subst gcd2_loop.simps) (auto simp: c_rem_def split: option.split)
qed

lemma gcd2_negative:
  assumes "min A B < 0" "INT_MIN < min A B" "\<not> (min A B dvd A \<and> min A B dvd B)"
  shows "gcd2 A B = None"
proof -
  let ?m = "min A B"
  have below: "gcd2_loop A B (?m - 1) = None"
    using assms by (intro gcd2_loop_below [of ?m]) (auto simp: min_def)
  show ?thesis
    using assms below unfolding gcd2_def
    by (subst gcd2_loop.simps) (auto simp: c_rem_def smod_eq_0_iff min_def split: if_splits)
qed

section \<open>Floating-point code\<close>

text \<open>
  \<^verbatim>\<open>lib1.c\<close>: the Leibniz series. \<open>fl\<close> rounds to \<open>float\<close>, \<open>db\<close> to \<open>double\<close>; \<open>pow\<close> is
  exact on \<open>-1\<close>. The state is \<open>(res, x)\<close> after the rounds below \<open>i\<close>.
\<close>

fun Pi1_loop :: "(real \<Rightarrow> real) \<Rightarrow> (real \<Rightarrow> real) \<Rightarrow> nat \<Rightarrow> real \<times> real" where
  "Pi1_loop fl db 0 = (0, 1)"
| "Pi1_loop fl db (Suc i) =
    (let (res, x) = Pi1_loop fl db i in
     (fl (db (res + db ((-1) ^ i * fl (4 / x)))), fl (x + 2)))"

definition Pi1 :: "(real \<Rightarrow> real) \<Rightarrow> (real \<Rightarrow> real) \<Rightarrow> int \<Rightarrow> real" where
  "Pi1 fl db K = fst (Pi1_loop fl db (nat K))"

text \<open>\<^verbatim>\<open>lib2.c\<close>: the Wallis product; \<open>4*i*i\<close> is an \<open>int\<close> product, undefined when it overflows.\<close>

fun Pi2_loop :: "(real \<Rightarrow> real) \<Rightarrow> nat \<Rightarrow> real option" where
  "Pi2_loop fl 0 = Some 1"
| "Pi2_loop fl (Suc k) = do {
     res \<leftarrow> Pi2_loop fl k;
     let i = int k + 1;
     if 4 * i * i > INT_MAX then None
     else do {
       let num = fl (of_int (4 * i * i));
       Some (fl (res * fl (num / fl (num - 1))))
     }
   }"

definition Pi2 :: "(real \<Rightarrow> real) \<Rightarrow> int \<Rightarrow> real option" where
  "Pi2 fl K = do { res \<leftarrow> Pi2_loop fl (nat (K - 1)); Some (fl (res * 2)) }"

lemma Pi1_loop_exact: "Pi1_loop id id k = (\<Sum>i<k. 4 * ((-1) ^ i / real (2 * i + 1)), real (2 * k + 1))"
  by (induction k) (simp_all add: algebra_simps)

lemma Pi2_loop_defined:
  "Pi2_loop fl k \<noteq> None \<longleftrightarrow> k \<le> 23170"
proof (induction k)
  case (Suc k)
  have "4 * (int k + 1) * (int k + 1) \<le> INT_MAX \<longleftrightarrow> int k + 1 \<le> 23170"
  proof
    assume le: "int k + 1 \<le> 23170"
    then have "(int k + 1) * (int k + 1) \<le> 23170 * 23170" by (intro mult_mono) auto
    then show "4 * (int k + 1) * (int k + 1) \<le> INT_MAX" unfolding mult.assoc by linarith
  next
    assume *: "4 * (int k + 1) * (int k + 1) \<le> INT_MAX"
    show "int k + 1 \<le> 23170"
    proof (rule ccontr)
      assume "\<not> int k + 1 \<le> 23170"
      then have "23171 * 23171 \<le> (int k + 1) * (int k + 1)" by (intro mult_mono) auto
      with * show False unfolding mult.assoc by linarith
    qed
  qed
  with Suc show ?case by (auto simp: Let_def not_less split: if_splits)
qed simp

section \<open>The programs\<close>

record lib_impl =
  gcd_f :: "int \<Rightarrow> int \<Rightarrow> int option"
  Pi_f :: "int \<Rightarrow> real option"

definition lib1 :: "(real \<Rightarrow> real) \<Rightarrow> (real \<Rightarrow> real) \<Rightarrow> lib_impl" where
  "lib1 fl db = \<lparr>gcd_f = gcd1, Pi_f = (\<lambda>K. Some (Pi1 fl db K))\<rparr>"

definition lib2 :: "(real \<Rightarrow> real) \<Rightarrow> lib_impl" where
  "lib2 fl = \<lparr>gcd_f = gcd2, Pi_f = Pi2 fl\<rparr>"

datatype line = Help | Int_line int | Float_line real | Dl_error

text \<open>
  The command loops. The input is the list of numbers that \<open>scanf("%d")\<close> yields; an empty list
  is \<open>EOF\<close>. A command whose arguments are missing works on uninitialised variables, which is
  undefined. The result is the lines printed and the exit status.
\<close>

fun prog1_loop :: "lib_impl \<Rightarrow> int list \<Rightarrow> (line list \<times> int) option" where
  "prog1_loop l [] = Some ([], 0)"
| "prog1_loop l (arg # ts) =
    (if arg = 1 then
       (case ts of
          a # b # ts' \<Rightarrow> do {
            g \<leftarrow> gcd_f l a b;
            (ls, rc) \<leftarrow> prog1_loop l ts';
            Some (Int_line g # ls, rc)
          }
        | _ \<Rightarrow> None)
     else if arg = 2 then
       (case ts of
          k # ts' \<Rightarrow> do {
            p \<leftarrow> Pi_f l k;
            (ls, rc) \<leftarrow> prog1_loop l ts';
            Some (Float_line p # ls, rc)
          }
        | _ \<Rightarrow> None)
     else Some ([Help], -1))"

definition prog1_main :: "lib_impl \<Rightarrow> int list \<Rightarrow> (line list \<times> int) option" where
  "prog1_main l ts = do { (ls, rc) \<leftarrow> prog1_loop l ts; Some (Help # ls, rc) }"

text \<open>
  \<open>dl cur_lib\<close> is what \<open>dlopen\<close> and \<open>dlsym\<close> find for \<open>LIBS[cur_lib]\<close>, \<open>None\<close> if they fail;
  the program then prints the loader's message and exits with 1.
\<close>

fun prog2_loop :: "(nat \<Rightarrow> lib_impl option) \<Rightarrow> nat \<Rightarrow> lib_impl \<Rightarrow> int list \<Rightarrow> (line list \<times> int) option" where
  "prog2_loop dl cur_lib l [] = Some ([], 0)"
| "prog2_loop dl cur_lib l (arg # ts) =
    (if arg = 0 then
       (let cur_lib' = (if cur_lib = 0 then 1 else 0) in
        case dl cur_lib' of
          None \<Rightarrow> Some ([Dl_error], 1)
        | Some l' \<Rightarrow> prog2_loop dl cur_lib' l' ts)
     else if arg = 1 then
       (case ts of
          a # b # ts' \<Rightarrow> do {
            g \<leftarrow> gcd_f l a b;
            (ls, rc) \<leftarrow> prog2_loop dl cur_lib l ts';
            Some (Int_line g # ls, rc)
          }
        | _ \<Rightarrow> None)
     else if arg = 2 then
       (case ts of
          k # ts' \<Rightarrow> do {
            p \<leftarrow> Pi_f l k;
            (ls, rc) \<leftarrow> prog2_loop dl cur_lib l ts';
            Some (Float_line p # ls, rc)
          }
        | _ \<Rightarrow> None)
     else Some ([Help], -1))"

definition prog2_main :: "(nat \<Rightarrow> lib_impl option) \<Rightarrow> int list \<Rightarrow> (line list \<times> int) option" where
  "prog2_main dl ts =
    (case dl 0 of
       None \<Rightarrow> Some ([Dl_error], 1)
     | Some l \<Rightarrow> do { (ls, rc) \<leftarrow> prog2_loop dl 0 l ts; Some (Help # ls, rc) })"

section \<open>The interface of the libraries\<close>

text \<open>
  What \<^verbatim>\<open>lib.h\<close> promises to the programs: on positive arguments \<open>gcd\<close> returns the greatest
  common divisor. A session that asks for such divisors only gets the same answers from every
  implementation.
\<close>

definition gcd_args :: "int \<Rightarrow> int \<Rightarrow> bool" where
  "gcd_args A B \<longleftrightarrow> 0 < A \<and> 0 < B \<and> is_int A \<and> is_int B"

text \<open>A session: divisor requests, with changes of the implementation in between.\<close>

datatype request = Change | Divisor int int

fun typed :: "request list \<Rightarrow> int list" where
  "typed [] = []"
| "typed (Change # rs) = 0 # typed rs"
| "typed (Divisor a b # rs) = 1 # a # b # typed rs"

fun answers :: "request list \<Rightarrow> line list" where
  "answers [] = []"
| "answers (Change # rs) = answers rs"
| "answers (Divisor a b # rs) = Int_line (gcd a b) # answers rs"

fun good_request :: "request \<Rightarrow> bool" where
  "good_request Change \<longleftrightarrow> True"
| "good_request (Divisor a b) \<longleftrightarrow> gcd_args a b"

locale gcd_lib =
  fixes l :: lib_impl
  assumes gcd_ok: "gcd_args A B \<Longrightarrow> gcd_f l A B = Some (gcd A B)"
begin

lemma prog1_session:
  "list_all good_request rs \<Longrightarrow> Change \<notin> set rs \<Longrightarrow> prog1_loop l (typed rs) = Some (answers rs, 0)"
  by (induction rs rule: answers.induct) (simp_all add: gcd_ok)

end

text \<open>A loader all of whose libraries keep the promise, and that finds both of them.\<close>

locale gcd_loader =
  fixes dl :: "nat \<Rightarrow> lib_impl option"
  assumes found: "k < 2 \<Longrightarrow> dl k \<noteq> None"
    and promised: "k < 2 \<Longrightarrow> dl k = Some l \<Longrightarrow> gcd_lib l"
begin

lemma prog2_session:
  "k < 2 \<Longrightarrow> dl k = Some l \<Longrightarrow> list_all good_request rs \<Longrightarrow>
   prog2_loop dl k l (typed rs) = Some (answers rs, 0)"
proof (induction rs arbitrary: k l rule: answers.induct)
  case (2 rs)
  let ?k = "if k = 0 then 1 else 0 :: nat"
  have "?k < 2" by simp
  then obtain l' where "dl ?k = Some l'" using found by fastforce
  with 2 \<open>?k < 2\<close> show ?case by (simp add: Let_def split: option.split)
next
  case (3 a b rs)
  then show ?case using gcd_lib.gcd_ok [OF promised] by simp
qed simp

end

interpretation g1: gcd_lib "lib1 fl db" for fl db
proof
  fix A B assume "gcd_args A B"
  then show "gcd_f (lib1 fl db) A B = Some (gcd A B)"
    using gcd1_spec [of A B] by (auto simp: gcd_args_def lib1_def)
qed

interpretation g2: gcd_lib "lib2 fl" for fl
  by unfold_locales (simp add: lib2_def gcd_args_def gcd2_spec)

text \<open>The two shared libraries, as the loader of \<^verbatim>\<open>prog2.c\<close> finds them by index.\<close>

definition LIBS :: "(real \<Rightarrow> real) \<Rightarrow> (real \<Rightarrow> real) \<Rightarrow> nat \<Rightarrow> lib_impl option" where
  "LIBS fl db k = (if k = 0 then Some (lib1 fl db) else if k = 1 then Some (lib2 fl) else None)"

interpretation libs: gcd_loader "LIBS fl db" for fl db
  by unfold_locales (auto simp: LIBS_def less_Suc_eq numeral_2_eq_2 g1.gcd_ok g2.gcd_ok)

section \<open>Properties\<close>

text \<open>
  Euclid's algorithm. For all \<open>int\<close> arguments but \<open>INT_MIN\<close> the recursion ends without
  undefined behaviour, its result is the greatest common divisor up to sign, and it is not
  negative for non-negative arguments. With \<open>INT_MIN\<close> and \<open>-1\<close> the remainder overflows.
\<close>

theorem gcd1_correct:
  assumes "is_int A" "is_int B" "A \<noteq> INT_MIN" "B \<noteq> INT_MIN"
  shows "(\<exists>g. gcd1 A B = Some g \<and> \<bar>g\<bar> = gcd A B \<and> (0 \<le> A \<and> 0 \<le> B \<longrightarrow> 0 \<le> g)) \<and>
     gcd1 INT_MIN (-1) = None"
proof -
  have "gcd1 INT_MIN (-1) = None" by (subst gcd1.simps) (simp add: c_rem_def)
  with gcd1_spec [OF assms] show ?thesis by auto
qed

lemma demo_gcds: "gcd (84::int) 36 = 12" "gcd (12::int) 18 = 6" "gcd (6::int) 4 = 2"
  by code_simp+

theorem gcd1_correct_witness:
  "\<exists>g. gcd1 84 (-36) = Some g \<and> \<bar>g\<bar> = 12"
  using gcd1_correct [of 84 "-36"] by (auto simp: is_int_def demo_gcds)

text \<open>
  The two libraries agree. On positive \<open>int\<close>s the descending search of \<open>lib2\<close> ends and returns
  exactly what Euclid's algorithm returns.
\<close>

theorem gcd_libs_agree:
  assumes "0 < A" "0 < B" "is_int A" "is_int B"
  shows "gcd2 A B = gcd1 A B \<and> gcd2 A B = Some (gcd A B)"
  using assms g1.gcd_ok [of A B] g2.gcd_ok [of A B] by (simp add: gcd_args_def lib1_def lib2_def)

theorem gcd_libs_agree_witness: "gcd2 12 18 = gcd1 12 18 \<and> gcd2 12 18 = Some 6"
  by (rule gcd_libs_agree [of 12 18, unfolded demo_gcds]) (simp_all add: is_int_def)

text \<open>
  Outside the positive numbers they differ. With a zero argument and the other not negative
  \<open>lib2\<close> divides by zero where \<open>lib1\<close> answers; if the smaller argument is negative and does not
  divide both, \<open>lib2\<close> counts down past \<open>INT_MIN\<close>, while \<open>lib1\<close> still answers.
\<close>

theorem gcd_libs_differ:
  assumes "is_int A" "is_int B" "0 \<le> A"
    "INT_MIN < min A B" "min A B < 0 \<longrightarrow> \<not> (min A B dvd A \<and> min A B dvd B)" "B \<le> 0"
  shows "gcd2 A B = None \<and> (\<exists>g. gcd1 A B = Some g \<and> \<bar>g\<bar> = gcd A B)"
proof
  show "gcd2 A B = None"
  proof (cases "B = 0")
    case True
    have "gcd2_loop A B 0 = None" by (subst gcd2_loop.simps) (simp add: c_rem_def)
    with True assms(3) show ?thesis by (auto simp: gcd2_def not_less)
  next
    case False
    with assms show ?thesis by (intro gcd2_negative) auto
  qed
  show "\<exists>g. gcd1 A B = Some g \<and> \<bar>g\<bar> = gcd A B"
    using gcd1_spec [of A B] assms by auto
qed

theorem gcd_libs_differ_witness: "gcd2 6 (-4) = None \<and> (\<exists>g. gcd1 6 (-4) = Some g \<and> \<bar>g\<bar> = 2)"
  using gcd_libs_differ [of 6 "-4"] by (simp add: is_int_def demo_gcds)

text \<open>
  C40: switching libraries is invisible. A session of \<open>prog2\<close> that asks for divisors of positive
  numbers and changes the implementation any number of times prints exactly the greatest common
  divisors, ends with status 0, and prints what \<open>prog1\<close> prints for the same requests.
\<close>

theorem prog2_session_correct:
  assumes "list_all good_request rs"
  shows "prog2_main (LIBS fl db) (typed rs) = Some (Help # answers rs, 0) \<and>
     prog1_main (lib1 fl db) (typed (filter (\<lambda>r. r \<noteq> Change) rs)) = prog2_main (LIBS fl db) (typed rs)"
proof -
  let ?rs = "filter (\<lambda>r. r \<noteq> Change) rs"
  have "prog2_main (LIBS fl db) (typed rs) = Some (Help # answers rs, 0)"
    using libs.prog2_session [of 0 fl db "lib1 fl db" rs] assms by (simp add: prog2_main_def LIBS_def)
  moreover have "answers ?rs = answers rs" by (induction rs rule: answers.induct) simp_all
  moreover have "list_all good_request ?rs" using assms by (auto simp: list_all_iff)
  ultimately show ?thesis
    using g1.prog1_session [of ?rs fl db] by (simp add: prog1_main_def)
qed

theorem prog2_session_correct_witness:
  "prog2_main (LIBS id id) [1, 12, 18, 0, 1, 12, 18] = Some ([Help, Int_line 6, Int_line 6], 0)"
  using prog2_session_correct [of "[Divisor 12 18, Change, Divisor 12 18]" id id]
  by (simp add: gcd_args_def is_int_def demo_gcds)

text \<open>
  The series for pi. With exact arithmetic \<open>lib1\<close>'s loop computes the partial sums of the
  Leibniz series, so its result tends to pi as \<open>K\<close> grows; for \<open>K <= 0\<close> it returns 0.
\<close>

theorem Pi1_converges:
  "Pi1 id id (int K) = (\<Sum>i<K. 4 * ((-1) ^ i / real (2 * i + 1))) \<and>
   (\<lambda>K. Pi1 id id (int K)) \<longlonglongrightarrow> pi \<and> Pi1 id id (- int K) = 0"
proof -
  have sum: "Pi1 id id (int k) = (\<Sum>i<k. 4 * ((-1) ^ i / real (2 * i + 1)))" for k
    by (simp add: Pi1_def Pi1_loop_exact)
  have "(\<lambda>k. (-1) ^ k / real (2 * k + 1)) sums (pi / 4)"
    using summable_arctan_series [of 1] pi_series by (simp add: sums_iff mult.commute)
  then have "(\<lambda>k. 4 * ((-1) ^ k / real (2 * k + 1))) sums pi"
    using sums_mult [of "\<lambda>k. (-1) ^ k / real (2 * k + 1)" "pi / 4" 4] by simp
  then have "(\<lambda>K. Pi1 id id (int K)) \<longlonglongrightarrow> pi" by (simp add: sums_def sum)
  with sum show ?thesis by (simp add: Pi1_def)
qed

text \<open>
  The range of the product. Whatever the rounding, \<open>lib2\<close>'s \<open>Pi\<close> is defined for \<open>K\<close> up to
  23171 and undefined from 23172 on, where \<open>4*i*i\<close> overflows an \<open>int\<close>.
\<close>

theorem Pi2_defined: "Pi2 fl K \<noteq> None \<longleftrightarrow> K \<le> 23171"
proof -
  have "Pi2 fl K \<noteq> None \<longleftrightarrow> Pi2_loop fl (nat (K - 1)) \<noteq> None"
    by (cases "Pi2_loop fl (nat (K - 1))") (simp_all add: Pi2_def)
  also have "\<dots> \<longleftrightarrow> K \<le> 23171" unfolding Pi2_loop_defined by auto
  finally show ?thesis .
qed

end
