(* ===== verification/DString.thy ===== *)
theory DString
  imports Prelude
begin

text \<open>
  The growing line buffer of labs 2 and 4: \<open>scan_string\<close> of \<^verbatim>\<open>lab2/d_string.c\<close> (bytes from a
  file descriptor) and of \<^verbatim>\<open>lab4/d_string.c\<close> (bytes from \<open>getchar\<close>). A source of bytes is what
  is still to be read and what comes after it: \<open>fin = 0\<close> for the end of file, or the error code
  with which \<open>read\<close> fails. \<open>ok n\<close> says whether the allocator grants \<open>n\<close> bytes.

  The buffer is an \<open>'a mem\<close>, so the lemmas show that no character is stored outside it while it
  doubles; the locale \<open>line_reader\<close> is what the programs of labs 2 and 4 rely on.
\<close>

section \<open>Code\<close>

record source =
  bytes :: string
  fin :: int

abbreviation EOF :: int where "EOF \<equiv> -1"

abbreviation ENOMEM :: int where "ENOMEM \<equiv> 12"

text \<open>How the reading loop stopped.\<close>

datatype stop = Terminator char | End_of_input | Read_error int | No_memory

text \<open>
  The loop of both functions: store a byte, and double the buffer when it is full. \<open>ends\<close> is the
  set of bytes that end it, newline in lab 2, newline and NUL in lab 4. Doubling past \<open>INT_MAX\<close>
  overflows.
\<close>

fun scan_loop ::
    "(char \<Rightarrow> bool) \<Rightarrow> (nat \<Rightarrow> bool) \<Rightarrow> int \<Rightarrow> string \<Rightarrow> char mem \<Rightarrow> nat \<Rightarrow> nat \<Rightarrow>
     (char mem \<times> nat \<times> stop \<times> string) option" where
  "scan_loop ends ok err [] new_str buf_size new_len =
     Some (new_str, new_len, if err = 0 then End_of_input else Read_error err, [])"
| "scan_loop ends ok err (c # cs) new_str buf_size new_len =
     (if ends c then Some (new_str, new_len, Terminator c, cs)
      else do {
        new_str' \<leftarrow> mem_set new_str new_len c;
        let new_len' = new_len + 1;
        if new_len' \<ge> buf_size then
          (if int (buf_size * 2) > INT_MAX then None
           else if ok (buf_size * 2) then
             scan_loop ends ok err cs (mem_realloc new_str' (buf_size * 2)) (buf_size * 2) new_len'
           else Some (new_str', new_len', No_memory, cs))
        else scan_loop ends ok err cs new_str' buf_size new_len'
      })"

record scan_result =
  ret :: int                 \<comment> \<open>the function's result\<close>
  errno :: int               \<comment> \<open>\<open>errno\<close> when it returns\<close>
  str :: "string option"     \<comment> \<open>\<open>*str\<close>: the \<open>len\<close> bytes before the NUL; \<open>None\<close> for NULL\<close>
  len :: nat                 \<comment> \<open>\<open>*len\<close>\<close>
  rest :: source

text \<open>
  The whole function. \<open>*str\<close> and \<open>*len\<close> keep their old values on an error.
\<close>

definition scan_with ::
    "(char \<Rightarrow> bool) \<Rightarrow> (nat \<Rightarrow> bool) \<Rightarrow> string option \<Rightarrow> nat \<Rightarrow> source \<Rightarrow> scan_result option" where
  "scan_with ends ok str0 len0 src =
    (if \<not> ok 1 then
       Some \<lparr>ret = -1, errno = ENOMEM, str = str0, len = len0, rest = src\<rparr>
     else do {
       (new_str, new_len, stop, cs) \<leftarrow> scan_loop ends ok (fin src) (bytes src) [None] 1 0;
       let src' = src\<lparr>bytes := cs\<rparr>;
       case stop of
         No_memory \<Rightarrow> Some \<lparr>ret = -1, errno = ENOMEM, str = str0, len = len0, rest = src'\<rparr>
       | Read_error e \<Rightarrow> do {
           _ \<leftarrow> mem_set new_str new_len (CHR 0x00);
           Some \<lparr>ret = e, errno = e, str = str0, len = len0, rest = src'\<rparr>
         }
       | End_of_input \<Rightarrow> do {
           _ \<leftarrow> mem_set new_str new_len (CHR 0x00);
           Some \<lparr>ret = EOF, errno = 0, str = Some (written new_len new_str), len = new_len, rest = src'\<rparr>
         }
       | Terminator c \<Rightarrow> do {
           _ \<leftarrow> mem_set new_str new_len (CHR 0x00);
           Some \<lparr>ret = 0, errno = 0, str = Some (written new_len new_str), len = new_len, rest = src'\<rparr>
         }
     })"

definition NL :: char where "NL = CHR 0x0A"

definition scan_string2 :: "(nat \<Rightarrow> bool) \<Rightarrow> string option \<Rightarrow> nat \<Rightarrow> source \<Rightarrow> scan_result option" where
  "scan_string2 = scan_with (\<lambda>c. c = NL)"

definition scan_string4 :: "(nat \<Rightarrow> bool) \<Rightarrow> string option \<Rightarrow> nat \<Rightarrow> source \<Rightarrow> scan_result option" where
  "scan_string4 = scan_with (\<lambda>c. c = NL \<or> c = CHR 0x00)"

section \<open>The loop stores a prefix of the input\<close>

lemma scan_loop_spec:
  assumes "length m = sz" "n < sz" "n + length cs < 2 ^ 29" "sz \<le> 2 * n + 1"
    and "\<forall>k. ok k"
  shows "\<exists>m' n' stop ds'. scan_loop ends ok err cs m sz n = Some (m', n', stop, ds') \<and>
     n' < length m' \<and> written n' m' = written n m @ takeWhile (\<lambda>c. \<not> ends c) cs \<and>
     (case dropWhile (\<lambda>c. \<not> ends c) cs of
        [] \<Rightarrow> ds' = [] \<and> stop = (if err = 0 then End_of_input else Read_error err)
      | c # ds \<Rightarrow> ds' = ds \<and> stop = Terminator c)"
  using assms(1-4)
proof (induction cs arbitrary: m sz n)
  case (Cons c cs)
  show ?case
  proof (cases "ends c")
    case False
    let ?m = "m[n := Some c]"
    have w: "written (Suc n) ?m = written n m @ [c]"
      using Cons.prems by (simp add: written_Suc written_update_beyond)
    show ?thesis
    proof (cases "Suc n < sz")
      case True
      with False Cons.prems Cons.IH [of ?m sz "Suc n"] w show ?thesis
        by (simp add: mem_set_in_range)
    next
      case full: False
      have "written (Suc n) (mem_realloc ?m (2 * sz)) = written (Suc n) ?m"
        using Cons.prems full by (simp add: written_def take_mem_realloc)
      with full False Cons.prems assms(5) Cons.IH [of "mem_realloc ?m (sz * 2)" "sz * 2" "Suc n"] w
      show ?thesis by (simp add: mem_set_in_range mult.commute)
    qed
  qed (use Cons.prems in simp)
qed simp

section \<open>Lines\<close>

declare dropWhile_eq_Nil_conv [simp del]

lemma drop_line: "s = p @ c # ds \<Longrightarrow> drop (length p + 1) s = ds \<and> length ds < length s"
  by simp

text \<open>The input cut at its terminators: the complete lines, and what is behind the last one.\<close>

fun pieces :: "(char \<Rightarrow> bool) \<Rightarrow> string \<Rightarrow> string list" where
  "pieces ends [] = [[]]"
| "pieces ends (c # cs) =
     (if ends c then [] # pieces ends cs
      else (c # hd (pieces ends cs)) # tl (pieces ends cs))"

lemma pieces_nonempty [simp]: "pieces ends s \<noteq> []"
  by (induction s) auto

lemma hd_pieces: "hd (pieces ends s) = takeWhile (\<lambda>c. \<not> ends c) s"
  by (induction s) auto

lemma pieces_dropWhile:
  "pieces ends s = takeWhile (\<lambda>c. \<not> ends c) s #
     (case dropWhile (\<lambda>c. \<not> ends c) s of [] \<Rightarrow> [] | c # ds \<Rightarrow> pieces ends ds)"
  by (induction s) (auto simp: hd_pieces split: list.splits)

lemma pieces_join: "\<forall>c. ends c \<longrightarrow> c = t \<Longrightarrow> concat (map (\<lambda>p. p @ [t]) (pieces ends s)) = s @ [t]"
proof (induction s)
  case (Cons c cs)
  then show ?case by (cases "pieces ends cs") auto
qed simp

lemma pieces_line:
  assumes "tl (pieces ends s) \<noteq> []"
  shows "\<exists>ds. drop (length (hd (pieces ends s)) + 1) s = ds \<and> length ds < length s \<and>
    pieces ends s = hd (pieces ends s) # pieces ends ds"
proof -
  have "tl (pieces ends s) = pieces ends (drop (length (hd (pieces ends s)) + 1) s)"
    using assms by (induction s) (auto split: if_splits)
  moreover have "length (drop (length (hd (pieces ends s)) + 1) s) < length s"
    using assms by (cases s) auto
  ultimately show ?thesis by (metis list.collapse pieces_nonempty)
qed

lemma pieces_append_term: "ends t \<Longrightarrow> pieces ends (s @ [t]) = pieces ends s @ [[]]"
  by (induction s) auto

lemma scan_with_spec:
  assumes "\<forall>k. ok k" "length (bytes src) < 2 ^ 29"
  shows "scan_with ends ok s0 n0 src = Some
     (let line = takeWhile (\<lambda>c. \<not> ends c) (bytes src) in
      case dropWhile (\<lambda>c. \<not> ends c) (bytes src) of
        c # ds \<Rightarrow> \<lparr>ret = 0, errno = 0, str = Some line, len = length line, rest = src\<lparr>bytes := ds\<rparr>\<rparr>
      | [] \<Rightarrow>
          if fin src = 0
          then \<lparr>ret = EOF, errno = 0, str = Some line, len = length line, rest = src\<lparr>bytes := []\<rparr>\<rparr>
          else \<lparr>ret = fin src, errno = fin src, str = s0, len = n0, rest = src\<lparr>bytes := []\<rparr>\<rparr>)"
proof -
  obtain m n stop ds' where loop: "scan_loop ends ok (fin src) (bytes src) [None] 1 0 = Some (m, n, stop, ds')"
      "n < length m" "written n m = takeWhile (\<lambda>c. \<not> ends c) (bytes src)"
      "case dropWhile (\<lambda>c. \<not> ends c) (bytes src) of
        [] \<Rightarrow> ds' = [] \<and> stop = (if fin src = 0 then End_of_input else Read_error (fin src))
      | c # ds \<Rightarrow> ds' = ds \<and> stop = Terminator c"
    using scan_loop_spec [of "[None]" 1 0 "bytes src" ok ends "fin src"] assms
    by (auto simp: written_def)
  moreover have "n = length (takeWhile (\<lambda>c. \<not> ends c) (bytes src))"
    using loop(2,3) by (metis length_written less_imp_le)
  ultimately show ?thesis
    using assms(1) by (auto simp: scan_with_def mem_set_in_range Let_def split: list.splits)
qed

lemma scan_loop_stop:
  "scan_loop ends ok err cs m sz n = Some (m', n', stop, ds') \<Longrightarrow>
   (case stop of Terminator c \<Rightarrow> length ds' < length cs | Read_error e \<Rightarrow> e \<noteq> 0 | _ \<Rightarrow> True)"
proof (induction cs arbitrary: m sz n)
  case (Cons d cs)
  let ?stop = "\<lambda>l. case stop of Terminator c \<Rightarrow> length ds' < l | Read_error e \<Rightarrow> e \<noteq> 0 | _ \<Rightarrow> True"
  have IH: "?stop (Suc (length cs))"
    if "scan_loop ends ok err cs m1 sz1 n1 = Some (m', n', stop, ds')" for m1 sz1 n1
    using Cons.IH [OF that] by (cases stop) auto
  from Cons.prems have "ends d \<and> stop = Terminator d \<and> ds' = cs \<or> stop = No_memory \<or>
      (\<exists>m1 sz1 n1. scan_loop ends ok err cs m1 sz1 n1 = Some (m', n', stop, ds'))"
    by (auto simp: Let_def simp del: scan_loop.simps(1) split: if_splits)
  with IH show ?case by (cases stop) auto
qed (auto split: if_splits)

text \<open>A call that returns 0 has consumed input.\<close>

lemma scan_with_progress:
  assumes "scan_with ends ok s0 n0 src = Some r" "ret r = 0"
  shows "length (bytes (rest r)) < length (bytes src)"
proof -
  have "ok 1"
  proof (rule ccontr)
    assume "\<not> ok 1"
    with assms(1) have "r = \<lparr>ret = -1, errno = ENOMEM, str = s0, len = n0, rest = src\<rparr>"
      by (simp add: scan_with_def)
    with assms(2) show False by simp
  qed
  then obtain m n stop ds' where
      loop: "scan_loop ends ok (fin src) (bytes src) [None] 1 0 = Some (m, n, stop, ds')"
    using assms by (auto simp: scan_with_def)
  note stops = scan_loop_stop [OF this]
  show ?thesis
    using assms \<open>ok 1\<close> loop stops by (cases stop) (auto simp: scan_with_def Let_def)
qed

section \<open>The interface of the line readers\<close>

locale line_reader =
  fixes read_line :: "(nat \<Rightarrow> bool) \<Rightarrow> string option \<Rightarrow> nat \<Rightarrow> source \<Rightarrow> scan_result option"
    and ends :: "char \<Rightarrow> bool"
  assumes reads: "\<forall>k. ok k \<Longrightarrow> length (bytes src) < 2 ^ 29 \<Longrightarrow> fin src = 0 \<Longrightarrow>
    read_line ok s0 n0 src = Some
      (let line = hd (pieces ends (bytes src)); more = tl (pieces ends (bytes src)) \<noteq> [] in
       \<lparr>ret = (if more then 0 else EOF), errno = 0, str = Some line, len = length line,
        rest = src\<lparr>bytes := drop (length line + 1) (bytes src)\<rparr>\<rparr>)"
begin

text \<open>
  A loop that handles line after line until the reader reports something but 0 sees exactly the
  complete lines, in order.
\<close>

lemma all_lines:
  assumes loop: "\<And>k s n src. loop k s n src = (case read_line ok s n src of
        None \<Rightarrow> None
      | Some r \<Rightarrow> if ret r \<noteq> 0 then Some ([], errno r)
                  else (case str r of None \<Rightarrow> None | Some s' \<Rightarrow>
                    map_option (\<lambda>(evs, rc). (f s' # evs, rc)) (loop (Suc k) (str r) (len r) (rest r))))"
    and ok: "\<forall>k. ok k"
  shows "length (bytes src) < 2 ^ 29 \<Longrightarrow> fin src = 0 \<Longrightarrow>
     loop k s n src = Some (map f (butlast (pieces ends (bytes src))), 0)"
proof (induction "length (bytes src)" arbitrary: k s n src rule: less_induct)
  case less
  let ?ps = "pieces ends (bytes src)"
  show ?case
  proof (cases "tl ?ps")
    case Nil
    then have "butlast ?ps = []" by (cases ?ps) auto
    with Nil reads [OF ok less.prems, of s n] show ?thesis by (subst loop) (simp add: Let_def)
  next
    case (Cons p ps)
    obtain c ds where ds: "dropWhile (\<lambda>c. \<not> ends c) (bytes src) = c # ds" "tl ?ps = pieces ends ds"
      using Cons pieces_dropWhile [of ends "bytes src"]
      by (cases "dropWhile (\<lambda>c. \<not> ends c) (bytes src)") auto
    have split: "bytes src = hd ?ps @ c # ds"
      using ds(1) by (metis hd_pieces takeWhile_dropWhile_id)
    note ds' = drop_line [OF split]
    have IH: "loop (Suc k) s' n' (src\<lparr>bytes := ds\<rparr>) = Some (map f (butlast (pieces ends ds)), 0)" for s' n'
      using less.hyps [of "src\<lparr>bytes := ds\<rparr>"] less.prems ds' by simp
    have "butlast ?ps = hd ?ps # butlast (pieces ends ds)"
      using ds(2) by (metis butlast.simps(2) hd_Cons_tl pieces_nonempty)
    with IH ds' Cons reads [OF ok less.prems, of s n] show ?thesis
      by (subst loop) (simp add: Let_def)
  qed
qed

end

lemma scan_with_pieces:
  assumes "\<forall>k. ok k" "length (bytes src) < 2 ^ 29" "fin src = 0"
  shows "scan_with ends ok s0 n0 src = Some
      (let line = hd (pieces ends (bytes src)); more = tl (pieces ends (bytes src)) \<noteq> [] in
       \<lparr>ret = (if more then 0 else EOF), errno = 0, str = Some line, len = length line,
        rest = src\<lparr>bytes := drop (length line + 1) (bytes src)\<rparr>\<rparr>)"
proof (cases "dropWhile (\<lambda>c. \<not> ends c) (bytes src)")
  case Nil
  then have all: "takeWhile (\<lambda>c. \<not> ends c) (bytes src) = bytes src"
    by (metis append_Nil2 takeWhile_dropWhile_id)
  have "drop (length (takeWhile (\<lambda>c. \<not> ends c) (bytes src)) + 1) (bytes src) = []"
    unfolding all by simp
  with Nil assms show ?thesis
    by (simp add: scan_with_spec Let_def hd_pieces) (simp add: pieces_dropWhile [of ends "bytes src"])
next
  case (Cons c ds)
  then have "bytes src = takeWhile (\<lambda>c. \<not> ends c) (bytes src) @ c # ds"
    by (metis takeWhile_dropWhile_id)
  from drop_line [OF this]
  have "drop (length (takeWhile (\<lambda>c. \<not> ends c) (bytes src)) + 1) (bytes src) = ds" ..
  with Cons assms show ?thesis
    by (simp add: scan_with_spec Let_def hd_pieces) (simp add: pieces_dropWhile [of ends "bytes src"])
qed

interpretation r2: line_reader scan_string2 "\<lambda>c. c = NL"
  unfolding scan_string2_def by unfold_locales (rule scan_with_pieces)

interpretation r4: line_reader scan_string4 "\<lambda>c. c = NL \<or> c = CHR 0x00"
  unfolding scan_string4_def by unfold_locales (rule scan_with_pieces)

section \<open>Properties\<close>

text \<open>
  Reading a line. On an input shorter than \<open>2 ^ 29\<close> bytes, with an allocator that does not
  fail, \<open>scan_string\<close> never stores outside its doubling buffer and returns the bytes up to the
  first newline with result 0 (consuming the newline), or the whole input with result \<open>EOF\<close> if
  there is none.
\<close>

theorem scan_string2_reads_line:
  assumes "\<forall>k. ok k" "length (bytes src) < 2 ^ 29" "fin src = 0"
  shows "\<exists>r. scan_string2 ok s0 n0 src = Some r \<and> errno r = 0 \<and>
     str r = Some (takeWhile (\<lambda>c. c \<noteq> NL) (bytes src)) \<and> len r = length (the (str r)) \<and>
     (if NL \<in> set (bytes src)
      then ret r = 0 \<and> bytes src = the (str r) @ NL # bytes (rest r)
      else ret r = EOF \<and> the (str r) = bytes src \<and> bytes (rest r) = [])"
proof (cases "dropWhile (\<lambda>c. c \<noteq> NL) (bytes src)")
  case Nil
  then have "NL \<notin> set (bytes src)" "takeWhile (\<lambda>c. c \<noteq> NL) (bytes src) = bytes src"
    by (auto simp: dropWhile_eq_Nil_conv)
  with Nil assms show ?thesis by (simp add: scan_string2_def scan_with_spec Let_def)
next
  case (Cons c ds)
  then have "c = NL" by (metis (mono_tags, lifting) hd_dropWhile list.distinct(1) list.sel(1))
  have split: "bytes src = takeWhile (\<lambda>c. c \<noteq> NL) (bytes src) @ NL # ds"
    using Cons \<open>c = NL\<close> by (metis takeWhile_dropWhile_id)
  then have "NL \<in> set (bytes src)" by (metis in_set_conv_decomp)
  with Cons split assms show ?thesis by (simp add: scan_string2_def scan_with_spec Let_def)
qed

theorem scan_string2_reads_line_witness:
  "\<exists>r. scan_string2 (\<lambda>_. True) None 0 \<lparr>bytes = ''Hi'' @ [NL], fin = 0\<rparr> = Some r \<and> ret r = 0 \<and>
     str r = Some ''Hi''"
  using scan_string2_reads_line [of "\<lambda>_. True" "\<lparr>bytes = ''Hi'' @ [NL], fin = 0\<rparr>" None 0]
  by (auto simp: NL_def)

end
