(* ===== verification/LineFilter.thy ===== *)
theory LineFilter
  imports DString
begin

text \<open>
  Lab 2: the two processes of \<^verbatim>\<open>lab2/main.c\<close> and \<^verbatim>\<open>lab2/child.c\<close>. The parent copies the
  lines of its standard input into a pipe; the child reads them from the pipe, prints those that
  start with an upper-case letter to its standard output (a file) and writes an error message to
  its standard error (a second pipe) for the others. Pipes carry byte strings; what the system
  calls answer (write errors, \<open>poll\<close>) is a parameter.
\<close>

section \<open>The child\<close>

definition is_upper :: "char \<Rightarrow> bool" where
  "is_upper ch \<longleftrightarrow> 65 \<le> (of_char ch :: nat) \<and> (of_char ch :: nat) \<le> 90"

abbreviation invalid_string :: string where
  "invalid_string \<equiv> ''invalid string'' @ [NL]"

datatype emission = Stdout string | Stderr string

text \<open>
  The loop of the child's \<open>main\<close>. \<open>out k\<close> is the error code of the output operation for the
  \<open>k\<close>-th line, 0 if it succeeds; a failure is reported and ends the program.
\<close>

function child_loop ::
    "(nat \<Rightarrow> bool) \<Rightarrow> (nat \<Rightarrow> int) \<Rightarrow> nat \<Rightarrow> string option \<Rightarrow> nat \<Rightarrow> source \<Rightarrow> (emission list \<times> int) option" where
  "child_loop ok out k st ln src =
    (case scan_string2 ok st ln src of
       None \<Rightarrow> None
     | Some r \<Rightarrow>
         if ret r \<noteq> 0 then Some ([], errno r)
         else (case str r of
             None \<Rightarrow> None
           | Some s \<Rightarrow>
               if out k \<noteq> 0 then Some ([], out k)
               else map_option
                 (\<lambda>(evs, rc).
                   ((if is_upper (hd (s @ [CHR 0x00])) then Stdout (c_str s @ [NL])
                     else Stderr invalid_string) # evs, rc))
                 (child_loop ok out (Suc k) (str r) (len r) (rest r))))"
  by pat_completeness auto
termination
  by (relation "measure (\<lambda>(ok, out, k, st, ln, src). length (bytes src))")
    (auto simp: scan_string2_def dest: scan_with_progress)

declare child_loop.simps [simp del]

definition child_main :: "(nat \<Rightarrow> bool) \<Rightarrow> (nat \<Rightarrow> int) \<Rightarrow> source \<Rightarrow> (emission list \<times> int) option" where
  "child_main ok out src = child_loop ok out 0 None 0 src"

section \<open>The parent\<close>

text \<open>
  What the operating system answers in the \<open>k\<close>-th round: \<open>wr k\<close> the error code of the two writes
  (0 for success), \<open>pl k\<close> the result of \<open>poll\<close> and \<open>pe k\<close> the error code if that is \<open>-1\<close>.
\<close>

record os_answers =
  wr :: "nat \<Rightarrow> int"
  pl :: "nat \<Rightarrow> int"
  pe :: "nat \<Rightarrow> int"

record parent_result =
  piped :: string            \<comment> \<open>the bytes written to \<open>pipe_out\<close>\<close>
  printed :: "string list"   \<comment> \<open>the lines read from \<open>pipe_in\<close> and printed\<close>
  status :: int

definition piped_first :: "string \<Rightarrow> string list \<Rightarrow> parent_result \<Rightarrow> parent_result" where
  "piped_first s ls p = p\<lparr>piped := s @ piped p, printed := ls @ printed p\<rparr>"

text \<open>The function \<open>loop\<close>; \<open>child_err\<close> is what the child has written to its standard error.\<close>

function parent_loop ::
    "(nat \<Rightarrow> bool) \<Rightarrow> os_answers \<Rightarrow> nat \<Rightarrow> string option \<Rightarrow> nat \<Rightarrow> source \<Rightarrow> source \<Rightarrow> parent_result option" where
  "parent_loop ok an k st ln src child_err =
    (case scan_string2 ok st ln src of
       None \<Rightarrow> None
     | Some r \<Rightarrow>
         if ret r \<noteq> 0 \<and> ret r \<noteq> EOF then Some \<lparr>piped = [], printed = [], status = errno r\<rparr>
         else if wr an k \<noteq> 0 then Some \<lparr>piped = [], printed = [], status = wr an k\<rparr>
         else
           let sent = (case str r of None \<Rightarrow> [] | Some s \<Rightarrow> take (len r) s) @ [NL] in
           if ret r = EOF \<and> len r = 0 then Some \<lparr>piped = sent, printed = [], status = errno r\<rparr>
           else if pl an k = -1 then Some \<lparr>piped = sent, printed = [], status = pe an k\<rparr>
           else if pl an k = 1 then
             (case scan_string2 ok None 0 child_err of
                None \<Rightarrow> None
              | Some e \<Rightarrow>
                  if ret e \<noteq> 0 then Some \<lparr>piped = sent, printed = [], status = errno e\<rparr>
                  else
                    let line = c_str (the (str e)) in
                    if ret r \<noteq> 0 then Some \<lparr>piped = sent, printed = [line], status = errno e\<rparr>
                    else map_option (piped_first sent [line])
                           (parent_loop ok an (Suc k) (str r) (len r) (rest r) (rest e)))
           else if ret r \<noteq> 0 then Some \<lparr>piped = sent, printed = [], status = errno r\<rparr>
           else map_option (piped_first sent [])
                  (parent_loop ok an (Suc k) (str r) (len r) (rest r) child_err))"
  by pat_completeness auto
termination
  by (relation "measure (\<lambda>(ok, an, k, st, ln, src, ce). length (bytes src))")
    (auto simp: scan_string2_def dest: scan_with_progress)

declare parent_loop.simps [simp del]

definition parent_main :: "(nat \<Rightarrow> bool) \<Rightarrow> os_answers \<Rightarrow> source \<Rightarrow> source \<Rightarrow> parent_result option" where
  "parent_main ok an src child_err = parent_loop ok an 0 None 0 src child_err"


section \<open>Lemmas\<close>

text \<open>What the child does with one line.\<close>

definition emit :: "string \<Rightarrow> emission" where
  "emit s = (if is_upper (hd (s @ [CHR 0x00])) then Stdout (c_str s @ [NL]) else Stderr invalid_string)"

abbreviation text_lines :: "string \<Rightarrow> string list" where
  "text_lines s \<equiv> pieces (\<lambda>c. c = NL) s"

lemma child_loop_lines:
  assumes "\<forall>k. ok k" "length (bytes src) < 2 ^ 29" "fin src = 0"
  shows "child_loop ok (\<lambda>_. 0) k st ln src = Some (map emit (butlast (text_lines (bytes src))), 0)"
proof (rule r2.all_lines [where loop = "child_loop ok (\<lambda>_. 0)", OF _ assms])
  show "child_loop ok (\<lambda>_. 0) k s n src = (case scan_string2 ok s n src of
        None \<Rightarrow> None
      | Some r \<Rightarrow> if ret r \<noteq> 0 then Some ([], errno r)
                  else (case str r of None \<Rightarrow> None | Some s' \<Rightarrow>
                    map_option (\<lambda>(evs, rc). (emit s' # evs, rc))
                      (child_loop ok (\<lambda>_. 0) (Suc k) (str r) (len r) (rest r))))" for k s n src
    by (subst child_loop.simps)
      (auto simp: emit_def split: option.splits intro!: arg_cong [where f = "\<lambda>g. map_option g _"])
qed

lemma parent_loop_pipes:
  assumes "\<forall>k. ok k" "\<forall>k. wr an k = 0 \<and> pl an k \<in> {0, 1}"
  shows "length (bytes src) < 2 ^ 29 \<Longrightarrow> fin src = 0 \<Longrightarrow>
    length (bytes ce) < 2 ^ 29 \<Longrightarrow> fin ce = 0 \<Longrightarrow>
    length (text_lines (bytes src)) < length (text_lines (bytes ce)) \<Longrightarrow>
    \<exists>p. parent_loop ok an k st ln src ce = Some p \<and> status p = 0 \<and>
        piped p = concat (map (\<lambda>l. l @ [NL]) (text_lines (bytes src))) \<and>
        (\<exists>n. printed p = map c_str (take n (text_lines (bytes ce))))"
proof (induction "length (bytes src)" arbitrary: k st ln src ce rule: less_induct)
  case less
  let ?ps = "text_lines (bytes src)" and ?es = "text_lines (bytes ce)"
  have src: "scan_string2 ok st ln src = Some
      \<lparr>ret = (if tl ?ps \<noteq> [] then 0 else EOF), errno = 0, str = Some (hd ?ps), len = length (hd ?ps),
        rest = src\<lparr>bytes := drop (length (hd ?ps) + 1) (bytes src)\<rparr>\<rparr>"
    using r2.reads [OF assms(1), of src] less.prems by (simp add: Let_def)
  have more: "tl ?es \<noteq> []"
    using less.prems(5) by (cases ?ps; cases ?es) auto
  have ce: "scan_string2 ok None 0 ce = Some
      \<lparr>ret = 0, errno = 0, str = Some (hd ?es), len = length (hd ?es),
        rest = ce\<lparr>bytes := drop (length (hd ?es) + 1) (bytes ce)\<rparr>\<rparr>"
    using r2.reads [OF assms(1), of ce] less.prems more by (simp add: Let_def)
  have an: "wr an k = 0" "pl an k = 0 \<or> pl an k = 1" using assms(2) by auto
  show ?case
  proof (cases "tl ?ps")
    case Nil
    then have "?ps = [hd ?ps]" by (cases ?ps) auto
    then have "concat (map (\<lambda>l. l @ [NL]) ?ps) = hd ?ps @ [NL]"
      by (metis append_Nil2 concat.simps list.simps(8) list.simps(9))
    moreover have "[c_str (hd ?es)] = map c_str (take 1 ?es)" by (cases ?es) auto
    moreover have "[] = map c_str (take 0 ?es)" by simp
    ultimately show ?thesis
      using Nil an by (subst parent_loop.simps) (auto simp: src ce Let_def)
  next
    case (Cons q qs)
    obtain ds where ds: "drop (length (hd ?ps) + 1) (bytes src) = ds" "length ds < length (bytes src)"
        "?ps = hd ?ps # text_lines ds"
      using Cons pieces_line [of "\<lambda>c. c = NL" "bytes src"] by auto
    obtain es where es: "drop (length (hd ?es) + 1) (bytes ce) = es" "length es < length (bytes ce)"
        "?es = hd ?es # text_lines es"
      using more pieces_line [of "\<lambda>c. c = NL" "bytes ce"] by auto
    have less': "length (text_lines ds) < length (text_lines es)"
      using less.prems(5) ds(3) es(3) by (metis Suc_less_eq length_Cons)
    have less'': "length (text_lines ds) < length ?es"
      using less' es(3) by (metis length_Cons less_SucI)
    have join: "concat (map (\<lambda>l. l @ [NL]) ?ps) = hd ?ps @ NL # concat (map (\<lambda>l. l @ [NL]) (text_lines ds))"
      by (subst ds(3)) simp
    show ?thesis
    proof (cases "pl an k = 1")
      case True
      obtain p n where p: "parent_loop ok an (Suc k) (Some (hd ?ps)) (length (hd ?ps))
           (src\<lparr>bytes := ds\<rparr>) (ce\<lparr>bytes := es\<rparr>) = Some p" "status p = 0"
         "piped p = concat (map (\<lambda>l. l @ [NL]) (text_lines ds))"
         "printed p = map c_str (take n (text_lines es))"
        using less.hyps [of "src\<lparr>bytes := ds\<rparr>" "ce\<lparr>bytes := es\<rparr>" "Suc k" "Some (hd ?ps)" "length (hd ?ps)"]
          less.prems ds(2) es(2) less' by auto
      have "c_str (hd ?es) # printed p = map c_str (take (Suc n) ?es)"
        by (subst (2) es(3)) (simp add: p(4))
      then show ?thesis using Cons an True p ds(1) es(1) join
        by (subst parent_loop.simps) (auto simp: src ce Let_def piped_first_def)
    next
      case False
      obtain p n where p: "parent_loop ok an (Suc k) (Some (hd ?ps)) (length (hd ?ps))
           (src\<lparr>bytes := ds\<rparr>) ce = Some p" "status p = 0"
         "piped p = concat (map (\<lambda>l. l @ [NL]) (text_lines ds))"
         "printed p = map c_str (take n ?es)"
        using less.hyps [of "src\<lparr>bytes := ds\<rparr>" ce "Suc k" "Some (hd ?ps)" "length (hd ?ps)"]
          less.prems ds(2) less'' by auto
      then show ?thesis using Cons an False p ds(1) join
        by (subst parent_loop.simps) (auto simp: src Let_def piped_first_def)
    qed
  qed
qed


definition stdout_of :: "emission list \<Rightarrow> string" where
  "stdout_of evs = concat (map (\<lambda>e. case e of Stdout s \<Rightarrow> s | Stderr _ \<Rightarrow> []) evs)"

definition accepted :: "string \<Rightarrow> bool" where
  "accepted l \<longleftrightarrow> l \<noteq> [] \<and> is_upper (hd l)"

lemma emit_accepted: "emit l = (if accepted l then Stdout (c_str l @ [NL]) else Stderr invalid_string)"
  by (cases l) (auto simp: emit_def accepted_def is_upper_def)

lemma stdout_of_emit:
  "stdout_of (map emit ls) = concat (map (\<lambda>l. c_str l @ [NL]) (filter accepted ls))"
  by (induction ls) (auto simp: stdout_of_def emit_accepted)

lemma parent_pipes:
  assumes "\<forall>k. ok k" "\<forall>k. wr an k = 0 \<and> pl an k \<in> {0, 1}"
    and "length (bytes src) < 2 ^ 29" "fin src = 0" "length (bytes ce) < 2 ^ 29" "fin ce = 0"
    and "length (text_lines (bytes src)) < length (text_lines (bytes ce))"
  shows "\<exists>p. parent_main ok an src ce = Some p \<and> status p = 0 \<and> piped p = bytes src @ [NL] \<and>
    (\<exists>n. printed p = map c_str (take n (text_lines (bytes ce))))"
  using parent_loop_pipes [OF assms, of 0 None 0] pieces_join [of "\<lambda>c. c = NL" NL "bytes src"]
  by (auto simp: parent_main_def)

lemma child_after_newline:
  assumes "\<forall>k. ok k" "length (bytes src @ [NL]) < 2 ^ 29"
  shows "child_main ok (\<lambda>_. 0) \<lparr>bytes = bytes src @ [NL], fin = 0\<rparr> =
    Some (map emit (text_lines (bytes src)), 0)"
  using child_loop_lines [of ok "\<lparr>bytes = bytes src @ [NL], fin = 0\<rparr>" 0 None 0] assms
  by (simp add: child_main_def pieces_append_term)

section \<open>Properties\<close>

text \<open>
  The line filter. When no system call fails, and the child's error stream has a line
  whenever \<open>poll\<close> announces one, the parent passes its whole input to the child, and the child's
  standard output is the sequence of the input's lines that start with a letter from A to Z, each
  up to its first NUL byte, in the order of the input; both exit with status 0.
\<close>

theorem line_filter_pipeline:
  assumes "\<forall>k. ok k" "\<forall>k. wr an k = 0 \<and> pl an k \<in> {0, 1}"
    and "length (bytes src) + 1 < 2 ^ 29" "fin src = 0" "length (bytes ce) < 2 ^ 29" "fin ce = 0"
    and "length (text_lines (bytes src)) < length (text_lines (bytes ce))"
  shows "\<exists>p evs. parent_main ok an src ce = Some p \<and> status p = 0 \<and>
    child_main ok (\<lambda>_. 0) \<lparr>bytes = piped p, fin = 0\<rparr> = Some (evs, 0) \<and>
    stdout_of evs = concat (map (\<lambda>l. c_str l @ [NL]) (filter accepted (text_lines (bytes src))))"
  using parent_pipes [OF assms(1,2) _ assms(4-7)] child_after_newline [OF assms(1), of src] assms(3)
  by (auto simp: stdout_of_emit)

theorem line_filter_pipeline_witness:
  "\<exists>p evs. parent_main (\<lambda>_. True) \<lparr>wr = \<lambda>_. 0, pl = \<lambda>k. 1, pe = \<lambda>_. 0\<rparr>
       \<lparr>bytes = ''Ab'' @ [NL] @ ''cd'', fin = 0\<rparr> \<lparr>bytes = [NL, NL], fin = 0\<rparr> = Some p \<and>
    child_main (\<lambda>_. True) (\<lambda>_. 0) \<lparr>bytes = piped p, fin = 0\<rparr> = Some (evs, 0) \<and>
    stdout_of evs = ''Ab'' @ [NL]"
proof -
  have lines: "text_lines (''Ab'' @ [NL] @ ''cd'') = [''Ab'', ''cd'']" "text_lines [NL, NL] = [[], [], []]"
    by (simp_all add: NL_def)
  have "filter accepted [''Ab'', ''cd''] = [''Ab'']" "c_str ''Ab'' = ''Ab''"
    by (simp_all add: accepted_def is_upper_def c_str_def)
  then show ?thesis
    using line_filter_pipeline [of "\<lambda>_. True" "\<lparr>wr = \<lambda>_. 0, pl = \<lambda>k. 1, pe = \<lambda>_. 0\<rparr>"
        "\<lparr>bytes = ''Ab'' @ [NL] @ ''cd'', fin = 0\<rparr>" "\<lparr>bytes = [NL, NL], fin = 0\<rparr>"]
    by (simp only: source.simps os_answers.simps lines) (auto simp: lines)
qed

text \<open>
  A spurious error message. The parent writes the empty string after the last newline of
  its input to the child as one more line before it notices the end of the file. So for an input
  that ends with a newline, even one whose lines are all accepted, the child's last output is the
  message \<open>invalid string\<close>.
\<close>

theorem line_filter_spurious_error:
  assumes "\<forall>k. ok k" "\<forall>k. wr an k = 0 \<and> pl an k \<in> {0, 1}"
    and "length (bytes src) + 1 < 2 ^ 29" "fin src = 0" "length (bytes ce) < 2 ^ 29" "fin ce = 0"
    and "length (text_lines (bytes src)) < length (text_lines (bytes ce))"
    and "bytes src = txt @ [NL]" "\<forall>l \<in> set (text_lines txt). accepted l"
  shows "\<exists>p. parent_main ok an src ce = Some p \<and>
    child_main ok (\<lambda>_. 0) \<lparr>bytes = piped p, fin = 0\<rparr> =
      Some (map (\<lambda>l. Stdout (c_str l @ [NL])) (text_lines txt) @ [Stderr invalid_string], 0)"
proof -
  have "map emit (text_lines (bytes src)) =
      map (\<lambda>l. Stdout (c_str l @ [NL])) (text_lines txt) @ [Stderr invalid_string]"
    using assms(9) by (simp add: assms(8) pieces_append_term emit_accepted)
      (simp add: accepted_def)
  then show ?thesis
    using parent_pipes [OF assms(1,2) _ assms(4-7)] child_after_newline [OF assms(1), of src] assms(3)
    by auto
qed

theorem line_filter_spurious_error_witness:
  "\<exists>p. parent_main (\<lambda>_. True) \<lparr>wr = \<lambda>_. 0, pl = \<lambda>k. 0, pe = \<lambda>_. 0\<rparr>
       \<lparr>bytes = ''Ab'' @ [NL], fin = 0\<rparr> \<lparr>bytes = [NL, NL], fin = 0\<rparr> = Some p \<and>
    child_main (\<lambda>_. True) (\<lambda>_. 0) \<lparr>bytes = piped p, fin = 0\<rparr> =
      Some ([Stdout (''Ab'' @ [NL]), Stderr invalid_string], 0)"
proof -
  have lines: "text_lines (''Ab'' @ [NL]) = [''Ab'', []]" "text_lines ''Ab'' = [''Ab'']"
      "text_lines [NL, NL] = [[], [], []]" "accepted ''Ab''" "c_str ''Ab'' = ''Ab''"
    by (simp_all add: NL_def accepted_def is_upper_def c_str_def)
  then show ?thesis
    using line_filter_spurious_error [of "\<lambda>_. True" "\<lparr>wr = \<lambda>_. 0, pl = \<lambda>k. 0, pe = \<lambda>_. 0\<rparr>"
        "\<lparr>bytes = ''Ab'' @ [NL], fin = 0\<rparr>" "\<lparr>bytes = [NL, NL], fin = 0\<rparr>" "''Ab''"]
    by (simp only: source.simps os_answers.simps lines) (auto simp: lines)
qed

end
