(* ===== verification/HashMapApi.thy ===== *)
theory HashMapApi
  imports Prelude "HOL-Library.AList"
begin

text \<open>
  The hash map of both lab 6 programs is a git submodule (DavidLeeds/hashmap) whose files are not
  in the repository. It is a parameter: a record of the operations the sources call, on an unknown
  state \<open>'h\<close>. \<open>hashmap_laws\<close> states their documented behaviour, with a lookup function as the
  abstraction; \<open>alist_map\<close> is an instance, which shows that the laws can hold.
\<close>

record ('h, 'd) hashmap_ops =
  hashmap_init :: 'h
  hashmap_get :: "'h \<Rightarrow> string \<Rightarrow> 'd option"              \<comment> \<open>\<open>None\<close> for a NULL result\<close>
  hashmap_put :: "'h \<Rightarrow> string \<Rightarrow> 'd \<Rightarrow> int \<times> 'h"
  hashmap_remove :: "'h \<Rightarrow> string \<Rightarrow> 'h"
  hashmap_entries :: "'h \<Rightarrow> (string \<times> 'd) list"          \<comment> \<open>in the order of \<open>hashmap_foreach\<close>\<close>

abbreviation EEXIST :: int where "EEXIST \<equiv> 17"

text \<open>
  A put under a new key succeeds with 0; a put under a present key answers \<open>-EEXIST\<close> and changes
  nothing. The loops over the map visit every entry once.
\<close>

definition hashmap_laws :: "('h, 'd) hashmap_ops \<Rightarrow> bool" where
  "hashmap_laws hm \<longleftrightarrow>
     (\<forall>k. hashmap_get hm (hashmap_init hm) k = None) \<and>
     (\<forall>h k d. hashmap_get hm h k = None \<longrightarrow>
        (\<exists>h'. hashmap_put hm h k d = (0, h') \<and> hashmap_get hm h' = (hashmap_get hm h)(k \<mapsto> d))) \<and>
     (\<forall>h k d. hashmap_get hm h k \<noteq> None \<longrightarrow> hashmap_put hm h k d = (- EEXIST, h)) \<and>
     (\<forall>h k. hashmap_get hm (hashmap_remove hm h k) = (hashmap_get hm h)(k := None)) \<and>
     (\<forall>h. map_of (hashmap_entries hm h) = hashmap_get hm h \<and> distinct (map fst (hashmap_entries hm h)))"

lemma hashmap_put_new:
  assumes "hashmap_laws hm" "hashmap_get hm h k = None"
  obtains h' where "hashmap_put hm h k d = (0, h')" "hashmap_get hm h' = (hashmap_get hm h)(k \<mapsto> d)"
  using assms unfolding hashmap_laws_def by blast

lemma hashmap_put_present:
  "hashmap_laws hm \<Longrightarrow> hashmap_get hm h k \<noteq> None \<Longrightarrow> hashmap_put hm h k d = (- EEXIST, h)"
  unfolding hashmap_laws_def by blast

lemma hashmap_get_remove:
  "hashmap_laws hm \<Longrightarrow> hashmap_get hm (hashmap_remove hm h k) = (hashmap_get hm h)(k := None)"
  unfolding hashmap_laws_def by blast

lemma hashmap_get_init: "hashmap_laws hm \<Longrightarrow> hashmap_get hm (hashmap_init hm) k = None"
  unfolding hashmap_laws_def by blast

lemma hashmap_entries_get:
  "hashmap_laws hm \<Longrightarrow> map_of (hashmap_entries hm h) = hashmap_get hm h"
  "hashmap_laws hm \<Longrightarrow> distinct (map fst (hashmap_entries hm h))"
  unfolding hashmap_laws_def by blast+

section \<open>An instance\<close>

definition alist_map :: "((string \<times> 'd) list, 'd) hashmap_ops" where
  "alist_map = \<lparr>
     hashmap_init = [],
     hashmap_get = map_of,
     hashmap_put = (\<lambda>h k d. if map_of h k = None then (0, (k, d) # h) else (- EEXIST, h)),
     hashmap_remove = (\<lambda>h k. filter (\<lambda>e. fst e \<noteq> k) h),
     hashmap_entries = (\<lambda>h. AList.clearjunk h)\<rparr>"

lemma alist_map_laws: "hashmap_laws alist_map"
proof -
  have "map_of (filter (\<lambda>e. fst e \<noteq> k) h) = (map_of h)(k := None)" for h :: "(string \<times> 'a) list" and k
    by (induction h) (auto simp: fun_eq_iff)
  then show ?thesis
    by (auto simp: hashmap_laws_def alist_map_def map_of_clearjunk distinct_clearjunk)
qed

end
