(* ===== verification/MqNode.thy ===== *)
theory MqNode
  imports CString
begin

text \<open>
  Sockets of a node: \<^verbatim>\<open>lab6/structures/mq_node.{h,c}\<close>. A node has a socket pair towards its
  parent and up to two children, each with a main and a ping socket. Messages are arrays of C
  strings closed by a NULL entry, sent as one multi-part ZeroMQ message.

  ZeroMQ is a parameter: a record of its functions on an unknown state. \<open>zmq_link\<close> and
  \<open>zmq_accepts\<close> state what the code relies on of its documented behaviour. An entry of a message
  array is a \<open>string option\<close>, \<open>None\<close> for a NULL pointer; a string is what the C string functions
  see of it. A failed \<open>assert\<close> is \<open>None\<close>, like undefined behaviour: the process is gone.
\<close>

section \<open>ZeroMQ as a parameter\<close>

record 'z zmq =
  zmq_ctx_new :: "'z \<Rightarrow> addr \<times> 'z"
  zmq_ctx_destroy :: "addr \<Rightarrow> 'z \<Rightarrow> 'z"
  zmq_socket :: "addr \<Rightarrow> 'z \<Rightarrow> addr \<times> 'z"
  zmq_bind :: "addr \<Rightarrow> string \<Rightarrow> 'z \<Rightarrow> int \<times> 'z"
  zmq_connect :: "addr \<Rightarrow> string \<Rightarrow> 'z \<Rightarrow> int \<times> 'z"
  zmq_close :: "addr \<Rightarrow> 'z \<Rightarrow> int \<times> 'z"
  zmq_msg_send :: "addr \<Rightarrow> string \<Rightarrow> bool \<Rightarrow> 'z \<Rightarrow> int \<times> 'z"   \<comment> \<open>the flag is \<open>ZMQ_SNDMORE\<close>\<close>
  zmq_msg_recv :: "addr \<Rightarrow> 'z \<Rightarrow> string option \<times> 'z"         \<comment> \<open>\<open>None\<close> for the result -1\<close>
  zmq_rcvmore :: "addr \<Rightarrow> 'z \<Rightarrow> int \<times> int \<times> 'z"            \<comment> \<open>the result and the value of \<open>more\<close>\<close>

text \<open>\<open>rc = f(..); assert(rc == 0)\<close> and \<open>assert(rc != -1)\<close>.\<close>

definition assert_zero :: "int \<times> 'z \<Rightarrow> 'z option" where
  "assert_zero r = (if fst r = 0 then Some (snd r) else None)"

definition assert_sent :: "int \<times> 'z \<Rightarrow> 'z option" where
  "assert_sent r = (if fst r \<noteq> -1 then Some (snd r) else None)"

section \<open>State and operations\<close>

record mq_node =
  context_ptr :: addr
  main_socket :: addr
  ping_socket :: addr
  left_child_id :: int
  right_child_id :: int
  left_child_main_socket :: addr
  right_child_main_socket :: addr
  left_child_ping_socket :: addr
  right_child_ping_socket :: addr

definition mqn_init :: "'z zmq \<Rightarrow> 'z \<Rightarrow> mq_node \<times> 'z" where
  "mqn_init q z =
    (let (c, z1) = zmq_ctx_new q z; (s, z2) = zmq_socket q c z1; (p, z3) = zmq_socket q c z2 in
     (\<lparr>context_ptr = c, main_socket = s, ping_socket = p, left_child_id = -1, right_child_id = -1,
       left_child_main_socket = NULL, right_child_main_socket = NULL,
       left_child_ping_socket = NULL, right_child_ping_socket = NULL\<rparr>, z3))"

definition mqn_bind :: "'z zmq \<Rightarrow> mq_node \<Rightarrow> string \<Rightarrow> string \<Rightarrow> 'z \<Rightarrow> 'z option" where
  "mqn_bind q m main_addr ping_addr z = do {
     z1 \<leftarrow> assert_zero (zmq_bind q (main_socket m) main_addr z);
     assert_zero (zmq_bind q (ping_socket m) ping_addr z1)
   }"

text \<open>The two sockets to a new child: created, then connected one after the other.\<close>

definition connect_pair ::
    "'z zmq \<Rightarrow> mq_node \<Rightarrow> string option \<Rightarrow> string option \<Rightarrow> 'z \<Rightarrow> (addr \<times> addr \<times> 'z) option" where
  "connect_pair q m main_addr ping_addr z =
    (let (s, z1) = zmq_socket q (context_ptr m) z; (p, z2) = zmq_socket q (context_ptr m) z1 in
     do {
       a1 \<leftarrow> main_addr;
       z3 \<leftarrow> assert_zero (zmq_connect q s a1 z2);
       a2 \<leftarrow> ping_addr;
       z4 \<leftarrow> assert_zero (zmq_connect q p a2 z3);
       Some (s, p, z4)
     })"

definition mqn_connect ::
    "'z zmq \<Rightarrow> mq_node \<Rightarrow> int \<Rightarrow> string option \<Rightarrow> string option \<Rightarrow> 'z \<Rightarrow> (mq_node \<times> 'z) option" where
  "mqn_connect q m node_id main_addr ping_addr z =
    (if left_child_id m = -1 then do {
       (s, p, z') \<leftarrow> connect_pair q m main_addr ping_addr z;
       Some (m\<lparr>left_child_main_socket := s, left_child_ping_socket := p, left_child_id := node_id\<rparr>, z')
     }
     else if right_child_id m = -1 then do {
       (s, p, z') \<leftarrow> connect_pair q m main_addr ping_addr z;
       Some (m\<lparr>right_child_main_socket := s, right_child_ping_socket := p, right_child_id := node_id\<rparr>, z')
     }
     else Some (m, z))"

text \<open>
  \<open>mqn_receive\<close>: the parts of one message are stored in consecutive entries of the caller's array;
  nothing stops the loop at the end of that array, where the store faults. The result is the
  number of parts, the array and the new state.
\<close>

function receive_loop ::
    "'z zmq \<Rightarrow> addr \<Rightarrow> nat \<Rightarrow> string option list \<Rightarrow> 'z \<Rightarrow> (nat \<times> string option list \<times> 'z) option" where
  "receive_loop q sock i message z =
    (case zmq_msg_recv q sock z of
       (None, z1) \<Rightarrow> Some (i, message, z1)
     | (Some part, z1) \<Rightarrow>
         if i < length message then
           (let message' = message[i := Some (c_str part)]; (rc, more, z2) = zmq_rcvmore q sock z1 in
            if rc \<noteq> 0 then None
            else if more \<noteq> 0 then receive_loop q sock (Suc i) message' z2
            else Some (Suc i, message', z2))
         else None)"
  by pat_completeness auto
termination
  by (relation "measure (\<lambda>(q, sock, i, message, z). length message - i)") auto

declare receive_loop.simps [simp del]

definition mqn_receive ::
    "'z zmq \<Rightarrow> addr \<Rightarrow> string option list \<Rightarrow> 'z \<Rightarrow> (nat \<times> string option list \<times> 'z) option" where
  "mqn_receive q sock message z = receive_loop q sock 0 message z"

text \<open>
  \<open>mqn_push\<close>: all entries but the last before the NULL are sent with \<open>ZMQ_SNDMORE\<close>. The test
  reads the entry behind the current one, which must lie inside the array.
\<close>

fun mqn_push :: "'z zmq \<Rightarrow> addr \<Rightarrow> string option list \<Rightarrow> 'z \<Rightarrow> 'z option" where
  "mqn_push q sock [] z = None"
| "mqn_push q sock [m] z = None"
| "mqn_push q sock (m # m' # ms) z =
    (case m of
       None \<Rightarrow> None
     | Some s \<Rightarrow>
         (case m' of
            None \<Rightarrow> assert_sent (zmq_msg_send q sock s False z)
          | Some _ \<Rightarrow> do {
              z1 \<leftarrow> assert_sent (zmq_msg_send q sock s True z);
              mqn_push q sock (m' # ms) z1
            }))"

definition mqn_push_all :: "'z zmq \<Rightarrow> mq_node \<Rightarrow> string option list \<Rightarrow> 'z \<Rightarrow> 'z option" where
  "mqn_push_all q m message z = do {
     z1 \<leftarrow> (if left_child_main_socket m \<noteq> NULL
           then mqn_push q (left_child_main_socket m) message z else Some z);
     if right_child_main_socket m \<noteq> NULL
     then mqn_push q (right_child_main_socket m) message z1 else Some z1
   }"

definition mqn_reply :: "'z zmq \<Rightarrow> mq_node \<Rightarrow> string option list \<Rightarrow> 'z \<Rightarrow> 'z option" where
  "mqn_reply q m message z = mqn_push q (main_socket m) message z"

definition mqn_close :: "'z zmq \<Rightarrow> mq_node \<Rightarrow> int \<Rightarrow> 'z \<Rightarrow> (mq_node \<times> 'z) option" where
  "mqn_close q m node_id z =
    (if left_child_id m = node_id then do {
       z1 \<leftarrow> assert_zero (zmq_close q (left_child_main_socket m) z);
       z2 \<leftarrow> assert_zero (zmq_close q (left_child_ping_socket m) z1);
       Some (m\<lparr>left_child_main_socket := NULL, left_child_ping_socket := NULL, left_child_id := -1\<rparr>, z2)
     }
     else if right_child_id m = node_id then do {
       z1 \<leftarrow> assert_zero (zmq_close q (right_child_main_socket m) z);
       z2 \<leftarrow> assert_zero (zmq_close q (right_child_ping_socket m) z1);
       Some (m\<lparr>right_child_main_socket := NULL, right_child_ping_socket := NULL, right_child_id := -1\<rparr>, z2)
     }
     else Some (m, z))"

definition mqn_destroy :: "'z zmq \<Rightarrow> mq_node \<Rightarrow> 'z \<Rightarrow> (mq_node \<times> 'z) option" where
  "mqn_destroy q m z = do {
     (m1, z1) \<leftarrow> (if left_child_id m \<noteq> -1 then mqn_close q m (left_child_id m) z else Some (m, z));
     (m2, z2) \<leftarrow> (if right_child_id m1 \<noteq> -1 then mqn_close q m1 (right_child_id m1) z1 else Some (m1, z1));
     z3 \<leftarrow> assert_zero (zmq_close q (main_socket m2) z2);
     z4 \<leftarrow> assert_zero (zmq_close q (ping_socket m2) z3);
     Some (m2\<lparr>main_socket := NULL, ping_socket := NULL, context_ptr := NULL\<rparr>,
           zmq_ctx_destroy q (context_ptr m2) z4)
   }"

section \<open>Messages on a link\<close>

text \<open>Sending the strings \<open>ps\<close> as one message.\<close>

fun send_parts :: "'z zmq \<Rightarrow> addr \<Rightarrow> string list \<Rightarrow> 'z \<Rightarrow> 'z option" where
  "send_parts q sock [] z = None"
| "send_parts q sock [p] z = assert_sent (zmq_msg_send q sock p False z)"
| "send_parts q sock (p # p' # ps) z = do {
     z1 \<leftarrow> assert_sent (zmq_msg_send q sock p True z);
     send_parts q sock (p' # ps) z1
   }"

lemma mqn_push_parts:
  "ps \<noteq> [] \<Longrightarrow> mqn_push q sock (map Some ps @ None # ms) z = send_parts q sock ps z"
proof (induction ps arbitrary: z)
  case (Cons p ps)
  then show ?case by (cases ps) (auto simp: fun_eq_iff intro: arg_cong [where f = "Option.bind _"])
qed simp

text \<open>
  A connected pair of sockets: what is sent on \<open>s\<close> is queued, each part with its flag, and
  received on \<open>r\<close> in this order; \<open>ZMQ_RCVMORE\<close> is the flag of the part received last.
\<close>

definition zmq_link :: "'z zmq \<Rightarrow> addr \<Rightarrow> addr \<Rightarrow> ('z \<Rightarrow> (string \<times> bool) list) \<Rightarrow> bool" where
  "zmq_link q s r queue \<longleftrightarrow>
     (\<forall>p more z. \<exists>z'. assert_sent (zmq_msg_send q s p more z) = Some z' \<and> queue z' = queue z @ [(p, more)]) \<and>
     (\<forall>z. queue z = [] \<longrightarrow> (\<exists>z'. zmq_msg_recv q r z = (None, z') \<and> queue z' = [])) \<and>
     (\<forall>z p more xs. queue z = (p, more) # xs \<longrightarrow>
        (\<exists>z1 n z2. zmq_msg_recv q r z = (Some p, z1) \<and> zmq_rcvmore q r z1 = (0, n, z2) \<and>
           (n \<noteq> 0 \<longleftrightarrow> more) \<and> queue z2 = xs))"

text \<open>The parts of a message with their flags.\<close>

fun flagged :: "string list \<Rightarrow> (string \<times> bool) list" where
  "flagged [] = []"
| "flagged (p # ps) = (p, ps \<noteq> []) # flagged ps"

lemma send_parts_queue:
  assumes "zmq_link q s r queue"
  shows "ps \<noteq> [] \<Longrightarrow> \<exists>z'. send_parts q s ps z = Some z' \<and> queue z' = queue z @ flagged ps"
proof (induction ps arbitrary: z)
  case (Cons p ps)
  obtain z1 where z1: "assert_sent (zmq_msg_send q s p (ps \<noteq> []) z) = Some z1"
      "queue z1 = queue z @ [(p, ps \<noteq> [])]"
    using assms unfolding zmq_link_def by blast
  then show ?case using Cons.IH [of z1] by (cases ps) auto
qed simp

lemma receive_parts:
  assumes link: "zmq_link q s r queue"
  shows "ps \<noteq> [] \<Longrightarrow> queue z = flagged ps @ later \<Longrightarrow> i + length ps \<le> length message \<Longrightarrow>
    \<exists>z'. receive_loop q r i message z =
       Some (i + length ps, take i message @ map (Some \<circ> c_str) ps @ drop (i + length ps) message, z') \<and>
     queue z' = later"
proof (induction ps arbitrary: i message z)
  case (Cons p ps)
  obtain z1 n z2 where z2: "zmq_msg_recv q r z = (Some p, z1)" "zmq_rcvmore q r z1 = (0, n, z2)"
      "(n \<noteq> 0) = (ps \<noteq> [])" "queue z2 = flagged ps @ later"
    using link Cons.prems(2) unfolding zmq_link_def by fastforce
  let ?m = "message[i := Some (c_str p)]"
  have i: "i < length message" using Cons.prems(3) by simp
  have store: "take (Suc i) ?m = take i message @ [Some (c_str p)]"
    using i by (simp add: take_Suc_conv_app_nth)
  show ?case
  proof (cases "ps = []")
    case True
    with z2 i store show ?thesis
      by (subst receive_loop.simps) (simp add: upd_conv_take_nth_drop)
  next
    case False
    with Cons.IH [of z2 "Suc i" ?m] z2(4) Cons.prems(3) obtain z' where
      "receive_loop q r (Suc i) ?m z2 = Some (Suc i + length ps,
         take (Suc i) ?m @ map (Some \<circ> c_str) ps @ drop (Suc i + length ps) ?m, z')" "queue z' = later"
      by auto
    with False z2 i store show ?thesis by (subst receive_loop.simps) simp
  qed
qed simp

lemma receive_overflow:
  assumes link: "zmq_link q s r queue"
  shows "queue z = flagged ps @ later \<Longrightarrow> length message < i + length ps \<Longrightarrow> i \<le> length message \<Longrightarrow>
    receive_loop q r i message z = None"
proof (induction ps arbitrary: i message z)
  case (Cons p ps)
  obtain z1 n z2 where z2: "zmq_msg_recv q r z = (Some p, z1)" "zmq_rcvmore q r z1 = (0, n, z2)"
      "(n \<noteq> 0) = (ps \<noteq> [])" "queue z2 = flagged ps @ later"
    using link Cons.prems(1) unfolding zmq_link_def by fastforce
  show ?case
  proof (cases "i < length message")
    case True
    then have "ps \<noteq> []" using Cons.prems(2) by auto
    with Cons.IH [of z2 "message[i := Some (c_str p)]" "Suc i"] Cons.prems(2) z2 True show ?thesis
      by (subst receive_loop.simps) simp
  qed (use z2 in \<open>subst receive_loop.simps, simp\<close>)
qed simp

section \<open>Children\<close>

definition mqn_inv :: "mq_node \<Rightarrow> bool" where
  "mqn_inv m \<longleftrightarrow>
     (left_child_id m = -1 \<longleftrightarrow> left_child_main_socket m = NULL) \<and>
     (left_child_id m = -1 \<longleftrightarrow> left_child_ping_socket m = NULL) \<and>
     (right_child_id m = -1 \<longleftrightarrow> right_child_main_socket m = NULL) \<and>
     (right_child_id m = -1 \<longleftrightarrow> right_child_ping_socket m = NULL) \<and>
     (left_child_id m \<noteq> -1 \<longrightarrow> left_child_id m \<noteq> right_child_id m)"

definition children :: "mq_node \<Rightarrow> int list" where
  "children m = filter (\<lambda>i. i \<noteq> -1) [left_child_id m, right_child_id m]"

text \<open>New sockets are not NULL, a child's address can be connected to, and a valid socket closes.\<close>

definition zmq_accepts :: "'z zmq \<Rightarrow> string set \<Rightarrow> bool" where
  "zmq_accepts q addrs \<longleftrightarrow>
     (\<forall>c z. fst (zmq_socket q c z) \<noteq> NULL) \<and>
     (\<forall>s a z. s \<noteq> NULL \<and> a \<in> addrs \<longrightarrow> fst (zmq_connect q s a z) = 0) \<and>
     (\<forall>s z. s \<noteq> NULL \<longrightarrow> fst (zmq_close q s z) = 0)"

lemma connect_pair_ok:
  assumes "zmq_accepts q {a1, a2}"
  obtains s p z' where "connect_pair q m (Some a1) (Some a2) z = Some (s, p, z')" "s \<noteq> NULL" "p \<noteq> NULL"
proof -
  obtain s z1 where s: "zmq_socket q (context_ptr m) z = (s, z1)" by fastforce
  obtain p z2 where p: "zmq_socket q (context_ptr m) z1 = (p, z2)" by fastforce
  have nz: "s \<noteq> NULL" "p \<noteq> NULL"
    using assms s p unfolding zmq_accepts_def by (metis fst_conv)+
  then have "fst (zmq_connect q s a1 z2) = 0" "\<And>z3. fst (zmq_connect q p a2 z3) = 0"
    using assms by (auto simp: zmq_accepts_def)
  with s p have "\<exists>z'. connect_pair q m (Some a1) (Some a2) z = Some (s, p, z')"
    by (simp add: connect_pair_def assert_zero_def)
  then show thesis using that nz by blast
qed

lemma mqn_connect_spec:
  assumes "mqn_inv m" "zmq_accepts q {a1, a2}" "node_id \<noteq> -1" "node_id \<notin> set (children m)"
  shows "\<exists>m' z'. mqn_connect q m node_id (Some a1) (Some a2) z = Some (m', z') \<and> mqn_inv m' \<and>
    set (children m') = (if length (children m) < 2 then insert node_id (set (children m)) else set (children m)) \<and>
    main_socket m' = main_socket m \<and> ping_socket m' = ping_socket m"
proof -
  obtain s p z' where "connect_pair q m (Some a1) (Some a2) z = Some (s, p, z')" "s \<noteq> NULL" "p \<noteq> NULL"
    using connect_pair_ok [OF assms(2)] by blast
  with assms show ?thesis
    by (auto simp: mqn_connect_def mqn_inv_def children_def)
qed

lemma mqn_close_spec:
  assumes "mqn_inv m" "zmq_accepts q {}" "node_id \<noteq> -1"
  shows "\<exists>m' z'. mqn_close q m node_id z = Some (m', z') \<and> mqn_inv m' \<and>
    set (children m') = set (children m) - {node_id} \<and>
    main_socket m' = main_socket m \<and> ping_socket m' = ping_socket m"
proof -
  have close: "\<exists>z'. assert_zero (zmq_close q s z) = Some z'" if "s \<noteq> NULL" for s z
    using assms(2) that by (simp add: zmq_accepts_def assert_zero_def)
  show ?thesis
  proof (cases "left_child_id m = node_id")
    case True
    then have "left_child_main_socket m \<noteq> NULL" "left_child_ping_socket m \<noteq> NULL"
      using assms by (auto simp: mqn_inv_def)
    then obtain z1 z2 where "assert_zero (zmq_close q (left_child_main_socket m) z) = Some z1"
        "assert_zero (zmq_close q (left_child_ping_socket m) z1) = Some z2"
      using close by blast
    with True assms show ?thesis by (auto simp: mqn_close_def mqn_inv_def children_def)
  next
    case left: False
    show ?thesis
    proof (cases "right_child_id m = node_id")
      case True
      then have "right_child_main_socket m \<noteq> NULL" "right_child_ping_socket m \<noteq> NULL"
        using assms by (auto simp: mqn_inv_def)
      then obtain z1 z2 where "assert_zero (zmq_close q (right_child_main_socket m) z) = Some z1"
          "assert_zero (zmq_close q (right_child_ping_socket m) z1) = Some z2"
        using close by blast
      with True left assms show ?thesis by (auto simp: mqn_close_def mqn_inv_def children_def)
    qed (use left assms in \<open>auto simp: mqn_close_def children_def\<close>)
  qed
qed

section \<open>Properties\<close>

text \<open>
  C37: messages arrive as they were sent. On a link whose queue is empty, pushing a message array
  of NUL-free strings and receiving it into an array with enough entries gives the number of
  parts and the same strings; the entries behind them keep their old contents.
\<close>

theorem push_receive_roundtrip:
  assumes "zmq_link q s r queue" "queue z = []"
    and "ps \<noteq> []" "\<forall>p \<in> set ps. CHR 0x00 \<notin> set p" "length ps \<le> length slots"
  shows "\<exists>z1 z2. mqn_push q s (map Some ps @ None # ms) z = Some z1 \<and>
    mqn_receive q r slots z1 = Some (length ps, map Some ps @ drop (length ps) slots, z2) \<and> queue z2 = []"
proof -
  obtain z1 where z1: "send_parts q s ps z = Some z1" "queue z1 = flagged ps"
    using send_parts_queue [OF assms(1,3), of z] assms(2) by auto
  have "map (Some \<circ> c_str) ps = map Some ps" using assms(4) by simp
  with receive_parts [OF assms(1,3), of z1 "[]" 0 slots] z1 assms(5) mqn_push_parts [OF assms(3), of q s ms z]
  show ?thesis by (auto simp: mqn_receive_def)
qed

text \<open>
  The array bound. A message with more parts than the receiver's array has entries is stored
  past the end of the array: \<open>mqn_receive\<close> faults.
\<close>

theorem receive_overflows_array:
  assumes "zmq_link q s r queue" "queue z = []" "length slots < length ps"
  shows "\<exists>z1. mqn_push q s (map Some ps @ None # ms) z = Some z1 \<and> mqn_receive q r slots z1 = None"
proof -
  have ps: "ps \<noteq> []" using assms(3) by auto
  obtain z1 where z1: "send_parts q s ps z = Some z1" "queue z1 = flagged ps"
    using send_parts_queue [OF assms(1) ps, of z] assms(2) by auto
  with receive_overflow [OF assms(1), of z1 ps "[]" slots 0] assms(3) mqn_push_parts [OF ps, of q s ms z]
  show ?thesis by (auto simp: mqn_receive_def)
qed

text \<open>
  C38: the children of a node. Connecting a new child keeps the socket table consistent and adds
  the child if one of the two places is free; with both places taken the call returns without any
  effect or error. Closing a child removes it. Neither touches the sockets towards the parent.
\<close>

theorem mqn_children_correct:
  assumes "mqn_inv m" "zmq_accepts q {a1, a2}" "node_id \<noteq> -1" "node_id \<notin> set (children m)" "c \<noteq> -1"
  shows "\<exists>m1 z1 m2 z2. mqn_connect q m node_id (Some a1) (Some a2) z = Some (m1, z1) \<and> mqn_inv m1 \<and>
      set (children m1) =
        (if length (children m) < 2 then insert node_id (set (children m)) else set (children m)) \<and>
      mqn_close q m1 c z1 = Some (m2, z2) \<and> mqn_inv m2 \<and> set (children m2) = set (children m1) - {c} \<and>
      main_socket m2 = main_socket m \<and> ping_socket m2 = ping_socket m"
proof -
  have "zmq_accepts q {}" using assms(2) by (simp add: zmq_accepts_def)
  with mqn_connect_spec [OF assms(1-4), of z] mqn_close_spec [OF _ _ assms(5)] show ?thesis
    by metis
qed

section \<open>A loopback instance\<close>

text \<open>Sockets are numbered from 1; what is sent on \<open>s\<close> is received on \<open>s XOR 1\<close>.\<close>

record wire =
  next_socket :: nat
  inbox :: "addr \<Rightarrow> (string \<times> bool) list"
  last_more :: bool

definition loopback :: "wire zmq" where
  "loopback = \<lparr>
     zmq_ctx_new = (\<lambda>w. (1, w)),
     zmq_ctx_destroy = (\<lambda>c w. w),
     zmq_socket = (\<lambda>c w. (if of_nat (next_socket w) = NULL then 1 else of_nat (next_socket w),
        w\<lparr>next_socket := Suc (next_socket w)\<rparr>)),
     zmq_bind = (\<lambda>s a w. (0, w)),
     zmq_connect = (\<lambda>s a w. (0, w)),
     zmq_close = (\<lambda>s w. (0, w)),
     zmq_msg_send = (\<lambda>s p fl w.
        (int (length p), w\<lparr>inbox := (inbox w)(s XOR 1 := inbox w (s XOR 1) @ [(p, fl)])\<rparr>)),
     zmq_msg_recv = (\<lambda>s w. case inbox w s of
        [] \<Rightarrow> (None, w)
      | (p, fl) # xs \<Rightarrow> (Some p, w\<lparr>inbox := (inbox w)(s := xs), last_more := fl\<rparr>)),
     zmq_rcvmore = (\<lambda>s w. (0, if last_more w then 1 else 0, w))\<rparr>"

definition idle :: wire where
  "idle = \<lparr>next_socket = 1, inbox = (\<lambda>_. []), last_more = False\<rparr>"

lemma loopback_link: "zmq_link loopback 4 5 (\<lambda>w. inbox w 5)"
  by (auto simp: zmq_link_def loopback_def assert_sent_def)

lemma loopback_accepts: "zmq_accepts loopback addrs"
  by (auto simp: zmq_accepts_def loopback_def)

theorem push_receive_roundtrip_witness:
  "\<exists>z1 z2. mqn_push loopback 4 [Some ''ping'', Some ''7'', None] idle = Some z1 \<and>
    mqn_receive loopback 5 [None, None, Some ''old''] z1 = Some (2, [Some ''ping'', Some ''7'', Some ''old''], z2)"
  using push_receive_roundtrip [OF loopback_link, of idle "[''ping'', ''7'']" "[None, None, Some ''old'']" "[]"]
  by (auto simp: idle_def)

theorem receive_overflows_array_witness:
  "\<exists>z1. mqn_push loopback 4 [Some ''ping'', Some ''7'', None] idle = Some z1 \<and>
    mqn_receive loopback 5 [None] z1 = None"
  using receive_overflows_array [OF loopback_link, of idle "[None]" "[''ping'', ''7'']" "[]"]
  by (auto simp: idle_def)

definition demo_mq :: mq_node where
  "demo_mq = fst (mqn_init loopback idle)"

lemma demo_mq_inv: "mqn_inv demo_mq" "children demo_mq = []"
  by (simp_all add: demo_mq_def mqn_init_def mqn_inv_def children_def split_beta Let_def)

theorem mqn_children_correct_witness:
  "\<exists>m1 z1 m2 z2. mqn_connect loopback demo_mq 3 (Some ''a'') (Some ''b'') idle = Some (m1, z1) \<and>
      set (children m1) = {3} \<and> mqn_close loopback m1 3 z1 = Some (m2, z2) \<and> set (children m2) = {}"
  using mqn_children_correct [OF demo_mq_inv(1) loopback_accepts, of 3 3 "''a''" "''b''" idle]
  by (auto simp: demo_mq_inv)

end
