(* ===== verification/ComputeNode.thy ===== *)
theory ComputeNode
  imports MqNode HashMapApi
begin

text \<open>
  A compute node: \<^verbatim>\<open>lab6/compute_node.c\<close>. A node keeps a map of variables, answers the commands
  that are addressed to it on its main socket, passes the others on to its children, and hands
  the answers of its children to its parent. All handlers work on one array of seven message
  entries. A handler's result is the new state, or \<open>None\<close> if the process faults or an
  assertion fails.
\<close>

section \<open>State\<close>

record ('z, 'h) compute =
  NODE_ID :: string
  COMPUTE_NODE :: mq_node
  CHI_MAP :: 'h
  zmq_state :: 'z
  exited :: bool

abbreviation CODE_OK :: int where "CODE_OK \<equiv> 1"
abbreviation CODE_ERROR_NOT_FOUND :: int where "CODE_ERROR_NOT_FOUND \<equiv> 2"
abbreviation CODE_ERROR_CUSTOM :: int where "CODE_ERROR_CUSTOM \<equiv> 3"
abbreviation ERROR_NOT_FOUND :: string where "ERROR_NOT_FOUND \<equiv> ''Not found''"

text \<open>An entry of the message array; using the string behind it faults if there is none.\<close>

definition slot :: "string option list \<Rightarrow> nat \<Rightarrow> string option" where
  "slot message k = (if k < length message then message ! k else None)"

text \<open>\<open>clean_buffer\<close> frees up to the first NULL, which must lie inside the array.\<close>

fun clean_buffer :: "string option list \<Rightarrow> string option list option" where
  "clean_buffer [] = None"
| "clean_buffer (None # bs) = Some (None # bs)"
| "clean_buffer (Some _ # bs) = map_option (Cons None) (clean_buffer bs)"

definition with_zmq :: "('z, 'h) compute \<Rightarrow> 'z option \<Rightarrow> ('z, 'h) compute option" where
  "with_zmq st r = map_option (\<lambda>z. st\<lparr>zmq_state := z\<rparr>) r"

section \<open>Handlers\<close>

definition reply_parts ::
    "'z zmq \<Rightarrow> ('z, 'h) compute \<Rightarrow> string option list \<Rightarrow> ('z, 'h) compute option" where
  "reply_parts q st mes = with_zmq st (mqn_reply q (COMPUTE_NODE st) mes (zmq_state st))"

definition reply_not_found ::
    "'z zmq \<Rightarrow> ('z, 'h) compute \<Rightarrow> string option \<Rightarrow> string option \<Rightarrow> string option \<Rightarrow> ('z, 'h) compute option" where
  "reply_not_found q st uuid command node_id =
     reply_parts q st [uuid, command, node_id, Some (int_to_str CODE_ERROR_NOT_FOUND), Some ERROR_NOT_FOUND, None]"

definition reply_ok ::
    "'z zmq \<Rightarrow> ('z, 'h) compute \<Rightarrow> string option \<Rightarrow> string option \<Rightarrow> string option \<Rightarrow> ('z, 'h) compute option" where
  "reply_ok q st uuid command node_id =
     reply_parts q st [uuid, command, node_id, Some (int_to_str CODE_OK), Some ''OK'', None]"

definition push_next :: "'z zmq \<Rightarrow> ('z, 'h) compute \<Rightarrow> string option list \<Rightarrow> ('z, 'h) compute option" where
  "push_next q st message =
    (if left_child_main_socket (COMPUTE_NODE st) \<noteq> NULL \<or> right_child_main_socket (COMPUTE_NODE st) \<noteq> NULL
     then with_zmq st (mqn_push_all q (COMPUTE_NODE st) message (zmq_state st))
     else reply_not_found q st (slot message 0) (slot message 1) (slot message 2))"

definition cmd_connect :: "'z zmq \<Rightarrow> ('z, 'h) compute \<Rightarrow> string option list \<Rightarrow> ('z, 'h) compute option" where
  "cmd_connect q st message = do {
     parent_id \<leftarrow> slot message 3;
     if NODE_ID st \<noteq> parent_id then do {
       node_id \<leftarrow> slot message 2;
       if NODE_ID st \<noteq> node_id then push_next q st message else Some st
     }
     else do {
       node_id \<leftarrow> slot message 2;
       (m, z) \<leftarrow> mqn_connect q (COMPUTE_NODE st) (long_to_int (strtol node_id))
                  (slot message 4) (slot message 5) (zmq_state st);
       reply_ok q (st\<lparr>COMPUTE_NODE := m, zmq_state := z\<rparr>) (slot message 0) (slot message 1) (slot message 2)
     }
   }"

definition cmd_remove :: "'z zmq \<Rightarrow> ('z, 'h) compute \<Rightarrow> string option list \<Rightarrow> ('z, 'h) compute option" where
  "cmd_remove q st message = do {
     node_id \<leftarrow> slot message 2;
     if node_id = NODE_ID st then do {
       st1 \<leftarrow> reply_ok q st (slot message 0) (slot message 1) (slot message 2);
       (m, z) \<leftarrow> mqn_destroy q (COMPUTE_NODE st1) (zmq_state st1);
       Some (st1\<lparr>COMPUTE_NODE := m, zmq_state := z, exited := True\<rparr>)
     }
     else push_next q st message
   }"

definition cmd_exec ::
    "'z zmq \<Rightarrow> ('h, int) hashmap_ops \<Rightarrow> ('z, 'h) compute \<Rightarrow> string option list \<Rightarrow> nat \<Rightarrow> ('z, 'h) compute option" where
  "cmd_exec q hm st message size_message = do {
     node_id \<leftarrow> slot message 2;
     if node_id = NODE_ID st then do {
       name \<leftarrow> slot message 3;
       if size_message = 4 then
         (case hashmap_get hm (CHI_MAP st) name of
            None \<Rightarrow> reply_parts q st [slot message 0, slot message 1, slot message 2,
                       Some (int_to_str CODE_ERROR_CUSTOM), Some (name @ '' not found''), None]
          | Some res \<Rightarrow> reply_parts q st [slot message 0, slot message 1, slot message 2,
                       Some (int_to_str CODE_OK), Some (int_to_str res), None])
       else do {
         value \<leftarrow> slot message 4;
         let (res, h) = hashmap_put hm (CHI_MAP st) name (long_to_int (strtol value));
         let st1 = st\<lparr>CHI_MAP := h\<rparr>;
         if res \<noteq> 0
         then reply_parts q st1 [slot message 0, slot message 1, slot message 2,
                Some (int_to_str CODE_ERROR_CUSTOM),
                Some (if res = - EEXIST then ''Already exists'' else ''Unknown error''), None]
         else reply_parts q st1 [slot message 0, slot message 1, slot message 2,
                Some (int_to_str CODE_OK), Some '''', None]
       }
     }
     else push_next q st message
   }"

definition cmd_ping :: "'z zmq \<Rightarrow> ('z, 'h) compute \<Rightarrow> string option list \<Rightarrow> ('z, 'h) compute option" where
  "cmd_ping q st message = do {
     node_id \<leftarrow> slot message 2;
     if node_id = NODE_ID st
     then reply_ok q st (slot message 0) (slot message 1) (slot message 2)
     else push_next q st message
   }"

definition cmd_disconnect :: "'z zmq \<Rightarrow> ('z, 'h) compute \<Rightarrow> string option list \<Rightarrow> ('z, 'h) compute option" where
  "cmd_disconnect q st message = do {
     node_id \<leftarrow> slot message 2;
     let int_node_id = long_to_int (strtol node_id);
     if left_child_id (COMPUTE_NODE st) = int_node_id \<or> right_child_id (COMPUTE_NODE st) = int_node_id
     then do {
       (m, z) \<leftarrow> mqn_close q (COMPUTE_NODE st) int_node_id (zmq_state st);
       reply_ok q (st\<lparr>COMPUTE_NODE := m, zmq_state := z\<rparr>) (slot message 0) (slot message 1) (slot message 2)
     }
     else push_next q st message
   }"

section \<open>The main loop\<close>

text \<open>\<open>!strncmp(command, p, n)\<close> with \<open>n\<close> the length of \<open>p\<close>.\<close>

definition starts_with :: "string \<Rightarrow> string \<Rightarrow> bool" where
  "starts_with p command \<longleftrightarrow> take (length p) command = p"

definition dispatch ::
    "'z zmq \<Rightarrow> ('h, int) hashmap_ops \<Rightarrow> ('z, 'h) compute \<Rightarrow> string option list \<Rightarrow> nat \<Rightarrow> ('z, 'h) compute option" where
  "dispatch q hm st buffer n = do {
     command \<leftarrow> slot buffer 1;
     if starts_with ''exec'' command then cmd_exec q hm st buffer n
     else if starts_with ''ping'' command then cmd_ping q st buffer
     else if starts_with ''remove'' command then cmd_remove q st buffer
     else if starts_with ''connect'' command \<or> starts_with ''create'' command then cmd_connect q st buffer
     else if starts_with ''disconnect'' command then cmd_disconnect q st buffer
     else Some st
   }"

text \<open>
  One of the six blocks of the loop: receive on a socket; if a message came, handle it and clean
  the array. Nothing runs once the process has exited.
\<close>

definition serve ::
    "'z zmq \<Rightarrow> (mq_node \<Rightarrow> addr) \<Rightarrow> (('z, 'h) compute \<Rightarrow> string option list \<Rightarrow> nat \<Rightarrow> ('z, 'h) compute option) \<Rightarrow>
     ('z, 'h) compute \<times> string option list \<Rightarrow> (('z, 'h) compute \<times> string option list) option" where
  "serve q sock handle s =
    (let (st, buffer) = s in
     if exited st then Some (st, buffer)
     else do {
       (n, buffer1, z) \<leftarrow> mqn_receive q (sock (COMPUTE_NODE st)) buffer (zmq_state st);
       let st1 = st\<lparr>zmq_state := z\<rparr>;
       if n > 0 then do {
         st2 \<leftarrow> handle st1 buffer1 n;
         if exited st2 then Some (st2, buffer1)
         else do { buffer2 \<leftarrow> clean_buffer buffer1; Some (st2, buffer2) }
       }
       else Some (st1, buffer1)
     })"

text \<open>The handlers of the other blocks: answers go up, pings go down with a pong up.\<close>

definition hand_up :: "'z zmq \<Rightarrow> ('z, 'h) compute \<Rightarrow> string option list \<Rightarrow> nat \<Rightarrow> ('z, 'h) compute option" where
  "hand_up q st buffer n = reply_parts q st buffer"

definition push_if :: "'z zmq \<Rightarrow> addr \<Rightarrow> string option list \<Rightarrow> 'z \<Rightarrow> 'z option" where
  "push_if q sock message z = (if sock \<noteq> NULL then mqn_push q sock message z else Some z)"

definition pong :: "'z zmq \<Rightarrow> ('z, 'h) compute \<Rightarrow> string option list \<Rightarrow> nat \<Rightarrow> ('z, 'h) compute option" where
  "pong q st buffer n = with_zmq st (do {
     z1 \<leftarrow> mqn_push q (ping_socket (COMPUTE_NODE st)) [Some ''pong'', Some (NODE_ID st), None] (zmq_state st);
     z2 \<leftarrow> push_if q (left_child_ping_socket (COMPUTE_NODE st)) buffer z1;
     push_if q (right_child_ping_socket (COMPUTE_NODE st)) buffer z2
   })"

definition hand_pong_up :: "'z zmq \<Rightarrow> ('z, 'h) compute \<Rightarrow> string option list \<Rightarrow> nat \<Rightarrow> ('z, 'h) compute option" where
  "hand_pong_up q st buffer n =
     with_zmq st (mqn_push q (ping_socket (COMPUTE_NODE st)) buffer (zmq_state st))"

definition compute_iteration ::
    "'z zmq \<Rightarrow> ('h, int) hashmap_ops \<Rightarrow> ('z, 'h) compute \<times> string option list \<Rightarrow>
     (('z, 'h) compute \<times> string option list) option" where
  "compute_iteration q hm s0 = do {
     s1 \<leftarrow> serve q main_socket (dispatch q hm) s0;
     s2 \<leftarrow> serve q left_child_main_socket (hand_up q) s1;
     s3 \<leftarrow> serve q right_child_main_socket (hand_up q) s2;
     s4 \<leftarrow> serve q ping_socket (pong q) s3;
     s5 \<leftarrow> serve q left_child_ping_socket (hand_pong_up q) s4;
     serve q right_child_ping_socket (hand_pong_up q) s5
   }"

text \<open>\<open>main\<close> up to its loop: \<open>Inl\<close> is the exit code of a wrong call.\<close>

definition compute_start ::
    "'z zmq \<Rightarrow> ('h, int) hashmap_ops \<Rightarrow> string list \<Rightarrow> 'z \<Rightarrow> (int + (('z, 'h) compute \<times> string option list)) option" where
  "compute_start q hm argv z =
    (if length argv \<noteq> 4 then Some (Inl 1)
     else
       let (m, z1) = mqn_init q z in do {
         z2 \<leftarrow> mqn_bind q m (argv ! 2) (argv ! 3) z1;
         Some (Inr (\<lparr>NODE_ID = argv ! 1, COMPUTE_NODE = m, CHI_MAP = hashmap_init hm,
                 zmq_state = z2, exited = False\<rparr>, replicate 7 None))
       })"

fun compute_run ::
    "'z zmq \<Rightarrow> ('h, int) hashmap_ops \<Rightarrow> nat \<Rightarrow> ('z, 'h) compute \<times> string option list \<Rightarrow>
     (('z, 'h) compute \<times> string option list) option" where
  "compute_run q hm 0 s = Some s"
| "compute_run q hm (Suc k) s = do { s' \<leftarrow> compute_iteration q hm s; compute_run q hm k s' }"

section \<open>Abstract specification\<close>

text \<open>
  What a node is to the rest of the system: an id, the set of its children, its variables. A
  request is a command with its arguments; \<open>parts\<close> is its message.
\<close>

datatype request =
    Connect bool int int string string     \<comment> \<open>create (or connect), child, parent, addresses\<close>
  | Remove int
  | Exec_get int string
  | Exec_set int string int
  | Ping int
  | Disconnect int

datatype effect = Answer int string | Pass_on | Silent

record abs_node =
  an_id :: int
  an_children :: "int set"
  an_vars :: "string \<rightharpoonup> int"
  an_alive :: bool

fun command_of :: "request \<Rightarrow> string" where
  "command_of (Connect c n p a b) = (if c then ''create'' else ''connect'')"
| "command_of (Remove n) = ''remove''"
| "command_of (Exec_get n x) = ''exec''"
| "command_of (Exec_set n x v) = ''exec''"
| "command_of (Ping n) = ''ping''"
| "command_of (Disconnect n) = ''disconnect''"

fun target :: "request \<Rightarrow> int" where
  "target (Connect c n p a b) = n"
| "target (Remove n) = n"
| "target (Exec_get n x) = n"
| "target (Exec_set n x v) = n"
| "target (Ping n) = n"
| "target (Disconnect n) = n"

fun arguments :: "request \<Rightarrow> string list" where
  "arguments (Connect c n p a b) = [int_to_str p, a, b]"
| "arguments (Exec_get n x) = [x]"
| "arguments (Exec_set n x v) = [x, int_to_str v]"
| "arguments _ = []"

definition parts :: "string \<Rightarrow> request \<Rightarrow> string list" where
  "parts uuid r = uuid # command_of r # int_to_str (target r) # arguments r"

definition pass :: "abs_node \<Rightarrow> abs_node \<times> effect" where
  "pass nd = (nd, if an_children nd = {} then Answer CODE_ERROR_NOT_FOUND ERROR_NOT_FOUND else Pass_on)"

fun abs_step :: "request \<Rightarrow> abs_node \<Rightarrow> abs_node \<times> effect" where
  "abs_step (Connect c n p a b) nd =
     (if an_id nd = p then
        (nd\<lparr>an_children := (if card (an_children nd) < 2 then insert n (an_children nd) else an_children nd)\<rparr>,
         Answer CODE_OK ''OK'')
      else if an_id nd = n then (nd, Silent) else pass nd)"
| "abs_step (Remove n) nd =
     (if n = an_id nd then (nd\<lparr>an_children := {}, an_alive := False\<rparr>, Answer CODE_OK ''OK'') else pass nd)"
| "abs_step (Exec_get n x) nd =
     (if n = an_id nd then
        (nd, case an_vars nd x of
               None \<Rightarrow> Answer CODE_ERROR_CUSTOM (x @ '' not found'') | Some v \<Rightarrow> Answer CODE_OK (int_to_str v))
      else pass nd)"
| "abs_step (Exec_set n x v) nd =
     (if n = an_id nd then
        (if an_vars nd x = None then (nd\<lparr>an_vars := (an_vars nd)(x \<mapsto> v)\<rparr>, Answer CODE_OK '''')
         else (nd, Answer CODE_ERROR_CUSTOM ''Already exists''))
      else pass nd)"
| "abs_step (Ping n) nd = (if n = an_id nd then (nd, Answer CODE_OK ''OK'') else pass nd)"
| "abs_step (Disconnect n) nd =
     (if n \<in> an_children nd then (nd\<lparr>an_children := an_children nd - {n}\<rparr>, Answer CODE_OK ''OK'') else pass nd)"

fun wf_request :: "request \<Rightarrow> bool" where
  "wf_request (Connect c n p a b) \<longleftrightarrow> is_int n \<and> is_int p \<and> n \<noteq> -1"
| "wf_request (Exec_set n x v) \<longleftrightarrow> is_int n \<and> is_int v"
| "wf_request (Disconnect n) \<longleftrightarrow> is_int n \<and> n \<noteq> -1"
| "wf_request r \<longleftrightarrow> is_int (target r)"

fun addresses :: "request \<Rightarrow> string set" where
  "addresses (Connect c n p a b) = {a, b}"
| "addresses _ = {}"

text \<open>A node never gets the same child twice.\<close>

fun new_child :: "request \<Rightarrow> abs_node \<Rightarrow> bool" where
  "new_child (Connect c n p a b) nd \<longleftrightarrow> (an_id nd = p \<longrightarrow> n \<notin> an_children nd)"
| "new_child _ nd \<longleftrightarrow> True"

definition node_abs :: "('h, int) hashmap_ops \<Rightarrow> int \<Rightarrow> ('z, 'h) compute \<Rightarrow> abs_node" where
  "node_abs hm i st = \<lparr>an_id = i, an_children = set (children (COMPUTE_NODE st)),
     an_vars = hashmap_get hm (CHI_MAP st), an_alive = (\<not> exited st)\<rparr>"

text \<open>What an effect adds to the parts sent on each socket.\<close>

definition to_children :: "mq_node \<Rightarrow> (string \<times> bool) list \<Rightarrow> addr \<Rightarrow> (string \<times> bool) list" where
  "to_children m ps s = (if s \<noteq> NULL \<and> s = left_child_main_socket m then ps else []) @
     (if s \<noteq> NULL \<and> s = right_child_main_socket m then ps else [])"

fun emitted :: "mq_node \<Rightarrow> string \<Rightarrow> request \<Rightarrow> effect \<Rightarrow> addr \<Rightarrow> (string \<times> bool) list" where
  "emitted m uuid r (Answer code txt) s =
     (if s = main_socket m
      then flagged [uuid, command_of r, int_to_str (target r), int_to_str code, txt] else [])"
| "emitted m uuid r Pass_on s =
     to_children m (flagged (parts uuid r)) s"
| "emitted m uuid r Silent s = []"

text \<open>
  \<open>sent\<close> is the history of the parts accepted on each socket. Sending on a valid socket succeeds;
  the other calls send nothing.
\<close>

definition zmq_records :: "'z zmq \<Rightarrow> ('z \<Rightarrow> addr \<Rightarrow> (string \<times> bool) list) \<Rightarrow> bool" where
  "zmq_records q sent \<longleftrightarrow>
     (\<forall>s p fl z. s \<noteq> NULL \<longrightarrow> (\<exists>z'. assert_sent (zmq_msg_send q s p fl z) = Some z' \<and>
        sent z' = (sent z)(s := sent z s @ [(p, fl)]))) \<and>
     (\<forall>c z. sent (snd (zmq_socket q c z)) = sent z) \<and>
     (\<forall>s a z. sent (snd (zmq_connect q s a z)) = sent z) \<and>
     (\<forall>s z. sent (snd (zmq_close q s z)) = sent z) \<and>
     (\<forall>c z. sent (zmq_ctx_destroy q c z) = sent z)"

section \<open>Lemmas\<close>

lemma send_parts_sent:
  assumes "zmq_records q sent" "s \<noteq> NULL"
  shows "ps \<noteq> [] \<Longrightarrow> \<exists>z'. send_parts q s ps z = Some z' \<and> sent z' = (sent z)(s := sent z s @ flagged ps)"
proof (induction ps arbitrary: z)
  case (Cons p ps)
  obtain z1 where z1: "assert_sent (zmq_msg_send q s p (ps \<noteq> []) z) = Some z1"
      "sent z1 = (sent z)(s := sent z s @ [(p, ps \<noteq> [])])"
    using assms unfolding zmq_records_def by blast
  then show ?case using Cons.IH [of z1] by (cases ps) (auto simp: fun_eq_iff)
qed simp

lemma push_sent:
  assumes "zmq_records q sent" "s \<noteq> NULL" "ps \<noteq> []"
  shows "\<exists>z'. mqn_push q s (map Some ps @ None # ms) z = Some z' \<and>
    sent z' = (sent z)(s := sent z s @ flagged ps)"
  using send_parts_sent [OF assms, of z] mqn_push_parts [OF assms(3), of q s ms z] by auto

lemma assert_zero_sent:
  assumes "zmq_records q sent"
  shows "assert_zero (zmq_connect q s a z) = Some z' \<Longrightarrow> sent z' = sent z"
    and "assert_zero (zmq_close q s z) = Some z' \<Longrightarrow> sent z' = sent z"
  using assms by (auto simp: assert_zero_def zmq_records_def split: if_splits)

lemma socket_sent: "zmq_records q sent \<Longrightarrow> zmq_socket q c z = (s, z') \<Longrightarrow> sent z' = sent z"
  unfolding zmq_records_def by (metis snd_conv)

lemma connect_pair_sent:
  assumes "zmq_records q sent" "connect_pair q m a b z = Some (s, p, z')"
  shows "sent z' = sent z"
  using assms(2) assert_zero_sent [OF assms(1)] socket_sent [OF assms(1)]
  by (auto simp: connect_pair_def split: prod.splits)

lemma mqn_connect_sent:
  assumes "zmq_records q sent" "mqn_connect q m i a b z = Some (m', z')"
  shows "sent z' = sent z"
  using assms(2) connect_pair_sent [OF assms(1)]
  by (auto simp: mqn_connect_def split: if_splits)

lemma mqn_close_sent:
  assumes "zmq_records q sent" "mqn_close q m i z = Some (m', z')"
  shows "sent z' = sent z"
  using assms(2) assert_zero_sent(2) [OF assms(1)]
  by (auto simp: mqn_close_def split: if_splits)

lemma mqn_destroy_sent:
  assumes "zmq_records q sent" "mqn_destroy q m z = Some (m', z')"
  shows "sent z' = sent z"
  using assms(2) assert_zero_sent(2) [OF assms(1)] mqn_close_sent [OF assms(1)] assms(1)
  by (auto simp: mqn_destroy_def zmq_records_def split: if_splits)

text \<open>The message array of a request, and the two ways a handler answers it.\<close>

definition buffer_of :: "string \<Rightarrow> request \<Rightarrow> string option list" where
  "buffer_of uuid r = map Some (parts uuid r) @ replicate (7 - length (parts uuid r)) None"

lemma length_parts: "3 \<le> length (parts uuid r)" "length (parts uuid r) \<le> 6"
  by (cases r; simp add: parts_def)+

lemma buffer_of_Cons:
  "buffer_of uuid r = map Some (parts uuid r) @ None # replicate (6 - length (parts uuid r)) None"
  using length_parts(2) [of uuid r]
  by (simp add: buffer_of_def Suc_diff_le replicate_Suc [symmetric] del: replicate_Suc)

lemma slot_buffer_of:
  "slot (buffer_of uuid r) 0 = Some uuid" "slot (buffer_of uuid r) 1 = Some (command_of r)"
  "slot (buffer_of uuid r) 2 = Some (int_to_str (target r))"
  by (simp_all add: slot_def buffer_of_def parts_def)

lemma slot_arguments:
  "k < length (arguments r) \<Longrightarrow> slot (buffer_of uuid r) (3 + k) = Some (arguments r ! k)"
  by (simp add: slot_def buffer_of_def parts_def nth_append)

definition emits ::
    "('z \<Rightarrow> addr \<Rightarrow> (string \<times> bool) list) \<Rightarrow> string \<Rightarrow> request \<Rightarrow> mq_node \<Rightarrow> effect \<Rightarrow> 'z \<Rightarrow> 'z \<Rightarrow> bool" where
  "emits sent uuid r m e z z' \<longleftrightarrow> (\<forall>s. sent z' s = sent z s @ emitted m uuid r e s)"

lemma reply_emits:
  assumes "zmq_records q sent" "main_socket (COMPUTE_NODE st) \<noteq> NULL"
  obtains z' where
    "reply_parts q st [Some uuid, Some (command_of r), Some (int_to_str (target r)),
       Some (int_to_str code), Some txt, None] = Some (st\<lparr>zmq_state := z'\<rparr>)"
    "emits sent uuid r (COMPUTE_NODE st) (Answer code txt) (zmq_state st) z'"
proof -
  let ?ps = "[uuid, command_of r, int_to_str (target r), int_to_str code, txt]"
  have mes: "map Some ?ps @ None # [] = [Some uuid, Some (command_of r), Some (int_to_str (target r)),
      Some (int_to_str code), Some txt, None]" by simp
  obtain z' where z': "mqn_push q (main_socket (COMPUTE_NODE st)) (map Some ?ps @ None # []) (zmq_state st) = Some z'"
      "sent z' = (sent (zmq_state st))(main_socket (COMPUTE_NODE st) :=
          sent (zmq_state st) (main_socket (COMPUTE_NODE st)) @ flagged ?ps)"
    using push_sent [OF assms list.distinct(2), of uuid "tl ?ps"] by fastforce
  show thesis
    using z' unfolding mes
    by (intro that [of z']) (simp_all add: reply_parts_def with_zmq_def mqn_reply_def emits_def
        del: mqn_push.simps)
qed

definition sockets_open :: "mq_node \<Rightarrow> bool" where
  "sockets_open m \<longleftrightarrow> main_socket m \<noteq> NULL \<and> ping_socket m \<noteq> NULL"

lemma push_all_sent:
  assumes "zmq_records q sent" "ps \<noteq> []"
  shows "\<exists>z'. mqn_push_all q m (map Some ps @ None # ms) z = Some z' \<and>
    (\<forall>s. sent z' s = sent z s @ to_children m (flagged ps) s)"
proof -
  let ?msg = "map Some ps @ None # ms"
  have push: "\<exists>z'. (if s \<noteq> NULL then mqn_push q s ?msg z else Some z) = Some z' \<and>
      sent z' = (sent z)(s := sent z s @ (if s \<noteq> NULL then flagged ps else []))" for s z
    using push_sent [OF assms(1) _ assms(2), of s ms z] by (cases "s = NULL") auto
  obtain z1 where z1: "(if left_child_main_socket m \<noteq> NULL
        then mqn_push q (left_child_main_socket m) ?msg z else Some z) = Some z1"
      "sent z1 = (sent z)(left_child_main_socket m := sent z (left_child_main_socket m) @
        (if left_child_main_socket m \<noteq> NULL then flagged ps else []))"
    using push by blast
  obtain z2 where z2: "(if right_child_main_socket m \<noteq> NULL
        then mqn_push q (right_child_main_socket m) ?msg z1 else Some z1) = Some z2"
      "sent z2 = (sent z1)(right_child_main_socket m := sent z1 (right_child_main_socket m) @
        (if right_child_main_socket m \<noteq> NULL then flagged ps else []))"
    using push by blast
  have "mqn_push_all q m ?msg z = Some z2"
    using z1(1) z2(1) by (simp add: mqn_push_all_def)
  then show ?thesis
    using z1(2) z2(2) by (auto simp: to_children_def)
qed

lemma push_all_emits:
  assumes "zmq_records q sent"
  obtains z' where "mqn_push_all q m (buffer_of uuid r) z = Some z'" "emits sent uuid r m Pass_on z z'"
proof -
  have "parts uuid r \<noteq> []" by (simp add: parts_def)
  from push_all_sent [OF assms this] that show thesis
    unfolding buffer_of_Cons emits_def by fastforce
qed

lemma mqn_inv_children_empty:
  "mqn_inv m \<Longrightarrow> set (children m) = {} \<longleftrightarrow> left_child_main_socket m = NULL \<and> right_child_main_socket m = NULL"
  by (auto simp: mqn_inv_def children_def)

lemma push_next_refines:
  assumes "zmq_records q sent" "mqn_inv (COMPUTE_NODE st)" "sockets_open (COMPUTE_NODE st)"
  obtains z' where "push_next q st (buffer_of uuid r) = Some (st\<lparr>zmq_state := z'\<rparr>)"
    "emits sent uuid r (COMPUTE_NODE st) (snd (pass (node_abs hm i st))) (zmq_state st) z'"
proof (cases "set (children (COMPUTE_NODE st)) = {}")
  case True
  then have "push_next q st (buffer_of uuid r) = reply_parts q st [Some uuid, Some (command_of r),
      Some (int_to_str (target r)), Some (int_to_str CODE_ERROR_NOT_FOUND), Some ERROR_NOT_FOUND, None]"
    using mqn_inv_children_empty [OF assms(2)] slot_buffer_of [of uuid r]
    by (simp add: push_next_def reply_not_found_def)
  moreover have "main_socket (COMPUTE_NODE st) \<noteq> NULL" using assms(3) by (simp add: sockets_open_def)
  moreover have "snd (pass (node_abs hm i st)) = Answer CODE_ERROR_NOT_FOUND ERROR_NOT_FOUND"
    using True by (simp add: pass_def node_abs_def)
  ultimately show thesis using reply_emits [OF assms(1)] that by metis
next
  case False
  then have "push_next q st (buffer_of uuid r) =
      with_zmq st (mqn_push_all q (COMPUTE_NODE st) (buffer_of uuid r) (zmq_state st))"
    using mqn_inv_children_empty [OF assms(2)] by (auto simp: push_next_def)
  moreover obtain z' where "mqn_push_all q (COMPUTE_NODE st) (buffer_of uuid r) (zmq_state st) = Some z'"
      "emits sent uuid r (COMPUTE_NODE st) Pass_on (zmq_state st) z'"
    using push_all_emits [OF assms(1)] by blast
  moreover have "snd (pass (node_abs hm i st)) = Pass_on"
    using False by (simp add: pass_def node_abs_def)
  ultimately show thesis using that by (simp add: with_zmq_def)
qed

lemma dispatch_request:
  "dispatch q hm st (buffer_of uuid r) (length (parts uuid r)) =
    (case r of
       Connect c n p a b \<Rightarrow> cmd_connect q st (buffer_of uuid r)
     | Remove n \<Rightarrow> cmd_remove q st (buffer_of uuid r)
     | Exec_get n x \<Rightarrow> cmd_exec q hm st (buffer_of uuid r) 4
     | Exec_set n x v \<Rightarrow> cmd_exec q hm st (buffer_of uuid r) 5
     | Ping n \<Rightarrow> cmd_ping q st (buffer_of uuid r)
     | Disconnect n \<Rightarrow> cmd_disconnect q st (buffer_of uuid r))"
proof -
  have cmd: "slot (buffer_of uuid r) 1 = Some (command_of r)" for r
    by (rule slot_buffer_of)
  have len: "length (parts uuid (Exec_get n x)) = 4" "length (parts uuid (Exec_set n x v)) = 5" for n x v
    by (simp_all add: parts_def)
  show ?thesis
    by (cases r) (simp_all add: dispatch_def cmd [unfolded One_nat_def] starts_with_def len)
qed

text \<open>\<open>refines\<close>: a handler's result is the abstract step, with its effect on the sockets.\<close>

definition refines ::
    "('z \<Rightarrow> addr \<Rightarrow> (string \<times> bool) list) \<Rightarrow> ('h, int) hashmap_ops \<Rightarrow> int \<Rightarrow> string \<Rightarrow> request \<Rightarrow>
     ('z, 'h) compute \<Rightarrow> ('z, 'h) compute option \<Rightarrow> bool" where
  "refines sent hm i uuid r st res \<longleftrightarrow>
     (\<exists>st'. res = Some st' \<and> NODE_ID st' = NODE_ID st \<and> mqn_inv (COMPUTE_NODE st') \<and>
        node_abs hm i st' = fst (abs_step r (node_abs hm i st)) \<and>
        emits sent uuid r (COMPUTE_NODE st) (snd (abs_step r (node_abs hm i st))) (zmq_state st) (zmq_state st'))"

definition node_ok :: "int \<Rightarrow> ('z, 'h) compute \<Rightarrow> bool" where
  "node_ok i st \<longleftrightarrow> is_int i \<and> NODE_ID st = int_to_str i \<and> mqn_inv (COMPUTE_NODE st) \<and>
     sockets_open (COMPUTE_NODE st) \<and> \<not> exited st"

lemma refines_push_next:
  assumes "zmq_records q sent" "node_ok i st" "abs_step r (node_abs hm i st) = pass (node_abs hm i st)"
  shows "refines sent hm i uuid r st (push_next q st (buffer_of uuid r))"
proof -
  have "mqn_inv (COMPUTE_NODE st)" "sockets_open (COMPUTE_NODE st)"
    using assms(2) by (simp_all add: node_ok_def)
  then obtain z' where "push_next q st (buffer_of uuid r) = Some (st\<lparr>zmq_state := z'\<rparr>)"
      "emits sent uuid r (COMPUTE_NODE st) (snd (pass (node_abs hm i st))) (zmq_state st) z'"
    using push_next_refines [OF assms(1)] by blast
  with assms(2,3) show ?thesis
    by (simp add: refines_def node_ok_def pass_def node_abs_def)
qed

text \<open>A reply from a state in which the handler has already done its work.\<close>

lemma refines_reply:
  assumes "zmq_records q sent" "main_socket (COMPUTE_NODE st1) \<noteq> NULL"
    and "main_socket (COMPUTE_NODE st1) = main_socket (COMPUTE_NODE st)" "sent (zmq_state st1) = sent (zmq_state st)"
    and "NODE_ID st1 = NODE_ID st" "mqn_inv (COMPUTE_NODE st1)"
    and "abs_step r (node_abs hm i st) = (node_abs hm i st1, Answer code txt)"
  shows "refines sent hm i uuid r st (reply_parts q st1 [Some uuid, Some (command_of r),
     Some (int_to_str (target r)), Some (int_to_str code), Some txt, None])"
proof -
  obtain z' where z': "reply_parts q st1 [Some uuid, Some (command_of r), Some (int_to_str (target r)),
       Some (int_to_str code), Some txt, None] = Some (st1\<lparr>zmq_state := z'\<rparr>)"
      "emits sent uuid r (COMPUTE_NODE st1) (Answer code txt) (zmq_state st1) z'"
    using reply_emits [OF assms(1,2)] by blast
  then show ?thesis using assms(3-7) by (auto simp: refines_def emits_def node_abs_def)
qed

lemma node_id_eq: "node_ok i st \<Longrightarrow> is_int n \<Longrightarrow> int_to_str n = NODE_ID st \<longleftrightarrow> n = i"
  "node_ok i st \<Longrightarrow> is_int n \<Longrightarrow> NODE_ID st = int_to_str n \<longleftrightarrow> n = i"
  by (auto simp: node_ok_def)

lemma node_ok_sockets:
  "node_ok i st \<Longrightarrow> mqn_inv (COMPUTE_NODE st) \<and> main_socket (COMPUTE_NODE st) \<noteq> NULL \<and>
     ping_socket (COMPUTE_NODE st) \<noteq> NULL \<and> \<not> exited st"
  by (auto simp: node_ok_def sockets_open_def)

lemma ping_refines:
  assumes "zmq_records q sent" "node_ok i st" "is_int n"
  shows "refines sent hm i uuid (Ping n) st (cmd_ping q st (buffer_of uuid (Ping n)))"
proof (cases "n = i")
  case True
  have "refines sent hm i uuid (Ping n) st (reply_ok q st (Some uuid) (Some ''ping'') (Some (int_to_str n)))"
    using refines_reply [OF assms(1), of st st "Ping n" hm i CODE_OK "''OK''" uuid]
      node_ok_sockets [OF assms(2)] True by (simp add: reply_ok_def node_abs_def)
  with True node_id_eq [OF assms(2,3)] slot_buffer_of [of uuid "Ping n"] show ?thesis
    by (simp add: cmd_ping_def)
next
  case False
  then have "cmd_ping q st (buffer_of uuid (Ping n)) = push_next q st (buffer_of uuid (Ping n))"
    using node_id_eq [OF assms(2,3)] slot_buffer_of [of uuid "Ping n"] by (simp add: cmd_ping_def)
  with refines_push_next [OF assms(1,2), of "Ping n" hm uuid] False show ?thesis by (simp add: node_abs_def)
qed

lemma exec_get_refines:
  assumes "zmq_records q sent" "node_ok i st" "is_int n"
  shows "refines sent hm i uuid (Exec_get n x) st (cmd_exec q hm st (buffer_of uuid (Exec_get n x)) 4)"
proof (cases "n = i")
  case True
  define c where "c = (case hashmap_get hm (CHI_MAP st) x of None \<Rightarrow> CODE_ERROR_CUSTOM | Some v \<Rightarrow> CODE_OK)"
  define t where "t = (case hashmap_get hm (CHI_MAP st) x of None \<Rightarrow> x @ '' not found'' | Some v \<Rightarrow> int_to_str v)"
  have "refines sent hm i uuid (Exec_get n x) st (reply_parts q st [Some uuid, Some ''exec'',
      Some (int_to_str n), Some (int_to_str c), Some t, None])"
    using refines_reply [OF assms(1), of st st "Exec_get n x" hm i c t uuid] node_ok_sockets [OF assms(2)] True
    by (auto simp: c_def t_def node_abs_def split: option.splits)
  with True node_id_eq [OF assms(2,3)] slot_buffer_of [of uuid "Exec_get n x"]
    slot_arguments [of 0 "Exec_get n x" uuid] show ?thesis
    by (auto simp: cmd_exec_def c_def t_def split: option.splits)
next
  case False
  then have "cmd_exec q hm st (buffer_of uuid (Exec_get n x)) 4 = push_next q st (buffer_of uuid (Exec_get n x))"
    using node_id_eq [OF assms(2,3)] slot_buffer_of [of uuid "Exec_get n x"] by (simp add: cmd_exec_def)
  with refines_push_next [OF assms(1,2), of "Exec_get n x" hm uuid] False show ?thesis
    by (simp add: node_abs_def)
qed

lemma exec_set_refines:
  assumes "zmq_records q sent" "hashmap_laws hm" "node_ok i st" "is_int n" "is_int v"
  shows "refines sent hm i uuid (Exec_set n x v) st (cmd_exec q hm st (buffer_of uuid (Exec_set n x v)) 5)"
proof (cases "n = i")
  case True
  let ?r = "Exec_set n x v"
  have num: "long_to_int (strtol (int_to_str v)) = v"
    using assms(5) by (simp add: strtol_int_to_str long_to_int_id)
  have args: "slot (buffer_of uuid ?r) 3 = Some x" "slot (buffer_of uuid ?r) 4 = Some (int_to_str v)"
    using slot_arguments [of 0 ?r uuid] slot_arguments [of 1 ?r uuid] by simp_all
  have slots: "slot (buffer_of uuid ?r) 0 = Some uuid" "slot (buffer_of uuid ?r) (Suc 0) = Some ''exec''"
      "slot (buffer_of uuid ?r) 2 = Some (int_to_str n)"
    using slot_buffer_of [of uuid ?r] by simp_all
  show ?thesis
  proof (cases "hashmap_get hm (CHI_MAP st) x")
    case None
    obtain h where h: "hashmap_put hm (CHI_MAP st) x v = (0, h)"
        "hashmap_get hm h = (hashmap_get hm (CHI_MAP st))(x \<mapsto> v)"
      using hashmap_put_new [OF assms(2) None] by blast
    have "refines sent hm i uuid ?r st (reply_parts q (st\<lparr>CHI_MAP := h\<rparr>) [Some uuid, Some ''exec'',
        Some (int_to_str n), Some (int_to_str CODE_OK), Some '''', None])"
      using refines_reply [OF assms(1), of "st\<lparr>CHI_MAP := h\<rparr>" st ?r hm i CODE_OK "''''" uuid]
        node_ok_sockets [OF assms(3)] True None h(2) by (simp add: node_abs_def)
    with True None h(1) node_id_eq [OF assms(3,4)] args slots num show ?thesis
      by (simp add: cmd_exec_def)
  next
    case (Some w)
    then have put: "hashmap_put hm (CHI_MAP st) x v = (- EEXIST, CHI_MAP st)"
      using hashmap_put_present [OF assms(2)] by simp
    have "refines sent hm i uuid ?r st (reply_parts q st [Some uuid, Some ''exec'',
        Some (int_to_str n), Some (int_to_str CODE_ERROR_CUSTOM), Some ''Already exists'', None])"
      using refines_reply [OF assms(1), of st st ?r hm i CODE_ERROR_CUSTOM "''Already exists''" uuid]
        node_ok_sockets [OF assms(3)] True Some by (simp add: node_abs_def)
    with True put node_id_eq [OF assms(3,4)] args slots num show ?thesis
      by (simp add: cmd_exec_def)
  qed
next
  case False
  then have "cmd_exec q hm st (buffer_of uuid (Exec_set n x v)) 5 = push_next q st (buffer_of uuid (Exec_set n x v))"
    using node_id_eq [OF assms(3,4)] slot_buffer_of [of uuid "Exec_set n x v"] by (simp add: cmd_exec_def)
  with refines_push_next [OF assms(1,3), of "Exec_set n x v" hm uuid] False show ?thesis
    by (simp add: node_abs_def)
qed

lemma disconnect_refines:
  assumes "zmq_records q sent" "zmq_accepts q {}" "node_ok i st" "is_int n" "n \<noteq> -1"
  shows "refines sent hm i uuid (Disconnect n) st (cmd_disconnect q st (buffer_of uuid (Disconnect n)))"
proof -
  let ?r = "Disconnect n" and ?m = "COMPUTE_NODE st"
  have slots: "slot (buffer_of uuid ?r) 0 = Some uuid" "slot (buffer_of uuid ?r) (Suc 0) = Some ''disconnect''"
      "slot (buffer_of uuid ?r) 2 = Some (int_to_str n)"
    using slot_buffer_of [of uuid ?r] by simp_all
  have id: "long_to_int (strtol (int_to_str n)) = n"
    using assms(4) by (simp add: strtol_int_to_str long_to_int_id)
  have child: "n \<in> set (children ?m) \<longleftrightarrow> left_child_id ?m = n \<or> right_child_id ?m = n"
    using assms(5) by (auto simp: children_def)
  show ?thesis
  proof (cases "n \<in> set (children ?m)")
    case True
    have inv: "mqn_inv ?m" and main: "main_socket ?m \<noteq> NULL" and live: "\<not> exited st"
      using node_ok_sockets [OF assms(3)] by auto
    obtain m' z' where m': "mqn_close q ?m n (zmq_state st) = Some (m', z')" "mqn_inv m'"
        "set (children m') = set (children ?m) - {n}" "main_socket m' = main_socket ?m"
      using mqn_close_spec [OF inv assms(2,5)] by blast
    let ?st1 = "st\<lparr>COMPUTE_NODE := m', zmq_state := z'\<rparr>"
    have "refines sent hm i uuid ?r st (reply_parts q ?st1 [Some uuid, Some ''disconnect'',
        Some (int_to_str n), Some (int_to_str CODE_OK), Some ''OK'', None])"
      using refines_reply [OF assms(1), of ?st1 st ?r hm i CODE_OK "''OK''" uuid]
        main m' mqn_close_sent [OF assms(1) m'(1)] True by (simp add: node_abs_def)
    with True child m'(1) id slots show ?thesis by (simp add: cmd_disconnect_def reply_ok_def)
  next
    case False
    then have "cmd_disconnect q st (buffer_of uuid ?r) = push_next q st (buffer_of uuid ?r)"
      using child id slots by (simp add: cmd_disconnect_def)
    with refines_push_next [OF assms(1,3), of ?r hm uuid] False show ?thesis
      by (simp add: node_abs_def)
  qed
qed

lemma connect_refines:
  assumes "zmq_records q sent" "zmq_accepts q {a, b}" "node_ok i st" "is_int n" "is_int p" "n \<noteq> -1"
    and "i = p \<longrightarrow> n \<notin> set (children (COMPUTE_NODE st))"
  shows "refines sent hm i uuid (Connect c n p a b) st (cmd_connect q st (buffer_of uuid (Connect c n p a b)))"
proof -
  let ?r = "Connect c n p a b" and ?m = "COMPUTE_NODE st"
  have slots: "slot (buffer_of uuid ?r) 0 = Some uuid" "slot (buffer_of uuid ?r) (Suc 0) = Some (command_of ?r)"
      "slot (buffer_of uuid ?r) 2 = Some (int_to_str n)"
    using slot_buffer_of [of uuid ?r] by simp_all
  have args: "slot (buffer_of uuid ?r) 3 = Some (int_to_str p)" "slot (buffer_of uuid ?r) 4 = Some a"
      "slot (buffer_of uuid ?r) 5 = Some b"
    using slot_arguments [of 0 ?r uuid] slot_arguments [of 1 ?r uuid] slot_arguments [of 2 ?r uuid] by simp_all
  have id: "long_to_int (strtol (int_to_str n)) = n"
    using assms(4) by (simp add: strtol_int_to_str long_to_int_id)
  have inv: "mqn_inv ?m" and main: "main_socket ?m \<noteq> NULL" and live: "\<not> exited st"
    using node_ok_sockets [OF assms(3)] by auto
  note eqs = node_id_eq [OF assms(3,4)] node_id_eq [OF assms(3,5)]
  consider "i = p" | "i \<noteq> p" "i = n" | "i \<noteq> p" "i \<noteq> n" by blast
  then show ?thesis
  proof cases
    case 1
    then obtain m' z' where m': "mqn_connect q ?m n (Some a) (Some b) (zmq_state st) = Some (m', z')" "mqn_inv m'"
        "set (children m') = (if length (children ?m) < 2 then insert n (set (children ?m)) else set (children ?m))"
        "main_socket m' = main_socket ?m"
      using mqn_connect_spec [OF inv assms(2,6)] assms(7) by blast
    have card: "card (set (children ?m)) = length (children ?m)"
      using inv by (auto simp: children_def mqn_inv_def)
    let ?st1 = "st\<lparr>COMPUTE_NODE := m', zmq_state := z'\<rparr>"
    have "refines sent hm i uuid ?r st (reply_parts q ?st1 [Some uuid, Some (command_of ?r),
        Some (int_to_str n), Some (int_to_str CODE_OK), Some ''OK'', None])"
      using refines_reply [OF assms(1), of ?st1 st ?r hm i CODE_OK "''OK''" uuid]
        main m' mqn_connect_sent [OF assms(1) m'(1)] 1 card by (simp add: node_abs_def)
    with 1 m'(1) id slots args eqs show ?thesis by (simp add: cmd_connect_def reply_ok_def)
  next
    case 2
    then have "cmd_connect q st (buffer_of uuid ?r) = Some st"
      using slots args eqs by (simp add: cmd_connect_def)
    with 2 inv show ?thesis by (simp add: refines_def node_abs_def emits_def)
  next
    case 3
    then have "cmd_connect q st (buffer_of uuid ?r) = push_next q st (buffer_of uuid ?r)"
      using slots args eqs by (simp add: cmd_connect_def)
    with refines_push_next [OF assms(1,3), of ?r hm uuid] 3 show ?thesis by (simp add: node_abs_def)
  qed
qed

lemma mqn_destroy_spec:
  assumes "mqn_inv m" "zmq_accepts q {}" "main_socket m \<noteq> NULL" "ping_socket m \<noteq> NULL"
  shows "\<exists>m' z'. mqn_destroy q m z = Some (m', z') \<and> mqn_inv m' \<and> children m' = []"
proof -
  obtain m1 z1 where m1: "(if left_child_id m \<noteq> -1 then mqn_close q m (left_child_id m) z else Some (m, z)) = Some (m1, z1)"
      "mqn_inv m1" "left_child_id m1 = -1" "right_child_id m1 = right_child_id m"
      "main_socket m1 = main_socket m" "ping_socket m1 = ping_socket m"
    using mqn_close_spec [OF assms(1,2), of "left_child_id m" z] assms(1)
    by (cases "left_child_id m = -1") (auto simp: mqn_close_def children_def)
  obtain m2 z2 where m2: "(if right_child_id m1 \<noteq> -1 then mqn_close q m1 (right_child_id m1) z1 else Some (m1, z1)) = Some (m2, z2)"
      "mqn_inv m2" "left_child_id m2 = -1" "right_child_id m2 = -1"
      "main_socket m2 = main_socket m" "ping_socket m2 = ping_socket m"
    using mqn_close_spec [OF m1(2) assms(2), of "right_child_id m1" z1] m1
    by (cases "right_child_id m1 = -1") (auto simp: mqn_close_def children_def)
  have "\<exists>z'. assert_zero (zmq_close q s z) = Some z'" if "s \<noteq> NULL" for s z
    using assms(2) that by (simp add: zmq_accepts_def assert_zero_def)
  then obtain z3 z4 where "assert_zero (zmq_close q (main_socket m2) z2) = Some z3"
      "assert_zero (zmq_close q (ping_socket m2) z3) = Some z4"
    using assms(3,4) m2 by metis
  with m1 m2 show ?thesis by (simp add: mqn_destroy_def mqn_inv_def children_def)
qed

lemma remove_refines:
  assumes "zmq_records q sent" "zmq_accepts q {}" "node_ok i st" "is_int n"
  shows "refines sent hm i uuid (Remove n) st (cmd_remove q st (buffer_of uuid (Remove n)))"
proof (cases "n = i")
  case True
  let ?r = "Remove n" and ?m = "COMPUTE_NODE st"
  have slots: "slot (buffer_of uuid ?r) 0 = Some uuid" "slot (buffer_of uuid ?r) (Suc 0) = Some ''remove''"
      "slot (buffer_of uuid ?r) 2 = Some (int_to_str n)"
    using slot_buffer_of [of uuid ?r] by simp_all
  have ok: "mqn_inv ?m" "main_socket ?m \<noteq> NULL" "ping_socket ?m \<noteq> NULL"
    using node_ok_sockets [OF assms(3)] by auto
  obtain z1 where z1: "reply_parts q st [Some uuid, Some (command_of ?r), Some (int_to_str (target ?r)),
       Some (int_to_str CODE_OK), Some ''OK'', None] = Some (st\<lparr>zmq_state := z1\<rparr>)"
      "emits sent uuid ?r ?m (Answer CODE_OK ''OK'') (zmq_state st) z1"
    using reply_emits [OF assms(1) ok(2)] by blast
  obtain m' z2 where m': "mqn_destroy q ?m z1 = Some (m', z2)" "mqn_inv m'" "children m' = []"
    using mqn_destroy_spec [OF ok(1) assms(2) ok(2,3)] by blast
  have "sent z2 = sent z1" by (rule mqn_destroy_sent [OF assms(1) m'(1)])
  moreover have "cmd_remove q st (buffer_of uuid ?r) = Some (st\<lparr>COMPUTE_NODE := m', zmq_state := z2, exited := True\<rparr>)"
    using True z1(1) m'(1) slots node_id_eq [OF assms(3,4)] by (simp add: cmd_remove_def reply_ok_def)
  ultimately show ?thesis
    using True z1(2) m' by (auto simp: refines_def node_abs_def emits_def)
next
  case False
  then have "cmd_remove q st (buffer_of uuid (Remove n)) = push_next q st (buffer_of uuid (Remove n))"
    using node_id_eq [OF assms(3,4)] slot_buffer_of [of uuid "Remove n"] by (simp add: cmd_remove_def)
  with refines_push_next [OF assms(1,3), of "Remove n" hm uuid] False show ?thesis
    by (simp add: node_abs_def)
qed

lemma dispatch_refines:
  assumes "zmq_records q sent" "zmq_accepts q (addresses r)" "hashmap_laws hm" "node_ok i st"
    and "wf_request r" "new_child r (node_abs hm i st)"
  shows "refines sent hm i uuid r st (dispatch q hm st (buffer_of uuid r) (length (parts uuid r)))"
proof -
  have "zmq_accepts q {}" using assms(2) by (simp add: zmq_accepts_def)
  then show ?thesis
    using assms ping_refines [OF assms(1,4)] exec_get_refines [OF assms(1,4)] exec_set_refines [OF assms(1,3,4)]
      disconnect_refines [OF assms(1) _ assms(4)] connect_refines [OF assms(1) _ assms(4)]
      remove_refines [OF assms(1) _ assms(4)]
    unfolding dispatch_request by (cases r) (auto simp: node_abs_def)
qed

text \<open>A request that is handled leaves a clean message array behind.\<close>

lemma clean_parts: "clean_buffer (map Some ps @ None # bs) = Some (map (\<lambda>_. None) ps @ None # bs)"
  by (induction ps) auto

lemma clean_buffer_of: "clean_buffer (buffer_of uuid r) = Some (replicate 7 None)"
  by (cases r) (simp_all add: buffer_of_def parts_def numeral_eq_Suc)

definition same_node :: "('z, 'h) compute \<Rightarrow> ('z, 'h) compute \<Rightarrow> bool" where
  "same_node st st' \<longleftrightarrow> COMPUTE_NODE st' = COMPUTE_NODE st \<and> exited st' = exited st \<and> NODE_ID st' = NODE_ID st"

lemma reply_parts_same: "reply_parts q st mes = Some st' \<Longrightarrow> same_node st st'"
  by (auto simp: reply_parts_def with_zmq_def same_node_def)

lemma push_next_same: "push_next q st mes = Some st' \<Longrightarrow> same_node st st'"
  by (auto simp: push_next_def reply_not_found_def with_zmq_def same_node_def
      dest: reply_parts_same [unfolded same_node_def] split: if_splits)

lemma same_node_map: "same_node (st\<lparr>CHI_MAP := h\<rparr>) st' \<longleftrightarrow> same_node st st'"
  by (simp add: same_node_def)

lemma exec_keeps_node: "cmd_exec q hm st message n = Some st' \<Longrightarrow> same_node st st'"
  by (auto simp: cmd_exec_def split_beta Let_def same_node_map
      dest!: reply_parts_same push_next_same split: if_splits option.splits)

lemma exec_dispatch:
  assumes "zmq_records q sent" "zmq_accepts q {}" "hashmap_laws hm" "node_ok i st" "wf_request r"
    and "r = Exec_get i x \<or> r = Exec_set i x v"
  obtains st' where "dispatch q hm st (buffer_of uuid r) (length (parts uuid r)) = Some st'" "node_ok i st'"
    "node_abs hm i st' = fst (abs_step r (node_abs hm i st))" "COMPUTE_NODE st' = COMPUTE_NODE st"
    "emits sent uuid r (COMPUTE_NODE st) (snd (abs_step r (node_abs hm i st))) (zmq_state st) (zmq_state st')"
proof -
  have r: "addresses r = {}" "new_child r (node_abs hm i st)" using assms(6) by auto
  obtain st' where st': "dispatch q hm st (buffer_of uuid r) (length (parts uuid r)) = Some st'"
      "node_abs hm i st' = fst (abs_step r (node_abs hm i st))"
      "emits sent uuid r (COMPUTE_NODE st) (snd (abs_step r (node_abs hm i st))) (zmq_state st) (zmq_state st')"
    using dispatch_refines [OF assms(1) _ assms(3,4,5) r(2), of uuid] assms(2) r(1) by (auto simp: refines_def)
  have "COMPUTE_NODE st' = COMPUTE_NODE st \<and> exited st' = exited st \<and> NODE_ID st' = NODE_ID st"
    using st'(1) assms(6) unfolding dispatch_request by (auto dest: exec_keeps_node [unfolded same_node_def])
  with st' assms(4) show thesis by (intro that) (auto simp: node_ok_def)
qed

section \<open>Properties\<close>

text \<open>
  C27: a compute node implements its specification. For every kind of request, handling its
  message does not fault, changes children, variables and life of the node as the abstract step
  says, and sends exactly the answer, the forwarded message to every child, or nothing.
\<close>

theorem compute_node_refines:
  assumes "zmq_records q sent" "zmq_accepts q (addresses r)" "hashmap_laws hm" "node_ok i st"
    and "wf_request r" "new_child r (node_abs hm i st)"
  shows "\<exists>st'. dispatch q hm st (buffer_of uuid r) (length (parts uuid r)) = Some st' \<and>
     node_abs hm i st' = fst (abs_step r (node_abs hm i st)) \<and>
     (\<forall>s. sent (zmq_state st') s = sent (zmq_state st) s @
        emitted (COMPUTE_NODE st) uuid r (snd (abs_step r (node_abs hm i st))) s) \<and>
     mqn_inv (COMPUTE_NODE st') \<and> clean_buffer (buffer_of uuid r) = Some (replicate 7 None)"
  using dispatch_refines [OF assms, of uuid] clean_buffer_of [of uuid r] by (auto simp: refines_def emits_def)

text \<open>
  Variables. A node that has no value for a name accepts the first set, answers every later
  get with exactly this value, and rejects a second set with \<open>Already exists\<close>, keeping the first
  value. The answers are the messages added to the history of the socket towards the parent.
\<close>

theorem exec_session:
  assumes "zmq_records q sent" "zmq_accepts q {}" "hashmap_laws hm" "node_ok i st"
    and "is_int v" "is_int w" "hashmap_get hm (CHI_MAP st) x = None"
  shows "\<exists>st1 st2 st3 st4.
    dispatch q hm st (buffer_of u1 (Exec_set i x v)) 5 = Some st1 \<and>
    dispatch q hm st1 (buffer_of u2 (Exec_get i x)) 4 = Some st2 \<and>
    dispatch q hm st2 (buffer_of u3 (Exec_set i x w)) 5 = Some st3 \<and>
    dispatch q hm st3 (buffer_of u4 (Exec_get i x)) 4 = Some st4 \<and>
    sent (zmq_state st4) (main_socket (COMPUTE_NODE st)) =
      sent (zmq_state st) (main_socket (COMPUTE_NODE st)) @
      flagged [u1, ''exec'', int_to_str i, ''1'', ''''] @
      flagged [u2, ''exec'', int_to_str i, ''1'', int_to_str v] @
      flagged [u3, ''exec'', int_to_str i, ''3'', ''Already exists''] @
      flagged [u4, ''exec'', int_to_str i, ''1'', int_to_str v]"
proof -
  let ?m = "COMPUTE_NODE st"
  have i: "is_int i" using assms(4) by (simp add: node_ok_def)
  have wf: "wf_request (Exec_set i x v)" "wf_request (Exec_set i x w)" "wf_request (Exec_get i x)"
    using i assms(5,6) by simp_all
  have len: "length (parts u (Exec_set i x v)) = 5" "length (parts u (Exec_get i x)) = 4" for u v
    by (simp_all add: parts_def)
  have code: "int_to_str 1 = ''1''" "int_to_str 3 = ''3''"
    by code_simp+
  note run = exec_dispatch [OF assms(1-3)]
  obtain st1 where st1: "dispatch q hm st (buffer_of u1 (Exec_set i x v)) 5 = Some st1" "node_ok i st1"
      "node_abs hm i st1 = fst (abs_step (Exec_set i x v) (node_abs hm i st))" "COMPUTE_NODE st1 = ?m"
      "emits sent u1 (Exec_set i x v) ?m (snd (abs_step (Exec_set i x v) (node_abs hm i st))) (zmq_state st) (zmq_state st1)"
    using run [OF assms(4) wf(1), of x v u1] len by auto
  obtain st2 where st2: "dispatch q hm st1 (buffer_of u2 (Exec_get i x)) 4 = Some st2" "node_ok i st2"
      "node_abs hm i st2 = fst (abs_step (Exec_get i x) (node_abs hm i st1))" "COMPUTE_NODE st2 = ?m"
      "emits sent u2 (Exec_get i x) ?m (snd (abs_step (Exec_get i x) (node_abs hm i st1))) (zmq_state st1) (zmq_state st2)"
    using run [OF st1(2) wf(3), of x v u2] len st1(4) by auto
  obtain st3 where st3: "dispatch q hm st2 (buffer_of u3 (Exec_set i x w)) 5 = Some st3" "node_ok i st3"
      "node_abs hm i st3 = fst (abs_step (Exec_set i x w) (node_abs hm i st2))" "COMPUTE_NODE st3 = ?m"
      "emits sent u3 (Exec_set i x w) ?m (snd (abs_step (Exec_set i x w) (node_abs hm i st2))) (zmq_state st2) (zmq_state st3)"
    using run [OF st2(2) wf(2), of x w u3] len st2(4) by auto
  obtain st4 where st4: "dispatch q hm st3 (buffer_of u4 (Exec_get i x)) 4 = Some st4"
      "emits sent u4 (Exec_get i x) ?m (snd (abs_step (Exec_get i x) (node_abs hm i st3))) (zmq_state st3) (zmq_state st4)"
    using run [OF st3(2) wf(3), of x v u4] len st3(4) by (metis (no_types))
  have vars: "an_vars (node_abs hm i st) x = None" "an_id (node_abs hm i st) = i"
    using assms(7) by (simp_all add: node_abs_def)
  show ?thesis
    using st1 st2 st3 st4 vars by (simp add: emits_def code)
qed

section \<open>A concrete node\<close>

lemma loopback_records: "zmq_records loopback (\<lambda>w s. inbox w (s XOR 1))"
proof -
  have "(t :: addr) XOR 1 = s XOR 1 \<longleftrightarrow> t = s" for s t
    by (metis xor.right_neutral xor.assoc xor_self_eq)
  then show ?thesis
    by (auto simp: zmq_records_def loopback_def assert_sent_def fun_eq_iff)
qed

definition demo_compute :: "(wire, (string \<times> int) list) compute" where
  "demo_compute = \<lparr>NODE_ID = int_to_str 7,
     COMPUTE_NODE = \<lparr>context_ptr = 1, main_socket = 2, ping_socket = 4, left_child_id = 3, right_child_id = -1,
       left_child_main_socket = 6, right_child_main_socket = NULL,
       left_child_ping_socket = 8, right_child_ping_socket = NULL\<rparr>,
     CHI_MAP = [], zmq_state = idle, exited = False\<rparr>"

lemma demo_compute_ok: "node_ok 7 demo_compute"
  by (simp add: node_ok_def demo_compute_def mqn_inv_def sockets_open_def is_int_def)

theorem compute_node_refines_witness:
  "\<exists>st'. dispatch loopback alist_map demo_compute (buffer_of ''u1'' (Ping 9)) 3 = Some st' \<and>
     inbox (zmq_state st') 7 = flagged (parts ''u1'' (Ping 9)) \<and>
     node_abs alist_map 7 st' = node_abs alist_map 7 demo_compute"
proof -
  have abs: "an_id (node_abs alist_map 7 demo_compute) = 7" "an_children (node_abs alist_map 7 demo_compute) = {3}"
    by (simp_all add: node_abs_def demo_compute_def children_def)
  have sock: "(6 XOR 1 :: addr) = 7" by simp
  have len: "length (parts ''u1'' (Ping 9)) = 3" by (simp add: parts_def)
  have sockets: "left_child_main_socket (COMPUTE_NODE demo_compute) = 6"
      "right_child_main_socket (COMPUTE_NODE demo_compute) = NULL" "zmq_state demo_compute = idle"
    by (simp_all add: demo_compute_def)
  obtain st' where "dispatch loopback alist_map demo_compute (buffer_of ''u1'' (Ping 9)) 3 = Some st'"
      "node_abs alist_map 7 st' = fst (abs_step (Ping 9) (node_abs alist_map 7 demo_compute))"
      "\<forall>s. inbox (zmq_state st') (s XOR 1) = inbox (zmq_state demo_compute) (s XOR 1) @
        emitted (COMPUTE_NODE demo_compute) ''u1'' (Ping 9) (snd (abs_step (Ping 9) (node_abs alist_map 7 demo_compute))) s"
    using compute_node_refines [OF loopback_records loopback_accepts alist_map_laws demo_compute_ok,
        of "Ping 9" "''u1''"] len by (auto simp: is_int_def)
  then show ?thesis
    using abs sockets sock by (auto simp: pass_def idle_def to_children_def dest: spec [of _ 6])
qed

theorem exec_session_witness:
  "\<exists>st1 st2 st3 st4.
    dispatch loopback alist_map demo_compute (buffer_of ''a'' (Exec_set 7 ''x'' 5)) 5 = Some st1 \<and>
    dispatch loopback alist_map st1 (buffer_of ''b'' (Exec_get 7 ''x'')) 4 = Some st2 \<and>
    dispatch loopback alist_map st2 (buffer_of ''c'' (Exec_set 7 ''x'' 6)) 5 = Some st3 \<and>
    dispatch loopback alist_map st3 (buffer_of ''d'' (Exec_get 7 ''x'')) 4 = Some st4 \<and>
    last (inbox (zmq_state st4) 3) = (int_to_str 5, False)"
proof -
  have main: "main_socket (COMPUTE_NODE demo_compute) = 2" "(2 XOR 1 :: addr) = 3"
      "zmq_state demo_compute = idle" "CHI_MAP demo_compute = []"
    by (simp_all add: demo_compute_def)
  have "hashmap_get alist_map (CHI_MAP demo_compute) ''x'' = None" by (simp add: main alist_map_def)
  with exec_session [OF loopback_records loopback_accepts alist_map_laws demo_compute_ok, of 5 6 "''x''"]
  show ?thesis
    unfolding main by (force simp: is_int_def)
qed

end
