(* ===== verification/ControlNode.thy ===== *)
theory ControlNode
  imports BalancedTree XorList ComputeNode
begin

text \<open>
  The control node: \<^verbatim>\<open>lab6/control_node.c\<close>. It keeps the table of all nodes (itself at index
  0), its own sockets, for every request in flight the number of answers still expected, for
  every node the heartbeats missed, and the removals in progress. The handlers of user commands
  (\<open>cmd_*\<close>), the handlers of answers (\<open>rec_*\<close>) and the two worker loops are state transformers.

  The two threads of the program and the main thread share this state without locks; the model
  runs one handler at a time. ZeroMQ, the hash map, and what the operating system answers are
  parameters. A counter behind a pointer (\<open>int *val\<close>) is a cell of the list \<open>cells\<close>, and the hash
  maps hold cell indices.
\<close>

section \<open>State\<close>

datatype event =
    Printed string             \<comment> \<open>the text of one \<open>printf\<close>, less its newline\<close>
  | Made_uuid string
  | Forked int
  | Became "string list"       \<comment> \<open>the child process after \<open>fork\<close> calls \<open>execl\<close>\<close>
  | Killed int
  | Waited int
  | Exit int
  | Helped                     \<comment> \<open>\<open>print_help\<close>\<close>

record ('z, 'h) control =
  TREE :: b_tree
  C_NODE :: b_tree_node
  CONTROL_NODE :: mq_node
  address_shift :: int
  heartbeat_time :: int
  answer_count_map :: 'h
  nodes_ping_map :: 'h
  cells :: "int list"
  remove_list :: "remove_struct rm_list"
  zmq_st :: 'z
  trace :: "event list"

text \<open>What the operating system answers, depending on what has happened so far.\<close>

record os_calls =
  os_fork :: "event list \<Rightarrow> int"
  os_uuid :: "event list \<Rightarrow> string"
  os_errno :: "event list \<Rightarrow> int"
  os_realloc :: "b_tree \<Rightarrow> bool"
  os_malloc :: "remove_struct rm_list \<Rightarrow> addr"    \<comment> \<open>the address of a new list element\<close>

record ('z, 'h) env =
  the_zmq :: "'z zmq"
  the_map :: "('h, nat) hashmap_ops"
  the_os :: os_calls

section \<open>Helpers\<close>

definition emit_event :: "event \<Rightarrow> ('z, 'h) control \<Rightarrow> ('z, 'h) control" where
  "emit_event e st = st\<lparr>trace := trace st @ [e]\<rparr>"

abbreviation print_line :: "string \<Rightarrow> ('z, 'h) control \<Rightarrow> ('z, 'h) control" where
  "print_line s \<equiv> emit_event (Printed s)"

definition print_error :: "string option \<Rightarrow> string \<Rightarrow> ('z, 'h) control \<Rightarrow> ('z, 'h) control option" where
  "print_error txt prefix st = map_option (\<lambda>t. print_line (prefix @ t) st) txt"

definition gen_uuid :: "('z, 'h) env \<Rightarrow> ('z, 'h) control \<Rightarrow> string \<times> ('z, 'h) control" where
  "gen_uuid E st = (let u = os_uuid (the_os E) (trace st) in (u, emit_event (Made_uuid u) st))"

definition new_cell :: "int \<Rightarrow> ('z, 'h) control \<Rightarrow> nat \<times> ('z, 'h) control" where
  "new_cell v st = (length (cells st), st\<lparr>cells := cells st @ [v]\<rparr>)"

definition answer_count_push :: "('z, 'h) env \<Rightarrow> string \<Rightarrow> ('z, 'h) control \<Rightarrow> ('z, 'h) control" where
  "answer_count_push E uuid st =
    (let (p, st1) = new_cell (long_to_int (int (sz_add (bt_size (TREE st)) 1 div 2))) st in
     st1\<lparr>answer_count_map := snd (hashmap_put (the_map E) (answer_count_map st1) uuid p)\<rparr>)"

definition push_down :: "('z, 'h) env \<Rightarrow> string option list \<Rightarrow> ('z, 'h) control \<Rightarrow> ('z, 'h) control option" where
  "push_down E message st =
     map_option (\<lambda>z. st\<lparr>zmq_st := z\<rparr>) (mqn_push_all (the_zmq E) (CONTROL_NODE st) message (zmq_st st))"

definition connect_child ::
    "('z, 'h) env \<Rightarrow> int \<Rightarrow> string option \<Rightarrow> string option \<Rightarrow> ('z, 'h) control \<Rightarrow> ('z, 'h) control option" where
  "connect_child E node_id main_addr ping_addr st =
     map_option (\<lambda>(m, z). st\<lparr>CONTROL_NODE := m, zmq_st := z\<rparr>)
       (mqn_connect (the_zmq E) (CONTROL_NODE st) node_id main_addr ping_addr (zmq_st st))"

definition close_child :: "('z, 'h) env \<Rightarrow> int \<Rightarrow> ('z, 'h) control \<Rightarrow> ('z, 'h) control option" where
  "close_child E node_id st =
     map_option (\<lambda>(m, z). st\<lparr>CONTROL_NODE := m, zmq_st := z\<rparr>)
       (mqn_close (the_zmq E) (CONTROL_NODE st) node_id (zmq_st st))"

text \<open>
  \<open>error_handler\<close> of \<^verbatim>\<open>lab6/errors/error_handler.c\<close>: \<open>None\<close> if the check has passed and the
  program goes on, otherwise the state in which it ends.
\<close>

definition error_handler :: "('z, 'h) env \<Rightarrow> bool \<Rightarrow> string \<Rightarrow> ('z, 'h) control \<Rightarrow> ('z, 'h) control option" where
  "error_handler E res err st =
    (if res then None
     else
       let code = os_errno (the_os E) (trace st) in
       if code \<noteq> 0 then Some (emit_event (Exit code) (print_line err st))
       else Some (emit_event (Exit (-1)) (print_line '': unknown error'' (print_line err st))))"

section \<open>Creating nodes\<close>

definition rec_create :: "('z, 'h) env \<Rightarrow> int \<Rightarrow> int \<Rightarrow> string option \<Rightarrow> int \<Rightarrow> ('z, 'h) control \<Rightarrow> ('z, 'h) control option" where
  "rec_create E node_id code answer count_answers st =
    (if code = CODE_ERROR_NOT_FOUND then
       Some (if count_answers = 0
             then print_line (''Error:'' @ int_to_str node_id @ '': Node not found'') st else st)
     else do {
       created_node \<leftarrow> btree_find (TREE st) node_id;
       if code = CODE_ERROR_CUSTOM then do {
         st1 \<leftarrow> print_error answer ''Error: '' st;
         (t, _) \<leftarrow> btree_remove (TREE st1) node_id;
         Some (emit_event (Killed (pid created_node)) (st1\<lparr>TREE := t\<rparr>))
       }
       else if code = CODE_OK then
         (let (p, st1) = new_cell 0 st;
              st2 = st1\<lparr>nodes_ping_map := snd (hashmap_put (the_map E) (nodes_ping_map st1) (int_to_str node_id) p)\<rparr> in
          Some (print_line (''Ok: '' @ int_to_str (pid created_node)) st2))
       else Some st
     })"

definition push_create ::
    "('z, 'h) env \<Rightarrow> int \<Rightarrow> int \<Rightarrow> string \<Rightarrow> string \<Rightarrow> ('z, 'h) control \<Rightarrow> ('z, 'h) control option" where
  "push_create E node_id parent_id main_addr ping_addr st =
    (if parent_id = id_of (C_NODE st) then do {
       st1 \<leftarrow> connect_child E node_id (Some main_addr) (Some ping_addr) st;
       rec_create E node_id CODE_OK (Some ''OK'') 0 st1
     }
     else
       let (uuid, st1) = gen_uuid E st in
       push_down E [Some uuid, Some ''create'', Some (int_to_str node_id), Some (int_to_str parent_id),
           Some main_addr, Some ping_addr, None] (answer_count_push E uuid st1))"

definition cmd_create :: "('z, 'h) env \<Rightarrow> int \<Rightarrow> ('z, 'h) control \<Rightarrow> ('z, 'h) control option" where
  "cmd_create E node_id st = do {
     found \<leftarrow> btree_find (TREE st) node_id;
     if pid found \<noteq> -1 then Some (print_line ''Error: Already exists'' st)
     else do {
       (rep_main, req_main, shift1) \<leftarrow> gen_address (address_shift st);
       (rep_ping, req_ping, shift2) \<leftarrow> gen_address shift1;
       let st1 = st\<lparr>address_shift := shift2\<rparr>;
       let new_pid = os_fork (the_os E) (trace st1);
       let st2 = emit_event (Forked new_pid) st1;
       case error_handler E (new_pid \<ge> 0) ''node create error'' st2 of Some dead \<Rightarrow> Some dead | None \<Rightarrow>
       if new_pid = 0 then
         Some (emit_event (Became [''./compute_node'', int_to_str node_id, rep_main, rep_ping]) st2)
       else do {
         (t, _) \<leftarrow> btree_add (os_realloc (the_os E) (TREE st2)) (TREE st2)
                     \<lparr>id_of = node_id, pid = new_pid, main_address = Some req_main, ping_address = Some req_ping\<rparr>;
         let st3 = st2\<lparr>TREE := t\<rparr>;
         new_node_parent \<leftarrow> btree_last_elem_parent t;
         push_create E node_id (id_of new_node_parent) req_main req_ping st3
       }
     }
   }"

section \<open>Executing commands on nodes\<close>

definition cmd_exec_c ::
    "('z, 'h) env \<Rightarrow> bool \<Rightarrow> int \<Rightarrow> string option \<Rightarrow> int \<Rightarrow> ('z, 'h) control \<Rightarrow> ('z, 'h) control option" where
  "cmd_exec_c E is_set node_id name v st = do {
     node \<leftarrow> btree_find (TREE st) node_id;
     if pid node = -1 then Some (print_line ''Error: Not found'' st)
     else if pid node = pid (C_NODE st)
     then Some (print_line ''Error: The control node cannot be computational'' st)
     else
       let (uuid, st1) = gen_uuid E st; st2 = answer_count_push E uuid st1 in
       push_down E ([Some uuid, Some ''exec'', Some (int_to_str node_id), name] @
         (if is_set then [Some (int_to_str v)] else []) @ [None]) st2
   }"

definition rec_exec :: "int \<Rightarrow> int \<Rightarrow> string option \<Rightarrow> int \<Rightarrow> ('z, 'h) control \<Rightarrow> ('z, 'h) control option" where
  "rec_exec node_id code answer count_answers st =
    (if code = CODE_ERROR_NOT_FOUND \<and> count_answers = 0 \<or> code = CODE_ERROR_CUSTOM
     then print_error answer (''Error:'' @ int_to_str node_id @ '': '') st
     else if code = CODE_OK then print_error answer (''Ok:'' @ int_to_str node_id @ '': '') st
     else Some st)"

text \<open>The result tells whether a heartbeat worker has to be started.\<close>

definition cmd_heartbeat :: "int \<Rightarrow> ('z, 'h) control \<Rightarrow> bool \<times> ('z, 'h) control" where
  "cmd_heartbeat time st =
    (if time < 0 then (False, print_line ''Error: time must be equal or greater than zero'' st)
     else if time = 0 then (False, (print_line ''Heartbeat stopped'' st)\<lparr>heartbeat_time := time\<rparr>)
     else
       let st1 = print_line ''OK'' st in
       if heartbeat_time st1 \<noteq> 0 then (False, st1\<lparr>heartbeat_time := time\<rparr>)
       else (True, st1\<lparr>heartbeat_time := time\<rparr>))"

section \<open>Removing nodes\<close>

text \<open>
  A removal is a sequence of commands, stored as one array of strings in which every command is
  closed by a NULL entry. \<open>skip_cmds cs n i\<close> is the loop that steps over the first \<open>n\<close> commands,
  for the array that starts at index \<open>i\<close> with \<open>cs\<close>; the result is the index behind them.
\<close>

fun skip_cmds :: "string option list \<Rightarrow> int \<Rightarrow> nat \<Rightarrow> nat option" where
  "skip_cmds [] n i = (if n \<le> 0 then Some i else None)"
| "skip_cmds (c # cs) n i =
     (if n \<le> 0 then Some i else skip_cmds cs (if c = None then n - 1 else n) (Suc i))"

text \<open>Reading an entry of the array, which may be NULL, and freeing all of them.\<close>

definition entry_at :: "string option list \<Rightarrow> nat \<Rightarrow> string option option" where
  "entry_at cs k = (if k < length cs then Some (cs ! k) else None)"

definition free_commands :: "remove_struct \<Rightarrow> unit option" where
  "free_commands rs = (if len_commands rs \<le> int (length (commands rs)) then Some () else None)"

text \<open>Whether the current command of a removal is the one that was answered.\<close>

definition awaits :: "string \<Rightarrow> string \<Rightarrow> remove_struct \<Rightarrow> bool option" where
  "awaits command str_id rs = do {
     str_it \<leftarrow> skip_cmds (commands rs) (now_command rs) 0;
     c \<leftarrow> slot (commands rs) str_it;
     if command = c then do { i \<leftarrow> slot (commands rs) (str_it + 1); Some (str_id = i) }
     else Some False
   }"

text \<open>The loop over the list; the second component is \<open>rs\<close>, \<open>None\<close> while it is uninitialised.\<close>

partial_function (option) search_loop ::
    "remove_struct rm_list \<Rightarrow> string \<Rightarrow> string \<Rightarrow> list_iter \<Rightarrow> remove_struct option \<Rightarrow>
     (list_iter \<times> remove_struct option) option" where
  "search_loop l command str_id it r = do {
     e \<leftarrow> list_iter_end l;
     if list_iter_equal it e then Some (it, r)
     else do {
       v \<leftarrow> list_iter_get l it;
       hit \<leftarrow> awaits command str_id v;
       if hit then Some (it, Some v)
       else do { it' \<leftarrow> list_iter_move_next l it; search_loop l command str_id it' (Some v) }
     }
   }"

text \<open>The last step of a removal: the node is taken out of the map and of the table.\<close>

definition finish_removal :: "('z, 'h) env \<Rightarrow> remove_struct \<Rightarrow> ('z, 'h) control \<Rightarrow> ('z, 'h) control option" where
  "finish_removal E rs st = do {
     node \<leftarrow> btree_find (TREE st) (remove_node_id rs);
     let st1 = emit_event (Waited (pid node)) st;
     let key = int_to_str (remove_node_id rs);
     let st2 = (if hashmap_get (the_map E) (nodes_ping_map st1) key \<noteq> None
                then st1\<lparr>nodes_ping_map := hashmap_remove (the_map E) (nodes_ping_map st1) key\<rparr> else st1);
     (t, _) \<leftarrow> btree_remove (TREE st2) (remove_node_id rs);
     Some (print_line ''Ok'' (st2\<lparr>TREE := t\<rparr>))
   }"

text \<open>
  \<open>rec_remove\<close> without its last call: \<open>Inr\<close> is the removal whose next command has to be sent.
\<close>

definition rec_remove_body ::
    "('z, 'h) env \<Rightarrow> string \<Rightarrow> int \<Rightarrow> int \<Rightarrow> string option \<Rightarrow> int \<Rightarrow> ('z, 'h) control \<Rightarrow>
     (('z, 'h) control + ('z, 'h) control \<times> remove_struct) option" where
  "rec_remove_body E command node_id code answer count_answers st =
    (if code = CODE_ERROR_NOT_FOUND \<and> count_answers > 0 then Some (Inl st)
     else do {
       let str_id = int_to_str node_id;
       (li, r) \<leftarrow> search_loop (remove_list st) command str_id (list_iter_begin (remove_list st)) None;
       e \<leftarrow> list_iter_end (remove_list st);
       let st1 = (if list_iter_equal li e then print_line ''Error: Not found in remove_list'' st else st);
       rs0 \<leftarrow> r;
       n \<leftarrow> int_inc (now_command rs0);
       let rs = rs0\<lparr>now_command := n\<rparr>;
       l1 \<leftarrow> list_iter_set (remove_list st1) li rs;
       let st2 = st1\<lparr>remove_list := l1\<rparr>;
       if (code = CODE_ERROR_NOT_FOUND \<and> count_answers = 0) \<or> code = CODE_ERROR_CUSTOM then do {
         (l2, _) \<leftarrow> list_iter_remove (remove_list st2) li;
         _ \<leftarrow> free_commands rs;
         st3 \<leftarrow> print_error answer (''Error: Failed to '' @ command @ '' '' @ str_id @ '': '') (st2\<lparr>remove_list := l2\<rparr>);
         Some (Inl st3)
       }
       else if code = CODE_OK then
         (if now_command rs \<ge> number_commands rs then do {
            (l2, _) \<leftarrow> list_iter_remove (remove_list st2) li;
            _ \<leftarrow> free_commands rs;
            map_option Inl (finish_removal E rs (st2\<lparr>remove_list := l2\<rparr>))
          }
          else Some (Inr (st2, rs)))
       else Some (Inl st2)
     })"

text \<open>
  \<open>push_next_remove\<close> without its last call: \<open>Inr\<close> is a command that concerns the control node's
  own sockets, which it answers itself.
\<close>

definition push_next_remove_body ::
    "('z, 'h) env \<Rightarrow> remove_struct \<Rightarrow> ('z, 'h) control \<Rightarrow>
     (('z, 'h) control + ('z, 'h) control \<times> string \<times> int) option" where
  "push_next_remove_body E rms st = do {
     k \<leftarrow> skip_cmds (commands rms) (now_command rms) 0;
     cmd \<leftarrow> slot (commands rms) k;
     let (uuid, st1) = gen_uuid E st;
     let send = (\<lambda>args. map_option Inl
           (push_down E ([Some uuid, Some cmd] @ args @ replicate (5 - length args) None) (answer_count_push E uuid st1)));
     if cmd = ''remove'' then do { a \<leftarrow> entry_at (commands rms) (k + 1); send [a] }
     else if cmd = ''disconnect'' then do {
       id1 \<leftarrow> slot (commands rms) (k + 1);
       let node_id = long_to_int (strtol id1);
       if left_child_id (CONTROL_NODE st1) = node_id \<or> right_child_id (CONTROL_NODE st1) = node_id
       then map_option (\<lambda>st2. Inr (st2, cmd, node_id)) (close_child E node_id st1)
       else send [Some id1]
     }
     else if cmd = ''connect'' then do {
       parent_id \<leftarrow> slot (commands rms) (k + 2);
       id1 \<leftarrow> slot (commands rms) (k + 1);
       let node_id = long_to_int (strtol id1);
       a \<leftarrow> entry_at (commands rms) (k + 3);
       b \<leftarrow> entry_at (commands rms) (k + 4);
       if strtol parent_id = id_of (C_NODE st1)
       then map_option (\<lambda>st2. Inr (st2, cmd, node_id))
              (connect_child E node_id a b st1)
       else send [Some id1, Some parent_id, a, b]
     }
     else if cmd = ''ping'' then do {
       ping_id \<leftarrow> slot (commands rms) (k + 1);
       if id_of (C_NODE st1) = strtol ping_id then Some (Inr (st1, cmd, id_of (C_NODE st1)))
       else send [Some ping_id]
     }
     else send []
   }"

text \<open>The two functions call each other; the recursion may not end, which is \<open>None\<close> too.\<close>

partial_function (option) rec_remove ::
    "('z, 'h) env \<Rightarrow> string \<Rightarrow> int \<Rightarrow> int \<Rightarrow> string option \<Rightarrow> int \<Rightarrow> ('z, 'h) control \<Rightarrow> ('z, 'h) control option" where
  "rec_remove E command node_id code answer count_answers st = do {
     r \<leftarrow> rec_remove_body E command node_id code answer count_answers st;
     case r of
       Inl st' \<Rightarrow> Some st'
     | Inr (st1, rs) \<Rightarrow> do {
         p \<leftarrow> push_next_remove_body E rs st1;
         case p of
           Inl st' \<Rightarrow> Some st'
         | Inr (st2, cmd, nid) \<Rightarrow> rec_remove E cmd nid CODE_OK (Some ''OK'') 0 st2
       }
   }"

definition push_next_remove :: "('z, 'h) env \<Rightarrow> remove_struct \<Rightarrow> ('z, 'h) control \<Rightarrow> ('z, 'h) control option" where
  "push_next_remove E rms st = do {
     p \<leftarrow> push_next_remove_body E rms st;
     case p of
       Inl st' \<Rightarrow> Some st'
     | Inr (st2, cmd, nid) \<Rightarrow> rec_remove E cmd nid CODE_OK (Some ''OK'') 0 st2
   }"

text \<open>
  The commands of a removal. \<open>rm\<close> is the node to remove, \<open>par\<close>, \<open>lc\<close>, \<open>rc\<close> its parent and children,
  \<open>lst\<close> the last node of the table, which takes its place. The first component is the number of
  commands that will be executed; the entries behind them are not used.
\<close>

definition removal_commands ::
    "b_tree_node \<Rightarrow> b_tree_node \<Rightarrow> b_tree_node \<Rightarrow> b_tree_node \<Rightarrow> b_tree_node \<Rightarrow> int \<times> string option list" where
  "removal_commands rm lst_node par lc rc =
    (let r = Some (int_to_str (id_of rm)); l = Some (int_to_str (id_of lst_node)) in
     if id_of lst_node = id_of rm then
       (2, [Some ''remove'', r, None, Some ''disconnect'', r, None])
     else
       (5 + (if id_of lc \<noteq> id_of lst_node \<and> id_of lc \<noteq> -1 then 1 else 0)
          + (if id_of rc \<noteq> id_of lst_node \<and> id_of rc \<noteq> -1 then 1 else 0),
        [Some ''ping'', r, None,
         Some ''disconnect'', l, None,
         Some ''remove'', r, None,
         Some ''disconnect'', r, None,
         Some ''connect'', l, Some (int_to_str (id_of par)), str_copy (main_address lst_node),
           str_copy (ping_address lst_node), None,
         Some ''connect'', Some (int_to_str (id_of lc)), l, str_copy (main_address lc), str_copy (ping_address lc), None,
         Some ''connect'', Some (int_to_str (id_of rc)), l, str_copy (main_address rc), str_copy (ping_address rc), None]))"

definition cmd_remove_c :: "('z, 'h) env \<Rightarrow> int \<Rightarrow> ('z, 'h) control \<Rightarrow> ('z, 'h) control option" where
  "cmd_remove_c E node_id st = do {
     removed \<leftarrow> btree_find (TREE st) node_id;
     if pid removed = -1 then Some (print_line ''Error: Not found'' st)
     else if pid removed = pid (C_NODE st)
     then Some (print_line ''Error: The control removed_node cannot be deleted'' st)
     else do {
       last_node \<leftarrow> btree_last_elem (TREE st);
       lc \<leftarrow> btree_get_left (TREE st) node_id;
       rc \<leftarrow> btree_get_right (TREE st) node_id;
       par \<leftarrow> btree_get_parent (TREE st) node_id;
       let (n, cs) = removal_commands removed last_node par lc rc;
       let rms = \<lparr>len_commands = int (length cs), remove_node_id = id_of removed, commands = cs,
           number_commands = n, now_command = 0\<rparr>;
       (l, _) \<leftarrow> list_iter_insert_before (os_malloc (the_os E) (remove_list st)) (remove_list st)
                   (list_iter_begin (remove_list st)) rms;
       push_next_remove E rms (st\<lparr>remove_list := l\<rparr>)
     }
   }"

section \<open>Answers\<close>

definition receive_process :: "('z, 'h) env \<Rightarrow> string option list \<Rightarrow> ('z, 'h) control \<Rightarrow> ('z, 'h) control option" where
  "receive_process E message st = do {
     uuid \<leftarrow> slot message 0;
     case hashmap_get (the_map E) (answer_count_map st) uuid of
       None \<Rightarrow> Some st
     | Some p \<Rightarrow> do {
         c \<leftarrow> (if p < length (cells st) \<and> cells st ! p > INT_MIN then Some (cells st ! p - 1) else None);
         let st1 = st\<lparr>cells := (cells st)[p := c]\<rparr>;
         node_id \<leftarrow> slot message 2;
         let int_id = long_to_int (strtol node_id);
         code_str \<leftarrow> slot message 3;
         let int_code = long_to_int (strtol code_str);
         command \<leftarrow> slot message 1;
         let answer = slot message 4;
         st2 \<leftarrow> (if command = ''create'' then rec_create E int_id int_code answer c st1
                else if command \<in> {''remove'', ''ping'', ''connect'', ''disconnect''}
                then rec_remove E command int_id int_code answer c st1
                else if command = ''exec'' then rec_exec int_id int_code answer c st1
                else Some (print_line (''unknown command '' @ command) st1));
         let left = cells st2 ! p;
         Some (if (int_code = CODE_ERROR_NOT_FOUND \<and> left = 0) \<or> int_code = CODE_ERROR_CUSTOM \<or> int_code = CODE_OK
               then st2\<lparr>answer_count_map := hashmap_remove (the_map E) (answer_count_map st2) uuid\<rparr> else st2)
       }
   }"

text \<open>The message array is reused without cleaning it between messages.\<close>

partial_function (option) receive_messages ::
    "('z, 'h) env \<Rightarrow> addr \<Rightarrow> string option list \<Rightarrow> ('z, 'h) control \<Rightarrow> ('z, 'h) control option" where
  "receive_messages E sock message st =
    (if sock = NULL then Some st
     else do {
       (n, message1, z) \<leftarrow> mqn_receive (the_zmq E) sock message (zmq_st st);
       let st1 = st\<lparr>zmq_st := z\<rparr>;
       if n > 0 then do { st2 \<leftarrow> receive_process E message1 st1; receive_messages E sock message1 st2 }
       else Some st1
     })"

definition receive_from_socket :: "('z, 'h) env \<Rightarrow> addr \<Rightarrow> ('z, 'h) control \<Rightarrow> ('z, 'h) control option" where
  "receive_from_socket E sock st = receive_messages E sock (replicate 5 None) st"

text \<open>One round of \<open>receive_worker\<close>.\<close>

definition receive_round :: "('z, 'h) env \<Rightarrow> ('z, 'h) control \<Rightarrow> ('z, 'h) control option" where
  "receive_round E st = do {
     st1 \<leftarrow> receive_from_socket E (left_child_main_socket (CONTROL_NODE st)) st;
     receive_from_socket E (right_child_main_socket (CONTROL_NODE st1)) st1
   }"

section \<open>Heartbeat\<close>

definition bump_cell :: "nat \<Rightarrow> ('z, 'h) control \<Rightarrow> ('z, 'h) control option" where
  "bump_cell p st = do {
     v \<leftarrow> (if p < length (cells st) then int_inc (cells st ! p) else None);
     Some (st\<lparr>cells := (cells st)[p := v]\<rparr>)
   }"

fun bump_all :: "nat list \<Rightarrow> ('z, 'h) control \<Rightarrow> ('z, 'h) control option" where
  "bump_all [] st = Some st"
| "bump_all (p # ps) st = do { st1 \<leftarrow> bump_cell p st; bump_all ps st1 }"

definition push_ping :: "('z, 'h) env \<Rightarrow> addr \<Rightarrow> ('z, 'h) control \<Rightarrow> ('z, 'h) control option" where
  "push_ping E sock st =
     map_option (\<lambda>z. st\<lparr>zmq_st := z\<rparr>) (push_if (the_zmq E) sock [Some ''ping'', None] (zmq_st st))"

definition receive_pong :: "('z, 'h) env \<Rightarrow> string option list \<Rightarrow> ('z, 'h) control \<Rightarrow> ('z, 'h) control option" where
  "receive_pong E rec_msg st = do {
     node_id \<leftarrow> slot rec_msg 1;
     case hashmap_get (the_map E) (nodes_ping_map st) node_id of
       None \<Rightarrow> Some st
     | Some p \<Rightarrow> if p < length (cells st) then Some (st\<lparr>cells := (cells st)[p := 0]\<rparr>) else None
   }"

partial_function (option) receive_pongs ::
    "('z, 'h) env \<Rightarrow> addr \<Rightarrow> string option list \<Rightarrow> ('z, 'h) control \<Rightarrow> ('z, 'h) control option" where
  "receive_pongs E sock rec_msg st =
    (if sock = NULL then Some st
     else do {
       (n, rec_msg1, z) \<leftarrow> mqn_receive (the_zmq E) sock rec_msg (zmq_st st);
       let st1 = st\<lparr>zmq_st := z\<rparr>;
       if n > 0 then do {
         first_part \<leftarrow> slot rec_msg1 0;
         if first_part = ''pong''
         then do { st2 \<leftarrow> receive_pong E rec_msg1 st1; receive_pongs E sock rec_msg1 st2 }
         else Some st1
       }
       else Some st1
     })"

definition receive_pong_from_socket :: "('z, 'h) env \<Rightarrow> addr \<Rightarrow> ('z, 'h) control \<Rightarrow> ('z, 'h) control option" where
  "receive_pong_from_socket E sock st = receive_pongs E sock [None, None] st"

text \<open>The inner loop of the worker: \<open>k\<close> is how often it polls before the time is up.\<close>

fun pong_polls :: "('z, 'h) env \<Rightarrow> nat \<Rightarrow> ('z, 'h) control \<Rightarrow> ('z, 'h) control option" where
  "pong_polls E 0 st = Some st"
| "pong_polls E (Suc k) st = do {
     st1 \<leftarrow> receive_pong_from_socket E (left_child_ping_socket (CONTROL_NODE st)) st;
     st2 \<leftarrow> receive_pong_from_socket E (right_child_ping_socket (CONTROL_NODE st1)) st1;
     pong_polls E k st2
   }"

fun report_missing :: "(string \<times> nat) list \<Rightarrow> ('z, 'h) control \<Rightarrow> ('z, 'h) control" where
  "report_missing [] st = st"
| "report_missing ((key, p) # es) st =
     report_missing es (if cells st ! p = 4
       then print_line (''Heartbeat: node '' @ key @ '' is unavailable now'') st else st)"

definition heartbeat_round :: "('z, 'h) env \<Rightarrow> nat \<Rightarrow> ('z, 'h) control \<Rightarrow> ('z, 'h) control option" where
  "heartbeat_round E k st = do {
     st1 \<leftarrow> bump_all (map snd (hashmap_entries (the_map E) (nodes_ping_map st))) st;
     st2 \<leftarrow> push_ping E (left_child_ping_socket (CONTROL_NODE st1)) st1;
     st3 \<leftarrow> push_ping E (right_child_ping_socket (CONTROL_NODE st2)) st2;
     st4 \<leftarrow> pong_polls E k st3;
     Some (report_missing (hashmap_entries (the_map E) (nodes_ping_map st4)) st4)
   }"

section \<open>Start and end of the program\<close>

definition control_start :: "('z, 'h) env \<Rightarrow> int \<Rightarrow> addr \<Rightarrow> 'z \<Rightarrow> ('z, 'h) control option" where
  "control_start E own_pid barrier_addr z = do {
     let self = \<lparr>id_of = -1, pid = own_pid, main_address = None, ping_address = None\<rparr>;
     (t, _) \<leftarrow> btree_add (os_realloc (the_os E) btree_init) btree_init self;
     l \<leftarrow> list_init \<lparr>heap = [barrier_addr \<mapsto> \<lparr>val = None, pn = NULL\<rparr>], barrier = barrier_addr,
            first = NULL, list_size = 0\<rparr>;
     (main_addr, _, shift1) \<leftarrow> gen_address 5000;
     (ping_addr, _, shift2) \<leftarrow> gen_address shift1;
     let (m, z1) = mqn_init (the_zmq E) z;
     z2 \<leftarrow> mqn_bind (the_zmq E) m main_addr ping_addr z1;
     Some \<lparr>TREE = t, C_NODE = self, CONTROL_NODE = m, address_shift = shift2, heartbeat_time = 0,
       answer_count_map = hashmap_init (the_map E), nodes_ping_map = hashmap_init (the_map E),
       cells = [], remove_list = l, zmq_st = z2, trace = []\<rparr>
   }"

text \<open>The end of \<open>main\<close>: every node but the control node itself is killed and waited for.\<close>

fun kill_from :: "nat \<Rightarrow> nat \<Rightarrow> ('z, 'h) control \<Rightarrow> ('z, 'h) control option" where
  "kill_from 0 i st = Some st"
| "kill_from (Suc k) i st = do {
     n \<leftarrow> mem_get (buf (TREE st)) i;
     kill_from k (Suc i) (emit_event (Waited (pid n)) (emit_event (Killed (pid n)) st))
   }"

definition control_stop :: "('z, 'h) env \<Rightarrow> ('z, 'h) control \<Rightarrow> ('z, 'h) control option" where
  "control_stop E st = kill_from (bt_size (TREE st) - 1) 1 st"

section \<open>Lemmas: answers to a command\<close>

text \<open>\<open>pending E st u c\<close>: the request \<open>u\<close> waits for \<open>c\<close> more answers.\<close>

definition pending :: "('z, 'h) env \<Rightarrow> ('z, 'h) control \<Rightarrow> string \<Rightarrow> int \<Rightarrow> bool" where
  "pending E st u c \<longleftrightarrow>
     (\<exists>p. hashmap_get (the_map E) (answer_count_map st) u = Some p \<and> p < length (cells st) \<and> cells st ! p = c)"

definition answered :: "('z, 'h) env \<Rightarrow> ('z, 'h) control \<Rightarrow> string \<Rightarrow> bool" where
  "answered E st u \<longleftrightarrow> hashmap_get (the_map E) (answer_count_map st) u = None"

fun receive_all :: "('z, 'h) env \<Rightarrow> string option list list \<Rightarrow> ('z, 'h) control \<Rightarrow> ('z, 'h) control option" where
  "receive_all E [] st = Some st"
| "receive_all E (m # ms) st = do { st1 \<leftarrow> receive_process E m st; receive_all E ms st1 }"

lemma receive_all_append:
  "receive_all E (ms @ ms') st = do { st1 \<leftarrow> receive_all E ms st; receive_all E ms' st1 }"
  by (induction ms arbitrary: st) (auto simp: Option.bind_assoc fun_eq_iff intro: arg_cong [where f = "Option.bind _"])

definition answer_msg :: "string \<Rightarrow> string \<Rightarrow> int \<Rightarrow> int \<Rightarrow> string \<Rightarrow> string option list" where
  "answer_msg u command i code txt =
     [Some u, Some command, Some (int_to_str i), Some (int_to_str code), Some txt]"

lemma slot_answer_msg [simp]:
  "slot (answer_msg u command i code txt) 0 = Some u"
  "slot (answer_msg u command i code txt) 1 = Some command"
  "slot (answer_msg u command i code txt) (Suc 0) = Some command"
  "slot (answer_msg u command i code txt) 2 = Some (int_to_str i)"
  "slot (answer_msg u command i code txt) 3 = Some (int_to_str code)"
  "slot (answer_msg u command i code txt) 4 = Some txt"
  by (simp_all add: answer_msg_def slot_def)

lemma strtol_id [simp]: "is_int i \<Longrightarrow> long_to_int (strtol (int_to_str i)) = i"
  by (simp add: strtol_int_to_str long_to_int_id)

lemma is_int_codes [simp]: "is_int 0" "is_int 1" "is_int 2" "is_int 3" "is_int (-1)"
  by (simp_all add: is_int_def)

lemma late_answers_ignored:
  "answered E st u \<Longrightarrow> \<forall>m \<in> set ms. slot m 0 = Some u \<Longrightarrow> receive_all E ms st = Some st"
  by (induction ms) (auto simp: answered_def receive_process_def)

lemma receive_process_exec:
  assumes "hashmap_get (the_map E) (answer_count_map st) u = Some p" "p < length (cells st)"
    "INT_MIN < cells st ! p" "is_int i" "is_int code"
  shows "receive_process E (answer_msg u ''exec'' i code txt) st = do {
    st2 \<leftarrow> rec_exec i code (Some txt) (cells st ! p - 1) (st\<lparr>cells := (cells st)[p := cells st ! p - 1]\<rparr>);
    Some (if code = CODE_ERROR_NOT_FOUND \<and> cells st2 ! p = 0 \<or> code = CODE_ERROR_CUSTOM \<or> code = CODE_OK
       then st2\<lparr>answer_count_map := hashmap_remove (the_map E) (answer_count_map st2) u\<rparr> else st2) }"
  using assms by (simp add: receive_process_def Let_def)

lemma exec_not_found:
  assumes "pending E st u c" "is_int i" "1 < c"
  shows "\<exists>st'. receive_process E (answer_msg u ''exec'' i CODE_ERROR_NOT_FOUND ERROR_NOT_FOUND) st = Some st' \<and>
    pending E st' u (c - 1) \<and> trace st' = trace st"
  using assms receive_process_exec [of E st u _ i CODE_ERROR_NOT_FOUND ERROR_NOT_FOUND]
  by (auto simp: pending_def rec_exec_def)

lemma exec_last_not_found:
  assumes "hashmap_laws (the_map E)" "pending E st u 1" "is_int i"
  shows "\<exists>st'. receive_process E (answer_msg u ''exec'' i CODE_ERROR_NOT_FOUND ERROR_NOT_FOUND) st = Some st' \<and>
    answered E st' u \<and> trace st' = trace st @ [Printed (''Error:'' @ int_to_str i @ '': Not found'')]"
  using assms receive_process_exec [of E st u _ i CODE_ERROR_NOT_FOUND ERROR_NOT_FOUND]
  by (auto simp: pending_def answered_def rec_exec_def print_error_def emit_event_def hashmap_get_remove)

text \<open>The line a final answer to \<open>exec\<close> prints.\<close>

definition exec_line :: "int \<Rightarrow> int \<Rightarrow> string \<Rightarrow> string" where
  "exec_line i code txt = (if code = CODE_OK then ''Ok:'' else ''Error:'') @ int_to_str i @ '': '' @ txt"

lemma exec_final:
  assumes "hashmap_laws (the_map E)" "pending E st u c" "is_int i" "0 < c" "code = CODE_OK \<or> code = CODE_ERROR_CUSTOM"
  shows "\<exists>st'. receive_process E (answer_msg u ''exec'' i code txt) st = Some st' \<and>
    answered E st' u \<and> trace st' = trace st @ [Printed (exec_line i code txt)]"
  by (rule disjE [OF assms(5)]) (use assms(1-4) receive_process_exec [of E st u _ i code "txt"] in
    \<open>auto simp: pending_def answered_def rec_exec_def exec_line_def print_error_def emit_event_def hashmap_get_remove\<close>)

lemma exec_not_founds:
  assumes "is_int i"
  shows "pending E st u c \<Longrightarrow> int k < c \<Longrightarrow>
    \<exists>st'. receive_all E (replicate k (answer_msg u ''exec'' i CODE_ERROR_NOT_FOUND ERROR_NOT_FOUND)) st = Some st' \<and>
      pending E st' u (c - int k) \<and> trace st' = trace st"
proof (induction k arbitrary: st c)
  case (Suc k)
  then obtain st1 where st1: "receive_process E (answer_msg u ''exec'' i CODE_ERROR_NOT_FOUND ERROR_NOT_FOUND) st = Some st1"
      "pending E st1 u (c - 1)" "trace st1 = trace st"
    using exec_not_found [OF Suc.prems(1) assms] by auto
  with Suc.IH [OF st1(2)] Suc.prems(2) show ?case by (auto simp: algebra_simps)
qed simp

section \<open>Properties: commands and answers\<close>

text \<open>
  One line per command. A request that waits for \<open>n\<close> answers prints exactly one line. If
  \<open>k < n\<close> nodes answer that they do not know the target and then the target answers, the line
  reports the answer; if all \<open>n\<close> do not know it, the last one makes it an error. In both cases
  the request is closed, and all later answers to it are ignored.
\<close>

theorem exec_one_line:
  assumes "hashmap_laws (the_map E)" "pending E st u (int n)" "is_int i" "k < n"
    and "\<forall>m \<in> set late. slot m 0 = Some u"
  shows "\<exists>st1 st2.
    receive_all E (replicate k (answer_msg u ''exec'' i CODE_ERROR_NOT_FOUND ERROR_NOT_FOUND) @
        answer_msg u ''exec'' i CODE_OK txt # late) st = Some st1 \<and>
    trace st1 = trace st @ [Printed (''Ok:'' @ int_to_str i @ '': '' @ txt)] \<and> answered E st1 u \<and>
    receive_all E (replicate n (answer_msg u ''exec'' i CODE_ERROR_NOT_FOUND ERROR_NOT_FOUND) @ late) st = Some st2 \<and>
    trace st2 = trace st @ [Printed (''Error:'' @ int_to_str i @ '': Not found'')] \<and> answered E st2 u"
proof -
  obtain m where n: "n = Suc m" using assms(4) by (cases n) auto
  obtain sa where sa: "receive_all E (replicate k (answer_msg u ''exec'' i CODE_ERROR_NOT_FOUND ERROR_NOT_FOUND)) st = Some sa"
      "pending E sa u (int n - int k)" "trace sa = trace st"
    using exec_not_founds [OF assms(3,2), of k] assms(4) by auto
  obtain sb where sb: "receive_process E (answer_msg u ''exec'' i CODE_OK txt) sa = Some sb"
      "answered E sb u" "trace sb = trace sa @ [Printed (''Ok:'' @ int_to_str i @ '': '' @ txt)]"
    using exec_final [OF assms(1) sa(2) assms(3), of CODE_OK "txt"] assms(4) by (auto simp: exec_line_def)
  obtain sc where sc: "receive_all E (replicate m (answer_msg u ''exec'' i CODE_ERROR_NOT_FOUND ERROR_NOT_FOUND)) st = Some sc"
      "pending E sc u 1" "trace sc = trace st"
    using exec_not_founds [OF assms(3,2), of m] n by auto
  obtain sd where sd: "receive_process E (answer_msg u ''exec'' i CODE_ERROR_NOT_FOUND ERROR_NOT_FOUND) sc = Some sd"
      "answered E sd u" "trace sd = trace sc @ [Printed (''Error:'' @ int_to_str i @ '': Not found'')]"
    using exec_last_not_found [OF assms(1) sc(2) assms(3)] by blast
  have "replicate n (answer_msg u ''exec'' i CODE_ERROR_NOT_FOUND ERROR_NOT_FOUND) @ late =
      replicate m (answer_msg u ''exec'' i CODE_ERROR_NOT_FOUND ERROR_NOT_FOUND) @
        answer_msg u ''exec'' i CODE_ERROR_NOT_FOUND ERROR_NOT_FOUND # late"
    unfolding n by (simp add: replicate_append_same [symmetric])
  with sa sb sc sd late_answers_ignored [OF sb(2) assms(5)] late_answers_ignored [OF sd(2) assms(5)] show ?thesis
    by (simp add: receive_all_append)
qed

section \<open>Lemmas: sending a request\<close>

definition sent_down ::
    "('z \<Rightarrow> addr \<Rightarrow> (string \<times> bool) list) \<Rightarrow> mq_node \<Rightarrow> string list \<Rightarrow> 'z \<Rightarrow> 'z \<Rightarrow> bool" where
  "sent_down sent m ps z z' \<longleftrightarrow> (\<forall>s. sent z' s = sent z s @ to_children m (flagged ps) s)"

text \<open>Every uuid that may come is new: no request waits under it.\<close>

definition fresh_uuids :: "('z, 'h) env \<Rightarrow> ('z, 'h) control \<Rightarrow> bool" where
  "fresh_uuids E st \<longleftrightarrow> (\<forall>t. answered E st (os_uuid (the_os E) (trace st @ t)))"

lemma fresh_uuids_mono:
  "fresh_uuids E st \<Longrightarrow> answer_count_map st' = answer_count_map st \<Longrightarrow> trace st' = trace st @ t \<Longrightarrow>
   fresh_uuids E st'"
  by (simp add: fresh_uuids_def answered_def)

text \<open>
  The environment behaves as documented; no call fails, nodes' addresses are accepted, and a uuid
  never comes again.
\<close>

definition good_env :: "('z, 'h) env \<Rightarrow> ('z \<Rightarrow> addr \<Rightarrow> (string \<times> bool) list) \<Rightarrow> bool" where
  "good_env E sent \<longleftrightarrow> zmq_records (the_zmq E) sent \<and> zmq_accepts (the_zmq E) UNIV \<and> hashmap_laws (the_map E) \<and>
     (\<forall>t e s. os_uuid (the_os E) (t @ e # s) \<noteq> os_uuid (the_os E) t)"

lemma good_env_accepts: "good_env E sent \<Longrightarrow> zmq_accepts (the_zmq E) addrs"
  by (auto simp: good_env_def zmq_accepts_def)

lemma answer_count_value:
  "n < 2 ^ 30 \<Longrightarrow> long_to_int (int (sz_add n 1 div 2)) = int ((n + 1) div 2)"
  by (subst long_to_int_id) (auto simp: sz_add_def is_int_def)

lemma answer_count_push_spec:
  assumes "hashmap_laws (the_map E)" "answered E st u" "bt_size (TREE st) < 2 ^ 30"
  shows "\<exists>h. answer_count_push E u st =
      st\<lparr>cells := cells st @ [int ((bt_size (TREE st) + 1) div 2)], answer_count_map := h\<rparr> \<and>
    hashmap_get (the_map E) h = (hashmap_get (the_map E) (answer_count_map st))(u \<mapsto> length (cells st))"
proof -
  obtain h where "hashmap_put (the_map E) (answer_count_map st) u (length (cells st)) = (0, h)"
      "hashmap_get (the_map E) h = (hashmap_get (the_map E) (answer_count_map st))(u \<mapsto> length (cells st))"
    using hashmap_put_new [OF assms(1)] assms(2) unfolding answered_def by blast
  with answer_count_value [OF assms(3)] show ?thesis
    by (auto simp: answer_count_push_def new_cell_def)
qed

text \<open>\<open>gen_uuid\<close>, \<open>answer_count_push\<close> and \<open>mqn_push_all\<close>, as all requests are sent.\<close>

lemma send_request:
  assumes "good_env E sent" "fresh_uuids E st" "bt_size (TREE st) < 2 ^ 30"
    and "gen_uuid E st = (u, st1)" "ps \<noteq> []"
  shows "\<exists>st'. push_down E (map Some ps @ None # ms) (answer_count_push E u st1) = Some st' \<and>
    pending E st' u (int ((bt_size (TREE st) + 1) div 2)) \<and>
    sent_down sent (CONTROL_NODE st) ps (zmq_st st) (zmq_st st') \<and> trace st' = trace st @ [Made_uuid u] \<and>
    TREE st' = TREE st \<and> CONTROL_NODE st' = CONTROL_NODE st \<and> remove_list st' = remove_list st \<and>
    C_NODE st' = C_NODE st \<and> fresh_uuids E st' \<and> answered E st u"
proof -
  have st1: "st1 = emit_event (Made_uuid u) st" "u = os_uuid (the_os E) (trace st)"
    using assms(4) by (auto simp: gen_uuid_def Let_def)
  then have new: "answered E st1 u" using assms(2)
    by (auto simp: fresh_uuids_def answered_def emit_event_def dest: spec [of _ "[]"])
  moreover have "TREE st1 = TREE st" using st1 by (simp add: emit_event_def)
  ultimately obtain h where h: "answer_count_push E u st1 =
      st1\<lparr>cells := cells st1 @ [int ((bt_size (TREE st) + 1) div 2)], answer_count_map := h\<rparr>"
      "hashmap_get (the_map E) h = (hashmap_get (the_map E) (answer_count_map st1))(u \<mapsto> length (cells st1))"
    using answer_count_push_spec [of E st1 u] assms(1,3) by (auto simp: good_env_def)
  have "zmq_records (the_zmq E) sent" using assms(1) by (simp add: good_env_def)
  then obtain z' where z': "mqn_push_all (the_zmq E) (CONTROL_NODE st) (map Some ps @ None # ms) (zmq_st st) = Some z'"
      "sent_down sent (CONTROL_NODE st) ps (zmq_st st) z'"
    using push_all_sent [OF _ assms(5), of "the_zmq E" sent "CONTROL_NODE st" ms "zmq_st st"] by (auto simp: sent_down_def)
  have "fresh_uuids E st'" if "trace st' = trace st @ [Made_uuid u]" "answer_count_map st' = h" for st'
    using that assms(1,2) h(2) st1
    by (auto simp: fresh_uuids_def answered_def good_env_def emit_event_def)
  moreover have "answered E st u" using new st1(1) by (simp add: answered_def emit_event_def)
  ultimately show ?thesis
    using h z' by (auto simp: push_down_def st1(1) emit_event_def pending_def)
qed

lemma cmd_exec_sent:
  assumes "good_env E sent" "fresh_uuids E st" "btree_inv (TREE st)" "distinct (map id_of (nodes (TREE st)))"
    and "n \<in> set (nodes (TREE st))" "pid n \<noteq> -1" "pid n \<noteq> pid (C_NODE st)"
  shows "\<exists>st' u. cmd_exec_c E is_set (id_of n) (Some x) v st = Some st' \<and>
      pending E st' u (int ((length (nodes (TREE st)) + 1) div 2)) \<and> trace st' = trace st @ [Made_uuid u] \<and>
      sent_down sent (CONTROL_NODE st)
        (parts u (if is_set then Exec_set (id_of n) x v else Exec_get (id_of n) x)) (zmq_st st) (zmq_st st')"
proof -
  let ?r = "if is_set then Exec_set (id_of n) x v else Exec_get (id_of n) x"
  have found: "btree_find (TREE st) (id_of n) = Some n"
    using bt.find_present assms(3,4,5) by (auto simp: bt.well_keyed_def)
  have size: "bt_size (TREE st) < 2 ^ 30" "length (nodes (TREE st)) = bt_size (TREE st)"
    using assms(3) length_nodes [OF assms(3)] by (auto simp: btree_inv_def)
  obtain u st1 where u: "gen_uuid E st = (u, st1)" by fastforce
  have ne: "parts u ?r \<noteq> []" by (simp add: parts_def)
  obtain st' where st': "push_down E (map Some (parts u ?r) @ None # []) (answer_count_push E u st1) = Some st'"
      "pending E st' u (int ((length (nodes (TREE st)) + 1) div 2))"
      "sent_down sent (CONTROL_NODE st) (parts u ?r) (zmq_st st) (zmq_st st')" "trace st' = trace st @ [Made_uuid u]"
    using send_request [OF assms(1,2) size(1) u ne, of "[]"] size(2) by auto
  have "cmd_exec_c E is_set (id_of n) (Some x) v st = Some st'"
    using assms(6,7) found u st'(1) by (cases is_set) (simp_all add: cmd_exec_c_def parts_def)
  with st' show ?thesis by blast
qed

text \<open>
  Sending a command. A command for a node of the table that is not the control node is sent
  to all children of the control node, as the message of its request, and from then on half of
  the number of nodes, rounded up, is the number of answers to wait for. For an unknown node and
  for the control node itself only an error is printed.
\<close>

theorem cmd_exec_correct:
  assumes "good_env E sent" "fresh_uuids E st" "btree_inv (TREE st)" "distinct (map id_of (nodes (TREE st)))"
    and "n \<in> set (nodes (TREE st))" "pid n \<noteq> -1" "i \<notin> id_of ` set (nodes (TREE st))"
  shows "(pid n \<noteq> pid (C_NODE st) \<longrightarrow> (\<exists>st' u. cmd_exec_c E is_set (id_of n) (Some x) v st = Some st' \<and>
      pending E st' u (int ((length (nodes (TREE st)) + 1) div 2)) \<and> trace st' = trace st @ [Made_uuid u] \<and>
      sent_down sent (CONTROL_NODE st)
        (parts u (if is_set then Exec_set (id_of n) x v else Exec_get (id_of n) x)) (zmq_st st) (zmq_st st'))) \<and>
    (pid n = pid (C_NODE st) \<longrightarrow> cmd_exec_c E is_set (id_of n) (Some x) v st =
      Some (print_line ''Error: The control node cannot be computational'' st)) \<and>
    cmd_exec_c E is_set i (Some x) v st = Some (print_line ''Error: Not found'' st)"
proof -
  have "btree_find (TREE st) (id_of n) = Some n" "btree_find (TREE st) i = Some no_node"
    using bt.find_present bt.find_absent assms(3,4,5,7) by (auto simp: bt.well_keyed_def)
  with cmd_exec_sent [OF assms(1-6)] assms(6) show ?thesis by (auto simp: cmd_exec_c_def no_node_def)
qed

text \<open>The table entry of a new node, and its parent in the table.\<close>

definition new_entry :: "('z, 'h) env \<Rightarrow> int \<Rightarrow> ('z, 'h) control \<Rightarrow> b_tree_node" where
  "new_entry E i st = \<lparr>id_of = i, pid = os_fork (the_os E) (trace st),
     main_address = Some (''tcp://localhost:'' @ int_to_str (address_shift st)),
     ping_address = Some (''tcp://localhost:'' @ int_to_str (address_shift st + 1))\<rparr>"

definition new_parent :: "('z, 'h) control \<Rightarrow> b_tree_node" where
  "new_parent st = nodes (TREE st) ! ((length (nodes (TREE st)) - 1) div 2)"

definition create_request :: "('z, 'h) env \<Rightarrow> int \<Rightarrow> ('z, 'h) control \<Rightarrow> request" where
  "create_request E i st = Connect True i (id_of (new_parent st))
     (the (main_address (new_entry E i st))) (the (ping_address (new_entry E i st)))"

lemma new_entry_simps [simp]:
  "id_of (new_entry E i st) = i" "pid (new_entry E i st) = os_fork (the_os E) (trace st)"
  "Some (the (main_address (new_entry E i st))) = main_address (new_entry E i st)"
  "Some (the (ping_address (new_entry E i st))) = ping_address (new_entry E i st)"
  by (simp_all add: new_entry_def)

text \<open>The state in which \<open>cmd_create\<close> calls \<open>push_create\<close>.\<close>

definition after_fork :: "('z, 'h) env \<Rightarrow> b_tree \<Rightarrow> ('z, 'h) control \<Rightarrow> ('z, 'h) control" where
  "after_fork E t st = (emit_event (Forked (os_fork (the_os E) (trace st)))
     (st\<lparr>address_shift := address_shift st + 2\<rparr>))\<lparr>TREE := t\<rparr>"

lemma after_fork_simps [simp]:
  "TREE (after_fork E t st) = t" "CONTROL_NODE (after_fork E t st) = CONTROL_NODE st"
  "C_NODE (after_fork E t st) = C_NODE st" "zmq_st (after_fork E t st) = zmq_st st"
  by (simp_all add: after_fork_def emit_event_def)

lemma after_fork_fresh: "fresh_uuids E st \<Longrightarrow> fresh_uuids E (after_fork E t st)"
  by (erule fresh_uuids_mono) (simp_all add: after_fork_def emit_event_def)

text \<open>The state of the control node in which a node with the id \<open>i\<close> can be created.\<close>

definition can_create :: "('z, 'h) env \<Rightarrow> int \<Rightarrow> ('z, 'h) control \<Rightarrow> bool" where
  "can_create E i st \<longleftrightarrow> btree_inv (TREE st) \<and> distinct (map id_of (nodes (TREE st))) \<and> btree_room (TREE st) \<and>
     nodes (TREE st) \<noteq> [] \<and> i \<notin> id_of ` set (nodes (TREE st)) \<and> i \<noteq> -1 \<and>
     os_realloc (the_os E) (TREE st) \<and> 0 < os_fork (the_os E) (trace st) \<and>
     is_int (address_shift st) \<and> address_shift st + 2 \<le> INT_MAX \<and> id_of (C_NODE st) = -1 \<and>
     mqn_inv (CONTROL_NODE st) \<and> i \<notin> set (children (CONTROL_NODE st))"

lemma cmd_create_new:
  assumes "can_create E i st"
  obtains t where "btree_inv t" "nodes t = nodes (TREE st) @ [new_entry E i st]"
    "cmd_create E i st = push_create E i (id_of (new_parent st))
       (the (main_address (new_entry E i st))) (the (ping_address (new_entry E i st))) (after_fork E t st)"
proof -
  let ?n = "nodes (TREE st)" and ?node = "new_entry E i st"
  have inv: "btree_inv (TREE st)" and room: "btree_room (TREE st)" and ne: "?n \<noteq> []"
    using assms by (simp_all add: can_create_def)
  have addr: "gen_address (address_shift st) = Some (''tcp://*:'' @ int_to_str (address_shift st),
        the (main_address ?node), address_shift st + 1)"
      "gen_address (address_shift st + 1) = Some (''tcp://*:'' @ int_to_str (address_shift st + 1),
        the (ping_address ?node), address_shift st + 2)"
    using assms by (simp_all add: can_create_def gen_address_def int_inc_Some is_int_def new_entry_def Let_def)
  have absent: "btree_find (TREE st) i = Some no_node"
    using assms by (intro bt.find_absent) (auto simp: can_create_def)
  obtain t where t: "btree_add True (TREE st) ?node = Some (t, True)" "btree_inv t" "nodes t = ?n @ [?node]"
      "btree_last_elem_parent t = Some (?n ! ((bt_size (TREE st) - 1) div 2))"
    using btree_add_spec_parent [OF inv room ne] by blast
  have "btree_last_elem_parent t = Some (new_parent st)"
    using t(4) length_nodes [OF inv] by (simp add: new_parent_def)
  with absent addr t(1) assms
  have "cmd_create E i st = push_create E i (id_of (new_parent st))
       (the (main_address ?node)) (the (ping_address ?node)) (after_fork E t st)"
    by (simp add: cmd_create_def no_node_def error_handler_def emit_event_def can_create_def Let_def
        after_fork_def) (simp add: new_entry_def)
  with t(2,3) show thesis by (rule that)
qed

lemma create_at_root:
  assumes "good_env E sent" "can_create E i st" "id_of (new_parent st) = -1"
  shows "\<exists>st'. cmd_create E i st = Some st' \<and> btree_inv (TREE st') \<and>
    nodes (TREE st') = nodes (TREE st) @ [new_entry E i st] \<and>
    last (trace st') = Printed (''Ok: '' @ int_to_str (os_fork (the_os E) (trace st))) \<and>
    (length (children (CONTROL_NODE st)) < 2 \<longrightarrow> i \<in> set (children (CONTROL_NODE st')))"
proof -
  let ?node = "new_entry E i st"
  obtain t where t: "btree_inv t" "nodes t = nodes (TREE st) @ [?node]"
      "cmd_create E i st = push_create E i (id_of (new_parent st))
       (the (main_address ?node)) (the (ping_address ?node)) (after_fork E t st)"
    by (rule cmd_create_new [OF assms(2)])
  have "mqn_inv (CONTROL_NODE st)" "i \<noteq> -1" "i \<notin> set (children (CONTROL_NODE st))"
    using assms(2) by (auto simp: can_create_def)
  from mqn_connect_spec [OF this(1) good_env_accepts [OF assms(1)] this(2,3)]
  obtain m z where m: "mqn_connect (the_zmq E) (CONTROL_NODE st) i (main_address ?node) (ping_address ?node) (zmq_st st) = Some (m, z)"
      "set (children m) = (if length (children (CONTROL_NODE st)) < 2 then insert i (set (children (CONTROL_NODE st)))
         else set (children (CONTROL_NODE st)))"
    by (metis new_entry_simps(3,4))
  have find: "btree_find t i = Some ?node"
    using bt.find_present [of t ?node] t(1,2) assms(2) by (auto simp: bt.well_keyed_def can_create_def)
  have "id_of (C_NODE st) = -1" using assms(2) by (simp add: can_create_def)
  with t(3) m(1) assms(3) have "cmd_create E i st =
      rec_create E i CODE_OK (Some ''OK'') 0 ((after_fork E t st)\<lparr>CONTROL_NODE := m, zmq_st := z\<rparr>)"
    by (simp add: push_create_def connect_child_def)
  with find m(2) t(1,2) show ?thesis
    by (simp add: rec_create_def new_cell_def emit_event_def Let_def)
qed

lemma create_below:
  assumes "good_env E sent" "fresh_uuids E st" "can_create E i st" "id_of (new_parent st) \<noteq> -1"
  shows "\<exists>st' u. cmd_create E i st = Some st' \<and> btree_inv (TREE st') \<and>
    nodes (TREE st') = nodes (TREE st) @ [new_entry E i st] \<and>
    pending E st' u (int ((length (nodes (TREE st)) + 2) div 2)) \<and>
    sent_down sent (CONTROL_NODE st) (parts u (create_request E i st)) (zmq_st st) (zmq_st st')"
proof -
  let ?node = "new_entry E i st" and ?r = "create_request E i st"
  obtain t where t: "btree_inv t" "nodes t = nodes (TREE st) @ [?node]"
      "cmd_create E i st = push_create E i (id_of (new_parent st))
       (the (main_address ?node)) (the (ping_address ?node)) (after_fork E t st)"
    by (rule cmd_create_new [OF assms(3)])
  obtain u st1 where u: "gen_uuid E (after_fork E t st) = (u, st1)" by fastforce
  have ne: "parts u ?r \<noteq> []" by (simp add: parts_def)
  have pre: "bt_size t < 2 ^ 30" "id_of (C_NODE st) = -1"
    using t(1) assms(3) by (auto simp: btree_inv_def can_create_def)
  obtain st' where st': "push_down E (map Some (parts u ?r) @ None # []) (answer_count_push E u st1) = Some st'"
      "pending E st' u (int ((bt_size t + 1) div 2))" "TREE st' = t"
      "sent_down sent (CONTROL_NODE st) (parts u ?r) (zmq_st st) (zmq_st st')"
    using send_request [OF assms(1) after_fork_fresh [OF assms(2)] _ u ne, of "[]"] pre by auto
  have "bt_size t = length (nodes (TREE st)) + 1" using length_nodes [OF t(1)] t(2) by simp
  moreover have "cmd_create E i st = Some st'"
    using t(3) assms(4) pre(2) u st'(1) by (simp add: push_create_def parts_def create_request_def)
  ultimately show ?thesis using st' t(1,2) by auto
qed

text \<open>
  C32: creating a node. For a new id, when \<open>fork\<close> succeeds and memory is granted, the table gets
  the new entry at the end, under two fresh addresses. If its parent in the table is the control
  node, the control node connects to it and reports it at once; otherwise a create message for
  the parent is sent down, and the answers are counted against the table that already contains
  the new node. An id that is in use is refused.
\<close>

theorem cmd_create_correct:
  assumes "good_env E sent" "fresh_uuids E st" "can_create E i st" "n \<in> set (nodes (TREE st))" "pid n \<noteq> -1"
  shows "\<exists>st' u. cmd_create E i st = Some st' \<and> btree_inv (TREE st') \<and>
    nodes (TREE st') = nodes (TREE st) @ [new_entry E i st] \<and>
    (id_of (new_parent st) = -1 \<longrightarrow>
       last (trace st') = Printed (''Ok: '' @ int_to_str (os_fork (the_os E) (trace st))) \<and>
       (length (children (CONTROL_NODE st)) < 2 \<longrightarrow> i \<in> set (children (CONTROL_NODE st')))) \<and>
    (id_of (new_parent st) \<noteq> -1 \<longrightarrow>
       pending E st' u (int ((length (nodes (TREE st)) + 2) div 2)) \<and>
       sent_down sent (CONTROL_NODE st) (parts u (create_request E i st)) (zmq_st st) (zmq_st st')) \<and>
    cmd_create E (id_of n) st = Some (print_line ''Error: Already exists'' st)"
proof -
  have "btree_find (TREE st) (id_of n) = Some n"
    using bt.find_present assms(3,4) by (auto simp: bt.well_keyed_def can_create_def)
  then have "cmd_create E (id_of n) st = Some (print_line ''Error: Already exists'' st)"
    using assms(5) by (simp add: cmd_create_def)
  then show ?thesis
    using create_at_root [OF assms(1,3)] create_below [OF assms(1-3)]
    by (cases "id_of (new_parent st) = -1") auto
qed

section \<open>A concrete system\<close>

definition demo_os :: os_calls where
  "demo_os = \<lparr>os_fork = (\<lambda>_. 100), os_uuid = (\<lambda>t. replicate (length t) (CHR ''u'')), os_errno = (\<lambda>_. 0),
     os_realloc = (\<lambda>_. True), os_malloc = (\<lambda>_. 64)\<rparr>"

definition demo_env :: "(wire, (string \<times> nat) list) env" where
  "demo_env = \<lparr>the_zmq = loopback, the_map = alist_map, the_os = demo_os\<rparr>"

definition demo_sent :: "wire \<Rightarrow> addr \<Rightarrow> (string \<times> bool) list" where
  "demo_sent w s = inbox w (s XOR 1)"

lemma demo_env_good: "good_env demo_env demo_sent"
proof -
  have "replicate (length (t @ e # s)) c \<noteq> replicate (length t) c" for t s :: "event list" and e and c :: char
    by (metis add_diff_cancel_left' length_Cons length_append length_replicate list.size(3) nat.distinct(1)
        diff_self_eq_0)
  then show ?thesis
    using loopback_records loopback_accepts alist_map_laws
    unfolding good_env_def demo_env_def demo_os_def demo_sent_def [abs_def] by simp
qed

definition demo_entry :: "int \<Rightarrow> b_tree_node" where
  "demo_entry i = \<lparr>id_of = i, pid = 100 + i, main_address = Some ''a'', ping_address = Some ''b''\<rparr>"

definition demo_self :: b_tree_node where
  "demo_self = \<lparr>id_of = -1, pid = 50, main_address = None, ping_address = None\<rparr>"

definition demo_table :: b_tree where
  "demo_table = \<lparr>buf = [Some demo_self, Some (demo_entry 1), Some (demo_entry 2), Some (demo_entry 3)],
     pool_size = 4, bt_size = 4\<rparr>"

definition demo_socks :: mq_node where
  "demo_socks = \<lparr>context_ptr = 1, main_socket = 2, ping_socket = 4, left_child_id = 1, right_child_id = 2,
       left_child_main_socket = 6, right_child_main_socket = 8,
       left_child_ping_socket = 10, right_child_ping_socket = 12\<rparr>"

definition demo_list :: "remove_struct list \<Rightarrow> remove_struct rm_list" where
  "demo_list vs = (case vs of
     [] \<Rightarrow> \<lparr>heap = [8 \<mapsto> \<lparr>val = None, pn = 0\<rparr>], barrier = 8, first = 8, list_size = 0\<rparr>
   | v # _ \<Rightarrow> \<lparr>heap = [8 \<mapsto> \<lparr>val = None, pn = 0\<rparr>, 16 \<mapsto> \<lparr>val = Some v, pn = 0\<rparr>],
        barrier = 8, first = 16, list_size = 1\<rparr>)"

definition demo_control :: "remove_struct list \<Rightarrow> (wire, (string \<times> nat) list) control" where
  "demo_control vs = \<lparr>TREE = demo_table, C_NODE = demo_self, CONTROL_NODE = demo_socks, address_shift = 5010,
     heartbeat_time = 0, answer_count_map = [(''q'', 0)], nodes_ping_map = [], cells = [2],
     remove_list = demo_list vs, zmq_st = idle, trace = []\<rparr>"

lemma demo_list_of: "list_of (demo_list []) []" "list_of (demo_list [v]) [v]"
proof -
  have "list_rep (demo_list []) []" "list_rep (demo_list [v]) [16]" "holds (demo_list [v]) [16] [v]"
    by (auto simp: list_rep_def demo_list_def xring_def holds_def)
  then show "list_of (demo_list []) []" "list_of (demo_list [v]) [v]"
    by (auto simp: list_of_def)
qed

lemma demo_nodes: "nodes demo_table = [demo_self, demo_entry 1, demo_entry 2, demo_entry 3]"
  by (simp add: nodes_def demo_table_def written_def)

lemma demo_table_inv: "btree_inv demo_table"
proof -
  have "\<forall>x \<in> set (buf demo_table). x \<noteq> None" by (simp add: demo_table_def)
  then have "\<forall>i < length (buf demo_table). buf demo_table ! i \<noteq> None" by (metis nth_mem)
  moreover have "length (buf demo_table) = 4" "bt_size demo_table = 4" "pool_size demo_table = 4"
    by (simp_all add: demo_table_def)
  ultimately show ?thesis by (simp add: btree_inv_def)
qed

lemma demo_fresh: "fresh_uuids demo_env (demo_control vs)"
proof -
  have "replicate n (CHR ''u'') \<noteq> ''q''" for n by (cases n) simp_all
  then show ?thesis
    by (simp add: fresh_uuids_def answered_def demo_env_def demo_control_def alist_map_def demo_os_def)
qed

lemma demo_socks_inv: "mqn_inv demo_socks" "children demo_socks = [1, 2]"
  by (simp_all add: mqn_inv_def demo_socks_def children_def)

lemma demo_pending: "pending demo_env (demo_control vs) ''q'' 2"
  by (simp add: pending_def demo_env_def demo_control_def alist_map_def)

lemmas demo_simps = demo_control_def demo_nodes demo_self_def demo_entry_def

theorem exec_one_line_witness:
  "\<exists>st1. receive_all demo_env [answer_msg ''q'' ''exec'' 9 CODE_ERROR_NOT_FOUND ERROR_NOT_FOUND,
       answer_msg ''q'' ''exec'' 9 CODE_OK ''5''] (demo_control []) = Some st1 \<and>
     trace st1 = [Printed (''Ok:'' @ int_to_str 9 @ '': '' @ ''5'')] \<and> answered demo_env st1 ''q''"
proof -
  have laws: "hashmap_laws (the_map demo_env)" using demo_env_good by (simp add: good_env_def)
  have pend: "pending demo_env (demo_control []) ''q'' (int 2)" using demo_pending by simp
  have msgs: "replicate 1 m @ m' # [] = [m, m']" for m m' :: "string option list" by simp
  have "is_int 9" "(1 :: nat) < 2" "\<forall>m \<in> set []. slot m 0 = Some ''q''" "trace (demo_control []) = []"
    by (simp_all add: is_int_def demo_control_def)
  with exec_one_line [OF laws pend, of 9 1 "[]" "''5''"] show ?thesis
    unfolding msgs by (metis append_Nil)
qed

theorem cmd_exec_correct_witness:
  "\<exists>st' u. cmd_exec_c demo_env True 3 (Some ''x'') 7 (demo_control []) = Some st' \<and> pending demo_env st' u 2 \<and>
     inbox (zmq_st st') 7 = flagged (parts u (Exec_set 3 ''x'' 7)) \<and>
     cmd_exec_c demo_env True 8 (Some ''x'') 7 (demo_control []) = Some (print_line ''Error: Not found'' (demo_control []))"
proof -
  have nodes: "nodes (TREE (demo_control [])) = [demo_self, demo_entry 1, demo_entry 2, demo_entry 3]"
    by (simp add: demo_control_def demo_nodes)
  have inv: "btree_inv (TREE (demo_control []))" by (simp add: demo_control_def demo_table_inv)
  have "distinct (map id_of (nodes (TREE (demo_control []))))" "demo_entry 3 \<in> set (nodes (TREE (demo_control [])))"
      "pid (demo_entry 3) \<noteq> -1" "8 \<notin> id_of ` set (nodes (TREE (demo_control [])))"
    unfolding nodes by (simp_all add: demo_self_def demo_entry_def)
  from cmd_exec_correct [OF demo_env_good demo_fresh inv this, of True "''x''" 7]
  obtain st' u where st': "cmd_exec_c demo_env True 3 (Some ''x'') 7 (demo_control []) = Some st'"
     "pending demo_env st' u 2"
     "sent_down demo_sent (CONTROL_NODE (demo_control [])) (parts u (Exec_set 3 ''x'' 7)) (zmq_st (demo_control [])) (zmq_st st')"
     "cmd_exec_c demo_env True 8 (Some ''x'') 7 (demo_control []) = Some (print_line ''Error: Not found'' (demo_control []))"
    unfolding nodes by (auto simp: demo_entry_def demo_control_def demo_self_def)
  have "demo_sent (zmq_st st') 6 = flagged (parts u (Exec_set 3 ''x'' 7))"
    using st'(3) by (simp add: sent_down_def to_children_def demo_control_def demo_socks_def)
      (simp add: demo_sent_def idle_def)
  then have "inbox (zmq_st st') 7 = flagged (parts u (Exec_set 3 ''x'' 7))"
    by (simp add: demo_sent_def)
  with st' show ?thesis by blast
qed

theorem cmd_create_correct_witness:
  "\<exists>st' u. cmd_create demo_env 9 (demo_control []) = Some st' \<and> pending demo_env st' u 3 \<and>
     map id_of (nodes (TREE st')) = [-1, 1, 2, 3, 9] \<and>
     cmd_create demo_env 3 (demo_control []) = Some (print_line ''Error: Already exists'' (demo_control []))"
proof -
  have nodes: "nodes (TREE (demo_control [])) = [demo_self, demo_entry 1, demo_entry 2, demo_entry 3]"
    by (simp add: demo_control_def demo_nodes)
  have can: "can_create demo_env 9 (demo_control [])"
    unfolding can_create_def nodes using demo_table_inv demo_socks_inv
    by (simp add: demo_control_def demo_self_def demo_entry_def btree_room_def demo_table_def demo_env_def
        demo_os_def is_int_def)
  have "demo_entry 3 \<in> set (nodes (TREE (demo_control [])))" "pid (demo_entry 3) \<noteq> -1" "id_of (demo_entry 3) = 3"
      "id_of (new_parent (demo_control [])) = 1"
    unfolding new_parent_def nodes by (simp_all add: demo_entry_def)
  with cmd_create_correct [OF demo_env_good demo_fresh can this(1,2)] nodes
  show ?thesis by (auto simp: demo_self_def demo_entry_def)
qed

end
