(* ===== verification/Removal.thy ===== *)
theory Removal
  imports ControlNode
begin

text \<open>
  How the control node removes a node: the chain of commands that \<open>cmd_remove\<close> of
  \<^verbatim>\<open>lab6/control_node.c\<close> writes into one string array, how \<open>push_next_remove\<close> and
  \<open>rec_remove\<close> find their place in it again, and what they do from one answer to the next.
\<close>

section \<open>Lemmas: the commands of a removal\<close>

definition encode :: "request \<Rightarrow> string option list" where
  "encode r = map Some (command_of r # int_to_str (target r) # arguments r) @ [None]"

definition encode_all :: "request list \<Rightarrow> string option list" where
  "encode_all rs = concat (map encode rs)"

lemma encode_all_simps [simp]:
  "encode_all [] = []" "encode_all (r # rs) = encode r @ encode_all rs"
  "encode_all (rs @ rs') = encode_all rs @ encode_all rs'"
  by (simp_all add: encode_all_def)

lemma skip_command:
  "0 < n \<Longrightarrow> skip_cmds (map Some xs @ None # cs) n j = skip_cmds cs (n - 1) (j + length xs + 1)"
  by (induction xs arbitrary: j) auto

lemma skip_encode_all:
  "skip_cmds (encode_all rs @ cs) (int (length rs)) j = Some (j + length (encode_all rs))"
proof (induction rs arbitrary: j)
  case Nil
  then show ?case by (cases cs) auto
next
  case (Cons r rs)
  then show ?case by (simp add: encode_def skip_command ac_simps)
qed

lemma slot_behind: "slot (xs @ ys) (length xs + k) = slot ys k"
  by (simp add: slot_def nth_append)

lemma slot_encode:
  "slot (encode r @ cs) 0 = Some (command_of r)" "slot (encode r @ cs) (Suc 0) = Some (int_to_str (target r))"
  by (simp_all add: slot_def encode_def)

text \<open>\<open>at_request rms done r todo\<close>: the current command of the removal is \<open>r\<close>.\<close>

definition at_request :: "remove_struct \<Rightarrow> request list \<Rightarrow> request \<Rightarrow> request list \<Rightarrow> bool" where
  "at_request rms done r todo \<longleftrightarrow>
     (\<exists>extra. commands rms = encode_all (done @ r # todo) @ extra) \<and> now_command rms = int (length done) \<and>
     number_commands rms = int (length done + 1 + length todo) \<and> number_commands rms \<le> INT_MAX \<and>
     len_commands rms \<le> int (length (commands rms))"

lemma at_request_skip:
  assumes "at_request rms done r todo"
  obtains k where "skip_cmds (commands rms) (now_command rms) 0 = Some k"
    "\<And>j. slot (commands rms) (k + j) = slot (encode r @ drop (k + length (encode r)) (commands rms)) j"
proof -
  obtain extra where "commands rms = encode_all done @ encode r @ encode_all todo @ extra"
      "now_command rms = int (length done)"
    using assms by (auto simp: at_request_def)
  then show thesis
    using skip_encode_all [of "done" "encode r @ encode_all todo @ extra" 0]
    by (intro that [of "length (encode_all done)"]) (simp_all add: slot_behind)
qed

lemma at_request_awaits:
  assumes "at_request rms done r todo"
  shows "awaits c s rms = Some (c = command_of r \<and> s = int_to_str (target r))"
proof -
  obtain k where k: "skip_cmds (commands rms) (now_command rms) 0 = Some k"
      "\<And>j. slot (commands rms) (k + j) = slot (encode r @ drop (k + length (encode r)) (commands rms)) j"
    using at_request_skip [OF assms] by blast
  have "slot (commands rms) k = Some (command_of r)" "slot (commands rms) (Suc k) = Some (int_to_str (target r))"
    using k(2) [of 0] k(2) [of 1] by (simp_all add: slot_encode)
  with k(1) show ?thesis by (auto simp: awaits_def)
qed

lemma at_request_next:
  assumes "at_request rms done r (r' # todo)"
  shows "int_inc (now_command rms) = Some (int (length done) + 1)"
    and "at_request (rms\<lparr>now_command := int (length done) + 1\<rparr>) (done @ [r]) r' todo"
  using assms by (auto simp: at_request_def int_inc_def)

lemma at_request_last:
  assumes "at_request rms done r []"
  shows "int_inc (now_command rms) = Some (int (length done) + 1)" "number_commands rms = int (length done) + 1"
    "free_commands rms = Some ()"
  using assms by (auto simp: at_request_def int_inc_def free_commands_def)

text \<open>The search finds the removal that waits for the answer.\<close>

lemma search_single:
  assumes "list_of l [rms]" "at_request rms done r todo"
  obtains it where
    "search_loop l (command_of r) (int_to_str (target r)) (list_iter_begin l) None = Some (it, Some rms)"
    "cursor l it [] [rms]" "\<exists>e. list_iter_end l = Some e \<and> \<not> list_iter_equal it e"
proof -
  let ?P = "awaits (command_of r) (int_to_str (target r))"
  have hit: "\<forall>v \<in> set [rms]. ?P v = Some ((\<lambda>_. True) v)"
    using at_request_awaits [OF assms(2)] by simp
  obtain it where it: "search_loop l (command_of r) (int_to_str (target r)) (list_iter_begin l) None = Some (it, Some rms)"
      "cursor l it [] [rms]"
    using xl.search [where loop = "search_loop l (command_of r) (int_to_str (target r))" and P = ?P,
        OF search_loop.simps hit xl.start [OF assms(1)], of None] by auto
  then show thesis using that xl.finish [OF it(2)] by auto
qed

text \<open>What the control node does itself, as the parent of the first level.\<close>

fun own :: "request \<Rightarrow> int set \<Rightarrow> bool" where
  "own (Connect c n p a b) ch \<longleftrightarrow> p = -1"
| "own (Disconnect n) ch \<longleftrightarrow> n \<in> ch"
| "own (Ping n) ch \<longleftrightarrow> n = -1"
| "own _ ch \<longleftrightarrow> False"

fun own_children :: "request \<Rightarrow> int set \<Rightarrow> int set" where
  "own_children (Connect c n p a b) ch = (if card ch < 2 then insert n ch else ch)"
| "own_children (Disconnect n) ch = ch - {n}"
| "own_children _ ch = ch"

text \<open>The requests a removal is made of.\<close>

fun removal_request :: "request \<Rightarrow> bool" where
  "removal_request (Connect c n p a b) \<longleftrightarrow> \<not> c \<and> is_int n \<and> is_int p \<and> n \<noteq> -1"
| "removal_request (Remove n) \<longleftrightarrow> is_int n"
| "removal_request (Disconnect n) \<longleftrightarrow> is_int n \<and> n \<noteq> -1"
| "removal_request (Ping n) \<longleftrightarrow> is_int n"
| "removal_request _ \<longleftrightarrow> False"

fun connects_new :: "request \<Rightarrow> int set \<Rightarrow> bool" where
  "connects_new (Connect c n p a b) ch \<longleftrightarrow> (p = -1 \<longrightarrow> n \<notin> ch)"
| "connects_new _ ch \<longleftrightarrow> True"

definition ctrl_children :: "('z, 'h) control \<Rightarrow> int set" where
  "ctrl_children st = set (children (CONTROL_NODE st))"

definition ctrl_ok :: "('z, 'h) env \<Rightarrow> ('z, 'h) control \<Rightarrow> bool" where
  "ctrl_ok E st \<longleftrightarrow> fresh_uuids E st \<and> btree_inv (TREE st) \<and> mqn_inv (CONTROL_NODE st) \<and> id_of (C_NODE st) = -1"

text \<open>The parts of the state that sending the next command leaves alone.\<close>

definition same_rest :: "('z, 'h) control \<Rightarrow> ('z, 'h) control \<Rightarrow> bool" where
  "same_rest st st' \<longleftrightarrow> TREE st' = TREE st \<and> remove_list st' = remove_list st \<and> C_NODE st' = C_NODE st"

lemma command_slots:
  assumes "at_request rms done r todo" "skip_cmds (commands rms) (now_command rms) 0 = Some k"
  shows "slot (commands rms) k = Some (command_of r)" "slot (commands rms) (k + 1) = Some (int_to_str (target r))"
    "j < length (arguments r) \<Longrightarrow> slot (commands rms) (k + 2 + j) = Some (arguments r ! j)"
proof -
  have slots: "slot (commands rms) (k + j) = slot (encode r @ drop (k + length (encode r)) (commands rms)) j" for j
    using at_request_skip [OF assms(1)] assms(2) by fastforce
  show "slot (commands rms) k = Some (command_of r)" "slot (commands rms) (k + 1) = Some (int_to_str (target r))"
    using slots [of 0] slots [of 1] by (simp_all add: slot_encode)
  show "j < length (arguments r) \<Longrightarrow> slot (commands rms) (k + 2 + j) = Some (arguments r ! j)"
    using slots [of "2 + j"] by (simp add: slot_def encode_def nth_append ac_simps)
qed

lemma slot_entry_at: "slot cs k = Some s \<Longrightarrow> entry_at cs k = Some (Some s)"
  by (auto simp: slot_def entry_at_def split: if_splits)

lemma connect_child_spec:
  assumes "good_env E sent" "mqn_inv (CONTROL_NODE st)" "n \<noteq> -1" "n \<notin> ctrl_children st"
  shows "\<exists>st'. connect_child E n (Some a) (Some b) st = Some st' \<and> mqn_inv (CONTROL_NODE st') \<and>
    ctrl_children st' = (if card (ctrl_children st) < 2 then insert n (ctrl_children st) else ctrl_children st) \<and>
    same_rest st st' \<and> answer_count_map st' = answer_count_map st \<and> trace st' = trace st \<and>
    sent (zmq_st st') = sent (zmq_st st)"
proof -
  have "card (ctrl_children st) = length (children (CONTROL_NODE st))"
    using assms(2) by (auto simp: ctrl_children_def children_def mqn_inv_def)
  moreover obtain m z where "mqn_connect (the_zmq E) (CONTROL_NODE st) n (Some a) (Some b) (zmq_st st) = Some (m, z)"
      "mqn_inv m" "set (children m) = (if length (children (CONTROL_NODE st)) < 2
        then insert n (set (children (CONTROL_NODE st))) else set (children (CONTROL_NODE st)))"
    using mqn_connect_spec [OF assms(2) good_env_accepts [OF assms(1)] assms(3)] assms(4)
    unfolding ctrl_children_def by blast
  moreover from this(2) have "sent z = sent (zmq_st st)"
    using mqn_connect_sent assms(1) calculation(2) by (auto simp: good_env_def)
  ultimately show ?thesis by (simp add: connect_child_def ctrl_children_def same_rest_def)
qed

lemma close_child_spec:
  assumes "good_env E sent" "mqn_inv (CONTROL_NODE st)" "n \<noteq> -1"
  shows "\<exists>st'. close_child E n st = Some st' \<and> mqn_inv (CONTROL_NODE st') \<and>
    ctrl_children st' = ctrl_children st - {n} \<and>
    same_rest st st' \<and> answer_count_map st' = answer_count_map st \<and> trace st' = trace st \<and>
    sent (zmq_st st') = sent (zmq_st st)"
proof -
  obtain m z where m: "mqn_close (the_zmq E) (CONTROL_NODE st) n (zmq_st st) = Some (m, z)" "mqn_inv m"
      "set (children m) = set (children (CONTROL_NODE st)) - {n}"
    using mqn_close_spec [OF assms(2) good_env_accepts [OF assms(1)] assms(3)] by blast
  moreover have "sent z = sent (zmq_st st)"
    using mqn_close_sent m(1) assms(1) by (auto simp: good_env_def)
  ultimately show ?thesis by (simp add: close_child_def ctrl_children_def same_rest_def)
qed

lemma gen_uuid_same:
  assumes "gen_uuid E st = (u, st1)"
  shows "same_rest st st1 \<and> CONTROL_NODE st1 = CONTROL_NODE st \<and> answer_count_map st1 = answer_count_map st \<and>
    zmq_st st1 = zmq_st st \<and> trace st1 = trace st @ [Made_uuid u] \<and> ctrl_children st1 = ctrl_children st"
  using assms by (auto simp: gen_uuid_def Let_def emit_event_def same_rest_def ctrl_children_def)

lemma child_ids: "n \<noteq> -1 \<Longrightarrow>
  (left_child_id (CONTROL_NODE st) = n \<or> right_child_id (CONTROL_NODE st) = n) \<longleftrightarrow> n \<in> ctrl_children st"
  by (auto simp: ctrl_children_def children_def)

lemma push_next_own:
  assumes env: "good_env E sent" and ok: "ctrl_ok E st" and at: "at_request rms done r todo"
    and r: "removal_request r" "own r (ctrl_children st)" "connects_new r (ctrl_children st)"
  shows "\<exists>st'. push_next_remove_body E rms st = Some (Inr (st', command_of r, target r)) \<and>
    ctrl_ok E st' \<and> ctrl_children st' = own_children r (ctrl_children st) \<and> same_rest st st' \<and>
    sent (zmq_st st') = sent (zmq_st st) \<and> answer_count_map st' = answer_count_map st"
proof -
  obtain k where k: "skip_cmds (commands rms) (now_command rms) 0 = Some k"
    using at_request_skip [OF at] by blast
  note slots = command_slots [OF at k]
  obtain u st1 where u: "gen_uuid E st = (u, st1)" by fastforce
  note st1 = gen_uuid_same [OF u]
  have inv: "mqn_inv (CONTROL_NODE st1)" using st1 ok by (simp add: ctrl_ok_def)
  have ok': "ctrl_ok E st'" if "same_rest st1 st'" "mqn_inv (CONTROL_NODE st')" "answer_count_map st' = answer_count_map st1"
      "trace st' = trace st1" for st'
    using that st1 ok fresh_uuids_mono [of E st st' "[Made_uuid u]"] by (simp add: ctrl_ok_def same_rest_def)
  have c_id: "id_of (C_NODE st1) = -1" using st1 ok by (simp add: ctrl_ok_def same_rest_def)
  show ?thesis
  proof (cases r)
    case (Connect c n p a b)
    with r have n: "n \<noteq> -1" "n \<notin> ctrl_children st1" "p = -1" "is_int n" "\<not> c" using st1 by auto
    obtain st2 where st2: "connect_child E n (Some a) (Some b) st1 = Some st2" "mqn_inv (CONTROL_NODE st2)"
        "ctrl_children st2 = own_children r (ctrl_children st)" "same_rest st1 st2"
        "answer_count_map st2 = answer_count_map st1" "trace st2 = trace st1" "sent (zmq_st st2) = sent (zmq_st st1)"
      using connect_child_spec [OF env inv n(1,2), of a b] st1 Connect by auto
    have "slot (commands rms) (k + 2) = Some (int_to_str (-1))" "slot (commands rms) (k + 3) = Some a"
        "slot (commands rms) (k + 4) = Some b"
      using slots(3) [of 0] slots(3) [of 1] slots(3) [of 2] Connect n by (simp_all add: numeral_eq_Suc)
    then have "push_next_remove_body E rms st = Some (Inr (st2, command_of r, target r))"
      using k slots(1,2) u Connect n c_id st2(1)
      by (simp add: push_next_remove_body_def slot_entry_at strtol_int_to_str long_to_int_id)
    with st2 ok' [OF st2(4,2,5,6)] st1 show ?thesis by (auto simp: same_rest_def)
  next
    case (Disconnect n)
    with r have n: "n \<noteq> -1" "n \<in> ctrl_children st1" "is_int n" using st1 by auto
    obtain st2 where st2: "close_child E n st1 = Some st2" "mqn_inv (CONTROL_NODE st2)"
        "ctrl_children st2 = own_children r (ctrl_children st)" "same_rest st1 st2"
        "answer_count_map st2 = answer_count_map st1" "trace st2 = trace st1" "sent (zmq_st st2) = sent (zmq_st st1)"
      using close_child_spec [OF env inv n(1)] st1 Disconnect by auto
    have "push_next_remove_body E rms st = Some (Inr (st2, command_of r, target r))"
      using k slots(1,2) u Disconnect n child_ids [OF n(1), of st1] st2(1)
      by (simp add: push_next_remove_body_def)
    with st2 ok' [OF st2(4,2,5,6)] st1 show ?thesis by (auto simp: same_rest_def)
  next
    case (Ping n)
    with r have n: "n = -1" by simp
    have "push_next_remove_body E rms st = Some (Inr (st1, command_of r, target r))"
      using k slots(1,2) u Ping n c_id by (simp add: push_next_remove_body_def strtol_int_to_str long_to_int_id)
    with Ping ok' [of st1] inv st1 show ?thesis by (auto simp: same_rest_def)
  qed (use r in auto)
qed

lemma push_next_remote:
  assumes env: "good_env E sent" and ok: "ctrl_ok E st" and at: "at_request rms done r todo"
    and r: "removal_request r" "\<not> own r (ctrl_children st)"
  shows "\<exists>st' u. push_next_remove_body E rms st = Some (Inl st') \<and>
    pending E st' u (int ((bt_size (TREE st) + 1) div 2)) \<and> CONTROL_NODE st' = CONTROL_NODE st \<and> same_rest st st' \<and>
    ctrl_ok E st' \<and> answered E st u \<and> sent_down sent (CONTROL_NODE st) (parts u r) (zmq_st st) (zmq_st st') \<and> trace st' = trace st @ [Made_uuid u]"
proof -
  obtain k where k: "skip_cmds (commands rms) (now_command rms) 0 = Some k"
    using at_request_skip [OF at] by blast
  note slots = command_slots [OF at k]
  obtain u st1 where u: "gen_uuid E st = (u, st1)" by fastforce
  note st1 = gen_uuid_same [OF u]
  have c_id: "id_of (C_NODE st1) = -1" using st1 ok by (simp add: ctrl_ok_def same_rest_def)
  have ne: "parts u r \<noteq> []" by (simp add: parts_def)
  have "push_next_remove_body E rms st = map_option Inl (push_down E
      (map Some (parts u r) @ None # replicate (6 - length (parts u r)) None) (answer_count_push E u st1))"
  proof (cases r)
    case (Connect c n p a b)
    with r have n: "p \<noteq> -1" "is_int p" "\<not> c" by auto
    have "slot (commands rms) (k + 2) = Some (int_to_str p)" "slot (commands rms) (k + 3) = Some a"
        "slot (commands rms) (k + 4) = Some b"
      using slots(3) [of 0] slots(3) [of 1] slots(3) [of 2] Connect n by (simp_all add: numeral_eq_Suc)
    then show ?thesis
      using k slots(1,2) u Connect n c_id
      by (simp add: push_next_remove_body_def slot_entry_at strtol_int_to_str long_to_int_id parts_def)
  next
    case (Disconnect n)
    with r have n: "n \<noteq> -1" "n \<notin> ctrl_children st1" "is_int n" using st1 by auto
    then show ?thesis
      using k slots(1,2) u Disconnect child_ids [OF n(1), of st1]
      by (simp add: push_next_remove_body_def parts_def numeral_eq_Suc)
  next
    case (Ping n)
    with r have n: "n \<noteq> -1" "is_int n" by auto
    then show ?thesis
      using k slots(1,2) u Ping c_id
      by (simp add: push_next_remove_body_def parts_def strtol_int_to_str long_to_int_id numeral_eq_Suc)
  next
    case (Remove n)
    then show ?thesis
      using k slots(1,2) u by (simp add: push_next_remove_body_def parts_def slot_entry_at numeral_eq_Suc)
  qed (use r in auto)
  with send_request [OF env _ _ u ne, of "replicate (6 - length (parts u r)) None"] ok show ?thesis
    by (auto simp: ctrl_ok_def btree_inv_def same_rest_def)
qed

section \<open>Lemmas: the progress of a removal\<close>

lemma rec_remove_body_ok:
  assumes "list_of (remove_list st) [rms]" "at_request rms done r todo"
  obtains it l1 where "cursor l1 it [] [rms\<lparr>now_command := int (length done) + 1\<rparr>]"
    "rec_remove_body E (command_of r) (target r) CODE_OK answer c st =
      (let rs = rms\<lparr>now_command := int (length done) + 1\<rparr>; st2 = st\<lparr>remove_list := l1\<rparr> in
       if now_command rs \<ge> number_commands rs then do {
         (l2, _) \<leftarrow> list_iter_remove l1 it;
         _ \<leftarrow> free_commands rs;
         map_option Inl (finish_removal E rs (st\<lparr>remove_list := l2\<rparr>))
       }
       else Some (Inr (st2, rs)))"
proof -
  obtain it e where it: "search_loop (remove_list st) (command_of r) (int_to_str (target r))
        (list_iter_begin (remove_list st)) None = Some (it, Some rms)"
      "cursor (remove_list st) it [] [rms]" "list_iter_end (remove_list st) = Some e" "\<not> list_iter_equal it e"
    using search_single [OF assms] by blast
  have inc: "int_inc (now_command rms) = Some (int (length done) + 1)"
    using assms(2) by (auto simp: at_request_def int_inc_def)
  obtain l1 where l1: "list_iter_set (remove_list st) it (rms\<lparr>now_command := int (length done) + 1\<rparr>) = Some l1"
      "cursor l1 it [] [rms\<lparr>now_command := int (length done) + 1\<rparr>]"
    using xl.put [OF it(2)] by blast
  show thesis
    using it inc l1 by (intro that [OF l1(2)]) (simp add: rec_remove_body_def Let_def)
qed

lemma rec_remove_body_next:
  assumes "list_of (remove_list st) [rms]" "at_request rms done r (r' # todo)"
  obtains l1 rms' where "rms' = rms\<lparr>now_command := int (length done) + 1\<rparr>" "list_of l1 [rms']"
    "at_request rms' (done @ [r]) r' todo"
    "rec_remove_body E (command_of r) (target r) CODE_OK answer c st = Some (Inr (st\<lparr>remove_list := l1\<rparr>, rms'))"
proof -
  obtain it l1 where l1: "cursor l1 it [] [rms\<lparr>now_command := int (length done) + 1\<rparr>]"
    "rec_remove_body E (command_of r) (target r) CODE_OK answer c st =
      (let rs = rms\<lparr>now_command := int (length done) + 1\<rparr>; st2 = st\<lparr>remove_list := l1\<rparr> in
       if now_command rs \<ge> number_commands rs then do {
         (l2, _) \<leftarrow> list_iter_remove l1 it;
         _ \<leftarrow> free_commands rs;
         map_option Inl (finish_removal E rs (st\<lparr>remove_list := l2\<rparr>))
       }
       else Some (Inr (st2, rs)))"
    by (rule rec_remove_body_ok [OF assms])
  have "number_commands rms = int (length done) + 1 + (1 + int (length todo))"
    using assms(2) by (auto simp: at_request_def)
  with l1 xl.at_lists [OF l1(1)] at_request_next(2) [OF assms(2)] show thesis
    by (intro that [OF refl, of l1]) simp_all
qed

lemma finish_removal_spec:
  assumes "hashmap_laws (the_map E)" "btree_inv (TREE st)" "nodes (TREE st) \<noteq> []"
  shows "\<exists>st'. finish_removal E rs st = Some st' \<and> btree_inv (TREE st') \<and>
    nodes (TREE st') = remove_node (nodes (TREE st)) (remove_node_id rs) \<and>
    last (trace st') = Printed ''Ok'' \<and> CONTROL_NODE st' = CONTROL_NODE st \<and> remove_list st' = remove_list st \<and>
    C_NODE st' = C_NODE st \<and> answer_count_map st' = answer_count_map st \<and> (\<exists>t. trace st' = trace st @ t)"
proof -
  have "0 < bt_size (TREE st)" using assms(3) length_nodes [OF assms(2)] by (metis length_greater_0_conv)
  then obtain t r where t: "btree_remove (TREE st) (remove_node_id rs) = Some (t, r)" "btree_inv t"
      "nodes t = remove_node (nodes (TREE st)) (remove_node_id rs)"
    using btree_remove_spec [OF assms(2)] by blast
  obtain n where "btree_find (TREE st) (remove_node_id rs) = Some n"
    using btree_find_spec [OF assms(2)] by blast
  with t show ?thesis by (simp add: finish_removal_def emit_event_def Let_def)
qed

lemma rec_remove_body_last:
  assumes "hashmap_laws (the_map E)" "btree_inv (TREE st)" "nodes (TREE st) \<noteq> []"
    and "list_of (remove_list st) [rms]" "at_request rms done r []"
  shows "\<exists>st'. rec_remove_body E (command_of r) (target r) CODE_OK answer c st = Some (Inl st') \<and>
    btree_inv (TREE st') \<and> nodes (TREE st') = remove_node (nodes (TREE st)) (remove_node_id rms) \<and>
    last (trace st') = Printed ''Ok'' \<and> CONTROL_NODE st' = CONTROL_NODE st \<and> list_of (remove_list st') [] \<and>
    C_NODE st' = C_NODE st \<and> answer_count_map st' = answer_count_map st \<and> (\<exists>t. trace st' = trace st @ t)"
proof -
  let ?rs = "rms\<lparr>now_command := int (length done) + 1\<rparr>"
  obtain it l1 where l1: "cursor l1 it [] [?rs]"
    "rec_remove_body E (command_of r) (target r) CODE_OK answer c st =
      (let rs = ?rs; st2 = st\<lparr>remove_list := l1\<rparr> in
       if now_command rs \<ge> number_commands rs then do {
         (l2, _) \<leftarrow> list_iter_remove l1 it;
         _ \<leftarrow> free_commands rs;
         map_option Inl (finish_removal E rs (st\<lparr>remove_list := l2\<rparr>))
       }
       else Some (Inr (st2, rs)))"
    by (rule rec_remove_body_ok [OF assms(4,5)])
  obtain l2 it2 where l2: "list_iter_remove l1 it = Some (l2, it2)" "cursor l2 it2 [] []"
    using xl.remove_at [OF l1(1)] by blast
  have free: "free_commands ?rs = Some ()" "number_commands ?rs \<le> now_command ?rs"
    using at_request_last [OF assms(5)] by (simp_all add: free_commands_def)
  obtain st' where st': "finish_removal E ?rs (st\<lparr>remove_list := l2\<rparr>) = Some st'" "btree_inv (TREE st')"
      "nodes (TREE st') = remove_node (nodes (TREE st)) (remove_node_id rms)"
      "last (trace st') = Printed ''Ok''" "CONTROL_NODE st' = CONTROL_NODE st" "remove_list st' = l2"
      "C_NODE st' = C_NODE st" "answer_count_map st' = answer_count_map st" "\<exists>t. trace st' = trace st @ t"
    using finish_removal_spec [OF assms(1), of "st\<lparr>remove_list := l2\<rparr>" ?rs] assms(2,3) by auto
  with l1(2) l2 free xl.at_lists [OF l2(2)] show ?thesis by (simp add: Let_def)
qed

text \<open>The control node's own commands are executed at once, up to the first one for another node.\<close>

fun run_own :: "request list \<Rightarrow> int set \<Rightarrow> request list \<times> int set" where
  "run_own [] ch = ([], ch)"
| "run_own (r # rs) ch = (if own r ch then run_own rs (own_children r ch) else (r # rs, ch))"

fun own_connects_new :: "request list \<Rightarrow> int set \<Rightarrow> bool" where
  "own_connects_new [] ch \<longleftrightarrow> True"
| "own_connects_new (r # rs) ch \<longleftrightarrow>
     (own r ch \<longrightarrow> connects_new r ch \<and> own_connects_new rs (own_children r ch))"

text \<open>
  Where a removal stands after an answer: finished, with the node taken out of the table, or
  waiting for the next command, which has been sent to the children.
\<close>

definition removal_outcome ::
    "('z, 'h) env \<Rightarrow> ('z \<Rightarrow> addr \<Rightarrow> (string \<times> bool) list) \<Rightarrow> remove_struct \<Rightarrow> ('z, 'h) control \<Rightarrow>
     request list \<times> int set \<Rightarrow> ('z, 'h) control \<Rightarrow> bool" where
  "removal_outcome E sent rms st p st' \<longleftrightarrow> ctrl_ok E st' \<and> ctrl_children st' = snd p \<and>
     (case fst p of
        [] \<Rightarrow> list_of (remove_list st') [] \<and> last (trace st') = Printed ''Ok'' \<and>
          nodes (TREE st') = remove_node (nodes (TREE st)) (remove_node_id rms)
      | r # todo \<Rightarrow> TREE st' = TREE st \<and>
          (\<exists>rms' done. list_of (remove_list st') [rms'] \<and> at_request rms' done r todo \<and>
             remove_node_id rms' = remove_node_id rms) \<and>
          (\<exists>u. pending E st' u (int ((bt_size (TREE st) + 1) div 2)) \<and> answered E st u \<and>
             sent_down sent (CONTROL_NODE st') (parts u r) (zmq_st st) (zmq_st st')))"

lemma ctrl_ok_list [simp]: "ctrl_ok E (st\<lparr>remove_list := l\<rparr>) \<longleftrightarrow> ctrl_ok E st"
  by (simp add: ctrl_ok_def fresh_uuids_def answered_def)

lemma ctrl_children_list [simp]: "ctrl_children (st\<lparr>remove_list := l\<rparr>) = ctrl_children st"
  by (simp add: ctrl_children_def)

lemma outcome_cong:
  assumes "TREE st1 = TREE st" "sent (zmq_st st1) = sent (zmq_st st)" "remove_node_id rms1 = remove_node_id rms"
    and "answer_count_map st1 = answer_count_map st"
  shows "removal_outcome E sent rms1 st1 p st' = removal_outcome E sent rms st p st'"
  using assms by (simp add: removal_outcome_def sent_down_def answered_def split: list.splits)

lemma outcome_remote:
  assumes "good_env E sent" "ctrl_ok E st" "at_request rms done r todo" "removal_request r" "\<not> own r (ctrl_children st)"
    and "list_of (remove_list st) [rms]"
  shows "\<exists>st'. push_next_remove_body E rms st = Some (Inl st') \<and>
    removal_outcome E sent rms st (r # todo, ctrl_children st) st'"
proof -
  obtain st' u where "push_next_remove_body E rms st = Some (Inl st')"
      "pending E st' u (int ((bt_size (TREE st) + 1) div 2))" "CONTROL_NODE st' = CONTROL_NODE st" "same_rest st st'"
      "ctrl_ok E st'" "answered E st u" "sent_down sent (CONTROL_NODE st) (parts u r) (zmq_st st) (zmq_st st')"
    using push_next_remote [OF assms(1-5)] by blast
  with assms(2,3,6) show ?thesis
    by (auto simp: removal_outcome_def same_rest_def ctrl_children_def)
qed

lemma removal_advances:
  assumes env: "good_env E sent"
  shows "ctrl_ok E st \<Longrightarrow> nodes (TREE st) \<noteq> [] \<Longrightarrow> list_of (remove_list st) [rms] \<Longrightarrow>
    at_request rms done r todo \<Longrightarrow> \<forall>r \<in> set todo. removal_request r \<Longrightarrow> own_connects_new todo (ctrl_children st) \<Longrightarrow>
    \<exists>st'. rec_remove E (command_of r) (target r) CODE_OK answer c st = Some st' \<and>
      removal_outcome E sent rms st (run_own todo (ctrl_children st)) st'"
proof (induction todo arbitrary: st rms "done" r answer c)
  case Nil
  have env': "hashmap_laws (the_map E)" "btree_inv (TREE st)" using env Nil(1) by (auto simp: good_env_def ctrl_ok_def)
  obtain st' where "rec_remove_body E (command_of r) (target r) CODE_OK answer c st = Some (Inl st')"
      "removal_outcome E sent rms st ([], ctrl_children st) st'"
    using rec_remove_body_last [OF env' Nil(2,3,4), where answer = answer and c = c] Nil(1) fresh_uuids_mono
    by (fastforce simp: removal_outcome_def ctrl_children_def ctrl_ok_def)
  then show ?case by (subst rec_remove.simps) simp
next
  case (Cons r' todo)
  obtain l1 rms' where next': "rms' = rms\<lparr>now_command := int (length done) + 1\<rparr>" "list_of l1 [rms']"
    "at_request rms' (done @ [r]) r' todo"
    "rec_remove_body E (command_of r) (target r) CODE_OK answer c st = Some (Inr (st\<lparr>remove_list := l1\<rparr>, rms'))"
    by (rule rec_remove_body_next [OF Cons.prems(3,4)])
  let ?st1 = "st\<lparr>remove_list := l1\<rparr>"
  have ok1: "ctrl_ok E ?st1" and list1: "list_of (remove_list ?st1) [rms']"
    using Cons.prems(1) next'(2) by simp_all
  have r': "removal_request r'" using Cons.prems(5) by simp
  show ?case
  proof (cases "own r' (ctrl_children st)")
    case True
    then have new: "connects_new r' (ctrl_children ?st1)" "own_connects_new todo (own_children r' (ctrl_children st))"
        "own r' (ctrl_children ?st1)"
      using Cons.prems(6) by simp_all
    obtain st2 where st2: "push_next_remove_body E rms' ?st1 = Some (Inr (st2, command_of r', target r'))"
        "ctrl_ok E st2" "ctrl_children st2 = own_children r' (ctrl_children st)" "same_rest ?st1 st2"
        "sent (zmq_st st2) = sent (zmq_st st)" "answer_count_map st2 = answer_count_map st"
      using push_next_own [OF env ok1 next'(3) r' new(3,1)] by auto
    obtain st' where "rec_remove E (command_of r') (target r') CODE_OK (Some ''OK'') 0 st2 = Some st'"
        "removal_outcome E sent rms' st2 (run_own todo (ctrl_children st2)) st'"
      using Cons.IH [OF st2(2) _ _ next'(3), of "Some ''OK''" 0] st2 new(2) Cons.prems(2,5) list1
      by (auto simp: same_rest_def)
    moreover have "removal_outcome E sent rms' st2 p st' = removal_outcome E sent rms st p st'" for p st'
      using st2(4-6) next'(1) by (intro outcome_cong) (simp_all add: same_rest_def)
    ultimately show ?thesis
      using next'(4) st2(1,3) True by (subst rec_remove.simps) simp
  next
    case False
    then obtain st' where "push_next_remove_body E rms' ?st1 = Some (Inl st')"
        "removal_outcome E sent rms' ?st1 (r' # todo, ctrl_children st) st'"
      using outcome_remote [OF env ok1 next'(3) r' _ list1] by auto
    moreover have "removal_outcome E sent rms' ?st1 p st' = removal_outcome E sent rms st p st'" for p st'
      using next'(1) by (intro outcome_cong) simp_all
    ultimately show ?thesis
      using next'(4) False by (subst rec_remove.simps) simp
  qed
qed

lemma removal_starts:
  assumes env: "good_env E sent"
    and "ctrl_ok E st" "nodes (TREE st) \<noteq> []" "list_of (remove_list st) [rms]" "at_request rms done r todo"
    and "\<forall>r \<in> set (r # todo). removal_request r" "own_connects_new (r # todo) (ctrl_children st)"
  shows "\<exists>st'. push_next_remove E rms st = Some st' \<and>
      removal_outcome E sent rms st (run_own (r # todo) (ctrl_children st)) st'"
proof (cases "own r (ctrl_children st)")
  case True
  obtain st2 where st2: "push_next_remove_body E rms st = Some (Inr (st2, command_of r, target r))"
      "ctrl_ok E st2" "ctrl_children st2 = own_children r (ctrl_children st)" "same_rest st st2"
      "sent (zmq_st st2) = sent (zmq_st st)" "answer_count_map st2 = answer_count_map st"
    using push_next_own [OF env assms(2,5) _ True] assms(6,7) True by auto
  obtain st' where "rec_remove E (command_of r) (target r) CODE_OK (Some ''OK'') 0 st2 = Some st'"
      "removal_outcome E sent rms st2 (run_own todo (ctrl_children st2)) st'"
    using removal_advances [OF env st2(2) _ _ assms(5), of "Some ''OK''" 0] st2 assms(3,4,6,7) True
    by (auto simp: same_rest_def)
  moreover have "removal_outcome E sent rms st2 p st' = removal_outcome E sent rms st p st'" for p st'
    using st2(4-6) by (intro outcome_cong) (simp_all add: same_rest_def)
  ultimately show ?thesis using st2(1,3) True by (simp add: push_next_remove_def)
next
  case False
  with outcome_remote [OF env assms(2,5) _ False assms(4)] assms(6) show ?thesis
    by (auto simp: push_next_remove_def)
qed

section \<open>Lemmas: starting a removal\<close>

text \<open>
  The requests that remove the entry at index \<open>i\<close>: for the last entry, remove it and close its
  parent's sockets to it; otherwise the last node is disconnected, the node is removed, and the
  last node takes its place.
\<close>

definition connect_request :: "b_tree_node \<Rightarrow> int \<Rightarrow> request" where
  "connect_request n p = Connect False (id_of n) p (the (main_address n)) (the (ping_address n))"

definition removal_requests :: "b_tree_node list \<Rightarrow> nat \<Rightarrow> request list" where
  "removal_requests ns i =
    (let r = id_of (ns ! i); l = id_of (last ns); m = length ns - 1 in
     if i = m then [Remove r, Disconnect r]
     else [Ping r, Disconnect l, Remove r, Disconnect r, connect_request (last ns) (id_of (ns ! ((i - 1) div 2)))] @
       (if 2 * i + 1 < m then [connect_request (ns ! (2 * i + 1)) l] else []) @
       (if 2 * i + 2 < m then [connect_request (ns ! (2 * i + 2)) l] else []))"

text \<open>A table of the control node: itself first, then nodes with addresses and proper ids.\<close>

definition table_ok :: "b_tree_node list \<Rightarrow> int \<Rightarrow> bool" where
  "table_ok ns own_pid \<longleftrightarrow> ns \<noteq> [] \<and> distinct (map id_of ns) \<and> id_of (ns ! 0) = -1 \<and>
     (\<forall>n \<in> set (tl ns). is_int (id_of n) \<and> main_address n \<noteq> None \<and> ping_address n \<noteq> None \<and>
        pid n \<noteq> -1 \<and> pid n \<noteq> own_pid)"

lemma table_ok_entry:
  assumes "table_ok ns p" "0 < j" "j < length ns"
  shows "is_int (id_of (ns ! j))" "main_address (ns ! j) \<noteq> None" "ping_address (ns ! j) \<noteq> None"
    "pid (ns ! j) \<noteq> -1" "pid (ns ! j) \<noteq> p" "id_of (ns ! j) \<noteq> -1"
proof -
  have "ns ! j \<in> set (tl ns)" using assms(2,3) by (cases ns; cases j) auto
  with assms(1) show "is_int (id_of (ns ! j))" "main_address (ns ! j) \<noteq> None" "ping_address (ns ! j) \<noteq> None"
    "pid (ns ! j) \<noteq> -1" "pid (ns ! j) \<noteq> p" by (auto simp: table_ok_def)
  have "map id_of ns ! j \<noteq> map id_of ns ! 0"
    using assms by (subst nth_eq_iff_index_eq) (auto simp: table_ok_def)
  then show "id_of (ns ! j) \<noteq> -1" using assms by (auto simp: table_ok_def)
qed

lemma table_ok_is_int: "table_ok ns p \<Longrightarrow> j < length ns \<Longrightarrow> is_int (id_of (ns ! j))"
  using table_ok_entry(1) [of ns p j] by (cases "j = 0") (auto simp: table_ok_def)

lemma table_id_eq:
  "table_ok ns p \<Longrightarrow> j < length ns \<Longrightarrow> k < length ns \<Longrightarrow> id_of (ns ! j) = id_of (ns ! k) \<longleftrightarrow> j = k"
  by (auto simp: table_ok_def distinct_conv_nth)

lemma str_copy_addr [simp]: "str_copy s = s"
  by (cases s) (simp_all add: str_copy_def)

lemma encode_connect:
  "main_address n \<noteq> None \<Longrightarrow> ping_address n \<noteq> None \<Longrightarrow> encode (connect_request n p) =
    [Some ''connect'', Some (int_to_str (id_of n)), Some (int_to_str p), main_address n, ping_address n, None]"
  by (auto simp: encode_def connect_request_def)

lemma encode_short:
  "encode (Ping n) = [Some ''ping'', Some (int_to_str n), None]"
  "encode (Remove n) = [Some ''remove'', Some (int_to_str n), None]"
  "encode (Disconnect n) = [Some ''disconnect'', Some (int_to_str n), None]"
  by (simp_all add: encode_def)

lemma removal_commands_encode:
  assumes "table_ok ns p" "0 < i" "i < length ns"
  shows "\<exists>extra. removal_commands (ns ! i) (last ns) (ns ! ((i - 1) div 2)) (entry ns (2 * i + 1)) (entry ns (2 * i + 2)) =
    (int (length (removal_requests ns i)), encode_all (removal_requests ns i) @ extra)"
proof -
  let ?m = "length ns - 1"
  have last: "last ns = ns ! ?m" "0 < ?m" "?m < length ns"
    using assms by (auto simp: last_conv_nth table_ok_def)
  note tab = table_ok_entry [OF assms(1)] and ids = table_id_eq [OF assms(1)]
  have addr: "main_address (ns ! j) \<noteq> None" "ping_address (ns ! j) \<noteq> None" if "0 < j" "j < length ns" for j
    using tab(2,3) that by auto
  have child: "id_of (entry ns j) \<noteq> id_of (last ns) \<and> id_of (entry ns j) \<noteq> -1 \<longleftrightarrow> j < ?m" if "0 < j" for j
  proof (cases "j < length ns")
    case True
    then show ?thesis using that last(3) tab(6) [OF that True] ids [of j ?m]
      unfolding last(1) by (auto simp: entry_def)
  next
    case False
    then show ?thesis by (auto simp: entry_def no_node_def)
  qed
  show ?thesis
  proof (cases "i = ?m")
    case True
    then show ?thesis
      using last by (simp add: removal_commands_def removal_requests_def encode_short Let_def)
  next
    case False
    then have ne: "id_of (last ns) \<noteq> id_of (ns ! i)" using ids [of ?m i] last assms(3) by auto
    consider "2 * i + 2 < ?m" | "2 * i + 1 < ?m" "\<not> 2 * i + 2 < ?m" | "\<not> 2 * i + 1 < ?m" by linarith
    then show ?thesis
      using False ne child [of "2 * i + 1"] child [of "2 * i + 2"] addr [of "2 * i + 1"] addr [of "2 * i + 2"]
        addr [OF last(2,3)] last
      by cases (simp_all add: removal_commands_def removal_requests_def encode_short encode_connect entry_def Let_def)
  qed
qed

lemma removal_requests_wf:
  assumes "table_ok ns p" "0 < i" "i < length ns"
  shows "\<forall>r \<in> set (removal_requests ns i). removal_request r"
proof -
  have last: "last ns = ns ! (length ns - 1)" "0 < length ns - 1"
    using assms by (auto simp: last_conv_nth table_ok_def)
  note wf = table_ok_is_int [OF assms(1)] table_ok_entry(6) [OF assms(1)]
  show ?thesis
    using assms(2,3) last wf
    by (auto simp: removal_requests_def Let_def connect_request_def)
qed

lemma removal_requests_start:
  "\<exists>todo. removal_requests ns i =
     (if i = length ns - 1 then Remove (id_of (ns ! i)) else Ping (id_of (ns ! i))) # todo \<and> length todo \<le> 6"
  by (simp add: removal_requests_def Let_def)

section \<open>Properties: removals\<close>

text \<open>
  C28: starting a removal. Removing an entry other than the control node, when no removal is in
  progress, enters the removal into the list and sends its first command (a ping, or the command
  \<open>remove\<close> for the last node) to all children, counting the answers against the table. The rest
  of the commands waits: they are \<open>removal_requests\<close>, encoded in one string array from which the
  control node reads them back. The control node cannot be removed.
\<close>

theorem cmd_remove_starts:
  assumes "good_env E sent" "ctrl_ok E st" "table_ok (nodes (TREE st)) (pid (C_NODE st))"
    and "list_of (remove_list st) []" "fresh_addr (remove_list st) (os_malloc (the_os E) (remove_list st))"
    and "0 < i" "i < length (nodes (TREE st))" "C_NODE st = nodes (TREE st) ! 0" "pid (C_NODE st) \<noteq> -1"
  shows "(\<exists>st' rms r todo u. cmd_remove_c E (id_of (nodes (TREE st) ! i)) st = Some st' \<and>
      removal_requests (nodes (TREE st)) i = r # todo \<and>
      list_of (remove_list st') [rms] \<and> at_request rms [] r todo \<and> remove_node_id rms = id_of (nodes (TREE st) ! i) \<and>
      pending E st' u (int ((length (nodes (TREE st)) + 1) div 2)) \<and>
      sent_down sent (CONTROL_NODE st') (parts u r) (zmq_st st) (zmq_st st') \<and>
      TREE st' = TREE st \<and> ctrl_ok E st' \<and> ctrl_children st' = ctrl_children st) \<and>
    cmd_remove_c E (-1) st = Some (print_line ''Error: The control removed_node cannot be deleted'' st)"
proof -
  let ?ns = "nodes (TREE st)"
  let ?n = "?ns ! i"
  have inv: "btree_inv (TREE st)" using assms(2) by (simp add: ctrl_ok_def)
  have dist: "distinct (map id_of ?ns)" and ne: "?ns \<noteq> []" "id_of (?ns ! 0) = -1"
    using assms(3) by (auto simp: table_ok_def)
  note entry = table_ok_entry [OF assms(3,6,7)]
  have find: "btree_find (TREE st) (id_of ?n) = Some ?n" "btree_find (TREE st) (-1) = Some (C_NODE st)"
    using bt.find_present [of "TREE st" ?n] bt.find_present [of "TREE st" "?ns ! 0"] inv dist ne assms(6-8)
    by (auto simp: bt.well_keyed_def)
  have size: "length ?ns = bt_size (TREE st)" by (rule length_nodes [OF inv])
  have nav: "btree_get_left (TREE st) (id_of ?n) = Some (entry ?ns (2 * i + 1))"
      "btree_get_right (TREE st) (id_of ?n) = Some (entry ?ns (2 * i + 2))"
      "btree_get_parent (TREE st) (id_of ?n) = Some (?ns ! ((i - 1) div 2))"
      "btree_last_elem (TREE st) = Some (last ?ns)"
    using btree_nav_specs [OF inv] btree_last_spec [OF inv] node_index_distinct [OF dist assms(7)] assms(6,7) size by auto
  obtain extra where cmds: "removal_commands ?n (last ?ns) (?ns ! ((i - 1) div 2)) (entry ?ns (2 * i + 1)) (entry ?ns (2 * i + 2)) =
      (int (length (removal_requests ?ns i)), encode_all (removal_requests ?ns i) @ extra)"
    using removal_commands_encode [OF assms(3,6,7)] by blast
  define cs where "cs = encode_all (removal_requests ?ns i) @ extra"
  define rms where "rms = \<lparr>len_commands = int (length cs), remove_node_id = id_of ?n, commands = cs,
           number_commands = int (length (removal_requests ?ns i)), now_command = 0\<rparr>"
  obtain r todo where rq: "removal_requests ?ns i = r # todo" "length todo \<le> 6"
      "r = Ping (id_of ?n) \<or> r = Remove (id_of ?n)"
    using removal_requests_start [of ?ns i] by (auto split: if_splits)
  have at: "at_request rms [] r todo" using rq by (simp add: at_request_def rms_def cs_def)
  obtain l it where l: "list_iter_insert_before (os_malloc (the_os E) (remove_list st)) (remove_list st)
                   (list_iter_begin (remove_list st)) rms = Some (l, it)" "list_of l [rms]"
    using xl.insert_before [OF xl.start [OF assms(4)] assms(5), of rms] xl.at_lists by fastforce
  let ?st1 = "st\<lparr>remove_list := l\<rparr>"
  have "cmd_remove_c E (id_of ?n) st = push_next_remove E rms ?st1"
    using find nav cmds l(1) entry(4,5) by (simp add: cmd_remove_c_def rms_def cs_def)
  moreover have own: "\<not> own r (ctrl_children ?st1)" "removal_request r"
    using rq(3) entry(6,1) by auto
  moreover obtain st' u where st': "push_next_remove_body E rms ?st1 = Some (Inl st')"
      "pending E st' u (int ((bt_size (TREE st) + 1) div 2))" "CONTROL_NODE st' = CONTROL_NODE st" "same_rest ?st1 st'"
      "ctrl_ok E st'" "sent_down sent (CONTROL_NODE st) (parts u r) (zmq_st st) (zmq_st st')"
    using push_next_remote [OF assms(1) _ at own(2,1)] assms(2) by auto
  ultimately have "cmd_remove_c E (id_of ?n) st = Some st'" by (simp add: push_next_remove_def)
  moreover have "remove_node_id rms = id_of ?n" by (simp add: rms_def)
  moreover have "cmd_remove_c E (-1) st = Some (print_line ''Error: The control removed_node cannot be deleted'' st)"
    using find(2) assms(9) by (simp add: cmd_remove_c_def)
  ultimately show ?thesis
    using st' l(2) rq(1) at size by (auto simp: same_rest_def ctrl_children_def)
qed

lemma outcome_closes:
  assumes "hashmap_laws (the_map E)" "removal_outcome E sent rms st p st'" "pending E st u c"
  shows "removal_outcome E sent rms st p
    (st'\<lparr>answer_count_map := hashmap_remove (the_map E) (answer_count_map st') u\<rparr>)"
proof -
  have "u' \<noteq> u" if "answered E st u'" for u'
    using that assms(3) by (auto simp: answered_def pending_def)
  then show ?thesis
    using assms(1,2)
    by (auto simp: removal_outcome_def ctrl_ok_def fresh_uuids_def answered_def pending_def ctrl_children_def
        hashmap_get_remove split: list.splits)
qed

text \<open>
  C29: progress of a removal. When the node concerned answers the current command with success,
  the control node executes the following commands that concern its own sockets, and then either
  sends the next command to its children and waits for its answers, or, after the last command,
  prints \<open>Ok\<close>, takes the removal out of the list and the node out of the table. The answered
  request is closed. All this terminates and does not fault.
\<close>

theorem remove_answer_advances:
  assumes "good_env E sent" "ctrl_ok E st" "nodes (TREE st) \<noteq> []"
    and "list_of (remove_list st) [rms]" "at_request rms done r todo" "\<forall>r \<in> set (r # todo). removal_request r"
    and "own_connects_new todo (ctrl_children st)" "pending E st u c" "0 < c"
  shows "\<exists>st'. receive_process E (answer_msg u (command_of r) (target r) CODE_OK txt) st = Some st' \<and>
    removal_outcome E sent rms st (run_own todo (ctrl_children st)) st' \<and> answered E st' u"
proof -
  obtain p where p: "hashmap_get (the_map E) (answer_count_map st) u = Some p" "p < length (cells st)" "cells st ! p = c"
    using assms(8) by (auto simp: pending_def)
  let ?st1 = "st\<lparr>cells := (cells st)[p := c - 1]\<rparr>"
  have laws: "hashmap_laws (the_map E)" using assms(1) by (simp add: good_env_def)
  have ok1: "ctrl_ok E ?st1" "ctrl_children ?st1 = ctrl_children st"
    using assms(2) by (simp_all add: ctrl_ok_def fresh_uuids_def answered_def ctrl_children_def)
  obtain st2 where st2: "rec_remove E (command_of r) (target r) CODE_OK (Some txt) (c - 1) ?st1 = Some st2"
      "removal_outcome E sent rms ?st1 (run_own todo (ctrl_children st)) st2"
    using removal_advances [OF assms(1) ok1(1) _ _ assms(5), of "Some txt" "c - 1"] assms(3,4,6,7) ok1(2) by auto
  have out: "removal_outcome E sent rms st (run_own todo (ctrl_children st)) st2"
    using st2(2) outcome_cong [of ?st1 st sent rms rms E "run_own todo (ctrl_children st)" st2] by simp
  have "is_int (target r)" "command_of r \<in> {''remove'', ''ping'', ''connect'', ''disconnect''}"
    using assms(6) by (cases r; auto)+
  then have "receive_process E (answer_msg u (command_of r) (target r) CODE_OK txt) st =
      Some (st2\<lparr>answer_count_map := hashmap_remove (the_map E) (answer_count_map st2) u\<rparr>)"
    using p assms(9) st2(1) by (auto simp: receive_process_def Let_def)
  then show ?thesis
    using outcome_closes [OF laws out assms(8)] laws by (simp add: answered_def hashmap_get_remove)
qed

section \<open>A concrete removal\<close>

lemma demo_ctrl_ok: "ctrl_ok demo_env (demo_control vs)"
  using demo_fresh demo_table_inv demo_socks_inv
  by (simp add: ctrl_ok_def demo_control_def demo_self_def)

lemma demo_table_ok: "table_ok (nodes (TREE (demo_control vs))) (pid (C_NODE (demo_control vs)))"
  by (simp add: table_ok_def demo_control_def demo_nodes demo_self_def demo_entry_def is_int_def)

theorem cmd_remove_starts_witness:
  "\<exists>st' rms r todo. cmd_remove_c demo_env 1 (demo_control []) = Some st' \<and> r = Ping 1 \<and>
     list_of (remove_list st') [rms] \<and> at_request rms [] r todo \<and> length todo = 4 \<and>
     cmd_remove_c demo_env (-1) (demo_control []) =
       Some (print_line ''Error: The control removed_node cannot be deleted'' (demo_control []))"
proof -
  have nodes: "nodes (TREE (demo_control [])) = [demo_self, demo_entry 1, demo_entry 2, demo_entry 3]"
    by (simp add: demo_control_def demo_nodes)
  have list: "list_of (remove_list (demo_control [])) []"
    by (simp add: demo_control_def demo_list_of)
  have fresh: "fresh_addr (remove_list (demo_control [])) (os_malloc (the_os demo_env) (remove_list (demo_control [])))"
    by (simp add: demo_control_def demo_env_def demo_os_def fresh_addr_def demo_list_def)
  have rest: "1 < length (nodes (TREE (demo_control [])))" "C_NODE (demo_control []) = nodes (TREE (demo_control [])) ! 0"
      "pid (C_NODE (demo_control [])) \<noteq> -1" "id_of (nodes (TREE (demo_control [])) ! 1) = 1"
      "removal_requests (nodes (TREE (demo_control []))) 1 = Ping 1 # tl (removal_requests (nodes (TREE (demo_control []))) 1)"
      "length (tl (removal_requests (nodes (TREE (demo_control []))) 1)) = 4"
    unfolding nodes by (simp_all add: demo_control_def demo_self_def demo_entry_def removal_requests_def Let_def)
  show ?thesis
    using cmd_remove_starts [OF demo_env_good demo_ctrl_ok demo_table_ok list fresh zero_less_one rest(1-3)] rest(4-6)
    by (metis list.sel(1,3))
qed

definition demo_removal :: remove_struct where
  "demo_removal = \<lparr>len_commands = 6, remove_node_id = 3, commands = encode_all [Remove 3, Disconnect 3],
     number_commands = 2, now_command = 0\<rparr>"

theorem remove_answer_advances_witness:
  "\<exists>st'. receive_process demo_env (answer_msg ''q'' ''remove'' 3 CODE_OK ''OK'') (demo_control [demo_removal]) = Some st' \<and>
     TREE st' = demo_table \<and> answered demo_env st' ''q'' \<and>
     (\<exists>rms' done. list_of (remove_list st') [rms'] \<and> at_request rms' done (Disconnect 3) [])"
proof -
  let ?st = "demo_control [demo_removal]"
  have at: "at_request demo_removal [] (Remove 3) [Disconnect 3]"
    by (simp add: at_request_def demo_removal_def encode_def)
  have st: "nodes (TREE ?st) \<noteq> []" "list_of (remove_list ?st) [demo_removal]" "TREE ?st = demo_table"
      "ctrl_children ?st = {1, 2}" "\<forall>r \<in> set [Remove 3, Disconnect 3]. removal_request r"
    using demo_list_of(2) demo_socks_inv by (simp_all add: demo_control_def demo_nodes ctrl_children_def is_int_def)
  have own: "own_connects_new [Disconnect 3] (ctrl_children ?st)" by (simp add: st)
  have run: "run_own [Disconnect 3] (ctrl_children ?st) = ([Disconnect 3], {1, 2})" by (simp add: st)
  from remove_answer_advances [OF demo_env_good demo_ctrl_ok st(1,2) at st(5) own demo_pending, of "''OK''"]
  show ?thesis unfolding run by (auto simp: removal_outcome_def st)
qed

end
