(* ===== verification/Schedules.thy ===== *)
theory Schedules
  imports Main
begin

text \<open>
  What the programs of several processes or threads share: a step of some of them, a property that
  every step keeps and, where all schedules end, a number that every step lowers. The theories of the
  programs interpret the locales on their own steps.
\<close>

locale schedule =
  fixes step :: "'s \<Rightarrow> 's \<Rightarrow> bool" and inv :: "'s \<Rightarrow> bool"
  assumes step_inv: "step s s' \<Longrightarrow> inv s \<Longrightarrow> inv s'"
begin

lemma run_inv: "step\<^sup>*\<^sup>* s s' \<Longrightarrow> inv s \<Longrightarrow> inv s'"
  by (induction rule: rtranclp_induct) (use step_inv in blast)+

end

locale bounded_schedule = schedule +
  fixes rank :: "'s \<Rightarrow> nat"
  assumes step_rank: "step s s' \<Longrightarrow> inv s \<Longrightarrow> rank s' < rank s"
begin

text \<open>A schedule has no more steps than its rank allows.\<close>

lemma run_rank: "(step ^^ k) s s' \<Longrightarrow> inv s \<Longrightarrow> rank s' + k \<le> rank s"
proof (induction k arbitrary: s')
  case (Suc k)
  then obtain s1 where s1: "(step ^^ k) s s1" "step s1 s'" by (auto elim: relpowp_Suc_E)
  then have "inv s1" using run_inv [OF relpowp_imp_rtranclp] Suc.prems(2) by blast
  with Suc.IH [OF s1(1) Suc.prems(2)] step_rank [OF s1(2)] show ?case by simp
qed simp

text \<open>Every schedule can be continued to an end.\<close>

lemma run_ends: "inv s \<Longrightarrow> \<exists>s'. step\<^sup>*\<^sup>* s s' \<and> (\<nexists>s''. step s' s'')"
proof (induction "rank s" arbitrary: s rule: less_induct)
  case less
  show ?case
  proof (cases "\<exists>s1. step s s1")
    case True
    then obtain s1 where s1: "step s s1" by blast
    with less.hyps [of s1] step_rank step_inv less.prems obtain s' where "step\<^sup>*\<^sup>* s1 s'" "\<nexists>s''. step s' s''" by blast
    with converse_rtranclp_into_rtranclp [of step, OF s1] show ?thesis by blast
  qed blast
qed

end

end
