(* ===== verification/Broadcast.thy ===== *)
theory Broadcast
  imports ControlNode Schedules "HOL-Library.Multiset"
begin

text \<open>
  The tree of processes of lab 6 as one system. A request of the control node is a broadcast: it
  travels from parents to children until a node answers it, and the answers travel up hop by hop
  (\<^verbatim>\<open>push_next\<close> and the main loop of \<^verbatim>\<open>lab6/compute_node.c\<close>). Nodes run concurrently, so the
  steps are a relation: any node that has a message may act next. Node \<open>j\<close> is the node at index
  \<open>j\<close> of the control node's table, index 0 is the control node; what a node does with a request is
  \<open>abs_step\<close>, which the compute node's handlers implement.

  The control node decides from the number of answers whether a request has failed, see
  \<open>answer_count_push\<close>. The theorems show that this count is right.
\<close>

section \<open>Steps\<close>

record cast =
  flight :: "nat multiset"                \<comment> \<open>nodes that have the request waiting\<close>
  answers_at :: "(nat \<times> effect) multiset"   \<comment> \<open>answers that have come up to a node\<close>

definition heap_kids :: "nat \<Rightarrow> nat \<Rightarrow> nat multiset" where
  "heap_kids n j = mset (filter (\<lambda>k. k < n) [2 * j + 1, 2 * j + 2])"

inductive cast_step :: "nat \<Rightarrow> (nat \<Rightarrow> effect) \<Rightarrow> cast \<Rightarrow> cast \<Rightarrow> bool" for n beh where
  answer: "cast_step n beh s (s\<lparr>flight := flight s - {#j#}, answers_at := add_mset (j, Answer c t) (answers_at s)\<rparr>)"
    if "j \<in># flight s" "beh j = Answer c t"
| forward: "cast_step n beh s (s\<lparr>flight := flight s - {#j#} + heap_kids n j\<rparr>)"
    if "j \<in># flight s" "beh j = Pass_on"
| relay: "cast_step n beh s (s\<lparr>answers_at := add_mset ((j - 1) div 2, e) (answers_at s - {#(j, e)#})\<rparr>)"
    if "(j, e) \<in># answers_at s" "0 < j"

text \<open>The control node sends the request to its children.\<close>

definition cast_start :: "nat \<Rightarrow> cast" where
  "cast_start n = \<lparr>flight = heap_kids n 0, answers_at = {#}\<rparr>"

definition quiescent :: "cast \<Rightarrow> bool" where
  "quiescent s \<longleftrightarrow> flight s = {#} \<and> (\<forall>a \<in># answers_at s. fst a = 0)"

text \<open>The node at index \<open>j\<close> of a table with the ids \<open>ids\<close>, with its variables.\<close>

definition node_at :: "int list \<Rightarrow> (nat \<Rightarrow> string \<rightharpoonup> int) \<Rightarrow> nat \<Rightarrow> abs_node" where
  "node_at ids vars j = \<lparr>an_id = ids ! j, an_children = (\<lambda>k. ids ! k) ` set_mset (heap_kids (length ids) j),
     an_vars = vars j, an_alive = True\<rparr>"

definition behaviour :: "request \<Rightarrow> int list \<Rightarrow> (nat \<Rightarrow> string \<rightharpoonup> int) \<Rightarrow> nat \<Rightarrow> effect" where
  "behaviour r ids vars j = snd (abs_step r (node_at ids vars j))"

section \<open>Subtrees of the heap\<close>

function below :: "nat \<Rightarrow> nat \<Rightarrow> bool" where
  "below j k = (if k \<le> j then k = j else below j ((k - 1) div 2))"
  by pat_completeness auto
termination by (relation "measure (\<lambda>(j, k). k)") auto

declare below.simps [simp del]

lemma below_refl [simp]: "below j j"
  by (subst below.simps) simp

lemma below_le: "below j k \<Longrightarrow> j \<le> k"
  by (subst (asm) below.simps) (simp split: if_splits)

lemma below_0 [simp]: "below 0 k"
proof (induction k rule: less_induct)
  case (less k)
  then show ?case by (subst below.simps) auto
qed

lemma below_parent: "0 < c \<Longrightarrow> c \<noteq> j \<Longrightarrow> below j c \<longleftrightarrow> below j ((c - 1) div 2) "
proof -
  assume c: "0 < c" "c \<noteq> j"
  have "j < c" if "below j ((c - 1) div 2)"
    using below_le [OF that] c(1) by auto
  with c(2) show ?thesis by (subst below.simps) auto
qed

text \<open>The proper part of a subtree is the disjoint union of the subtrees of the two children.\<close>

lemma below_children: "below j k \<longleftrightarrow> k = j \<or> below (2 * j + 1) k \<or> below (2 * j + 2) k"
proof (induction k rule: less_induct)
  case (less k)
  show ?case
  proof (cases "k \<le> j")
    case True
    then show ?thesis using below_le [of j k] below_le [of "2 * j + 1" k] below_le [of "2 * j + 2" k] by auto
  next
    case False
    then have k: "0 < k" "k \<noteq> j" "(k - 1) div 2 < k" by auto
    show ?thesis
    proof (cases "k = 2 * j + 1 \<or> k = 2 * j + 2")
      case True
      then have "(k - 1) div 2 = j" by auto
      then have "below j k" using below_parent [of k j] k by simp
      with True show ?thesis by auto
    next
      case other: False
      define m where "m = (k - 1) div 2"
      have ne: "k \<noteq> 2 * j + 1" "k \<noteq> 2 * j + 2" "m \<noteq> j" using other k unfolding m_def by auto
      have "below i k \<longleftrightarrow> below i m" if "i \<in> {j, 2 * j + 1, 2 * j + 2}" for i
        unfolding m_def by (rule below_parent) (use k ne that in auto)
      with less [OF k(3), folded m_def] ne k(2) show ?thesis by blast
    qed
  qed
qed

lemma below_disjoint: "\<not> (below (2 * j + 1) k \<and> below (2 * j + 2) k)"
proof (induction k rule: less_induct)
  case (less k)
  define m where "m = (k - 1) div 2"
  show ?case
  proof (cases "k \<le> 2 * j + 2")
    case True
    have "\<not> below (2 * j + 1) (2 * j + 2)" by (simp add: below.simps)
    with True show ?thesis using below_le [of "2 * j + 2" k] by (cases "k = 2 * j + 2") auto
  next
    case False
    then have "below i k \<longleftrightarrow> below i m" if "i \<in> {2 * j + 1, 2 * j + 2}" for i
      unfolding m_def by (intro below_parent) (use that in auto)
    moreover have "m < k" using False unfolding m_def by auto
    ultimately show ?thesis using less [of m] by blast
  qed
qed

text \<open>The leaves below \<open>j\<close> that are not below \<open>t\<close>.\<close>

definition leaves :: "nat \<Rightarrow> nat \<Rightarrow> nat \<Rightarrow> nat set" where
  "leaves n t j = {k. k < n \<and> n \<le> 2 * k + 1 \<and> below j k \<and> \<not> below t k}"

lemma finite_leaves [simp]: "finite (leaves n t j)"
  by (rule finite_subset [of _ "{..<n}"]) (auto simp: leaves_def)

lemma leaves_leaf:
  assumes "j < n" "n \<le> 2 * j + 1"
  shows "leaves n t j = (if below t j then {} else {j})"
proof -
  have "k = j" if "k < n" "below j k" for k
    using that assms below_children [of j k] below_le [of "2 * j + 1" k] below_le [of "2 * j + 2" k] by auto
  then show ?thesis using assms by (auto simp: leaves_def)
qed

lemma leaves_out_of_range [simp]: "n \<le> j \<Longrightarrow> leaves n t j = {}"
  using below_le by (fastforce simp: leaves_def)

lemma leaves_split:
  assumes "2 * j + 1 < n"
  shows "card (leaves n t j) = card (leaves n t (2 * j + 1)) + card (leaves n t (2 * j + 2))"
proof -
  have "leaves n t j = leaves n t (2 * j + 1) \<union> leaves n t (2 * j + 2)"
    using assms by (auto simp: leaves_def below_children [of j])
  moreover have "leaves n t (2 * j + 1) \<inter> leaves n t (2 * j + 2) = {}"
    using below_disjoint [of j] by (auto simp: leaves_def)
  ultimately show ?thesis by (simp add: card_Un_disjoint)
qed

lemma all_leaves: "t \<ge> n \<Longrightarrow> card (leaves n t 0) = (n + 1) div 2"
proof -
  assume "t \<ge> n"
  then have "leaves n t 0 = {n div 2..<n}"
    using below_le [of t] by (fastforce simp: leaves_def)
  then show ?thesis by simp
qed

text \<open>Below every node there is a leaf.\<close>

lemma leaf_below: "t < n \<Longrightarrow> \<exists>k. k < n \<and> n \<le> 2 * k + 1 \<and> below t k"
proof (induction "n - t" arbitrary: t rule: less_induct)
  case less
  show ?case
  proof (cases "n \<le> 2 * t + 1")
    case False
    then have "n - (2 * t + 1) < n - t" "2 * t + 1 < n" using less.prems by auto
    from less.hyps [OF this] show ?thesis using below_children [of t] by blast
  qed (use less.prems in auto)
qed

lemma fewer_leaves:
  assumes "t < n"
  shows "card (leaves n t 0) < (n + 1) div 2"
proof -
  obtain k where "k < n" "n \<le> 2 * k + 1" "below t k" using leaf_below [OF assms] by blast
  then have "leaves n t 0 \<subseteq> {n div 2..<n} - {k}" "k \<in> {n div 2..<n}" by (auto simp: leaves_def)
  then have "card (leaves n t 0) \<le> card {n div 2..<n} - 1"
    by (metis card_Diff_singleton card_mono finite_Diff finite_atLeastLessThan)
  moreover have "0 < card {n div 2..<n}" using assms by simp
  ultimately show ?thesis by simp
qed

section \<open>The answers to a broadcast\<close>

text \<open>
  What a request meets: the node at index \<open>t\<close> answers it (there is none if \<open>t\<close> is behind the
  table), a leaf answers not found, another node passes it on.
\<close>

abbreviation not_found :: effect where
  "not_found \<equiv> Answer CODE_ERROR_NOT_FOUND ERROR_NOT_FOUND"

definition seeks :: "nat \<Rightarrow> nat \<Rightarrow> int \<Rightarrow> string \<Rightarrow> (nat \<Rightarrow> effect) \<Rightarrow> bool" where
  "seeks n t c x beh \<longleftrightarrow> 0 < t \<and> c \<noteq> CODE_ERROR_NOT_FOUND \<and> (t < n \<longrightarrow> beh t = Answer c x) \<and>
     (\<forall>j < n. j \<noteq> t \<longrightarrow> beh j = (if n \<le> 2 * j + 1 then not_found else Pass_on))"

text \<open>Answers and requests on the way, counted: what will have come up in the end is constant.\<close>

definition to_come :: "nat \<Rightarrow> nat \<Rightarrow> cast \<Rightarrow> nat" where
  "to_come n t s = (\<Sum>j \<in># flight s. card (leaves n t j)) + size {#a \<in># answers_at s. snd a = not_found#}"

definition hits :: "nat \<Rightarrow> effect \<Rightarrow> cast \<Rightarrow> nat" where
  "hits t e s = (\<Sum>j \<in># flight s. of_bool (below j t)) + size {#a \<in># answers_at s. snd a = e#}"

definition cast_inv :: "nat \<Rightarrow> nat \<Rightarrow> int \<Rightarrow> string \<Rightarrow> cast \<Rightarrow> bool" where
  "cast_inv n t c x s \<longleftrightarrow>
     (\<forall>j \<in># flight s. 0 < j \<and> j < n \<and> (below t j \<longrightarrow> j = t)) \<and>
     (\<forall>a \<in># answers_at s. fst a < n \<and> (snd a = not_found \<or> t < n \<and> snd a = Answer c x)) \<and>
     to_come n t s = card (leaves n t 0) \<and>
     (t < n \<longrightarrow> hits t (Answer c x) s = 1)"

lemma heap_kids_cases:
  "heap_kids n j = (if n \<le> 2 * j + 1 then {#} else if n \<le> 2 * j + 2 then {#2 * j + 1#} else {#2 * j + 1, 2 * j + 2#})"
  by (simp add: heap_kids_def)

lemma kids_leaves: "2 * j + 1 < n \<Longrightarrow> (\<Sum>k \<in># heap_kids n j. card (leaves n t k)) = card (leaves n t j)"
  by (auto simp: heap_kids_cases leaves_split)

lemma kids_hits:
  assumes "2 * j + 1 < n" "t < n" "j \<noteq> t"
  shows "(\<Sum>k \<in># heap_kids n j. of_bool (below k t)) = (of_bool (below j t) :: nat)"
  using assms below_children [of j t] below_disjoint [of j t] below_le [of "2 * j + 2" t]
  by (auto simp: heap_kids_cases)

lemma kids_bounds:
  assumes "k \<in># heap_kids n j"
  shows "0 < k" "k < n" "(k - 1) div 2 = j"
  using assms by (auto simp: heap_kids_cases split: if_splits)


lemma cast_inv_start:
  assumes "1 < n" "0 < t"
  shows "cast_inv n t c x (cast_start n)"
proof -
  have "j \<noteq> t \<Longrightarrow> \<not> below t j" if "j \<in># heap_kids n 0" for j
    using below_parent [of j t] below_le [of t 0] kids_bounds [OF that] assms(2) by auto
  moreover have "t < n \<Longrightarrow> (\<Sum>k \<in># heap_kids n 0. of_bool (below k t)) = (1 :: nat)"
    using kids_hits [of 0 n t] assms by simp
  ultimately show ?thesis
    using kids_bounds [of _ n 0] kids_leaves [of 0 n t] assms
    by (auto simp: cast_inv_def cast_start_def to_come_def hits_def)
qed

lemma cast_inv_answer:
  assumes "cast_inv n t c x s" "seeks n t c x beh" "j \<in># flight s" "beh j = Answer c' x'"
  shows "cast_inv n t c x (s\<lparr>flight := flight s - {#j#}, answers_at := add_mset (j, Answer c' x') (answers_at s)\<rparr>)"
proof -
  obtain F where F: "flight s = add_mset j F" using assms(3) by (metis mset_add)
  have j: "0 < j" "j < n" "below t j \<longrightarrow> j = t" using assms(1,3) by (auto simp: cast_inv_def)
  show ?thesis
  proof (cases "j = t")
    case True
    then have "Answer c' x' = Answer c x" "c \<noteq> CODE_ERROR_NOT_FOUND" "card (leaves n t t) = 0"
      using assms(2,4) j(2) by (auto simp: seeks_def leaves_def)
    with True j assms(1) F show ?thesis by (auto simp: cast_inv_def to_come_def hits_def)
  next
    case False
    then have leaf: "n \<le> 2 * j + 1" "Answer c' x' = not_found" "c \<noteq> CODE_ERROR_NOT_FOUND"
      using assms(2,4) j(2) by (auto simp: seeks_def split: if_splits)
    have "card (leaves n t j) = 1" "t < n \<Longrightarrow> \<not> below j t"
      using leaves_leaf [OF j(2) leaf(1)] False j(3) below_children [of j t] leaf(1)
        below_le [of "2 * j + 1" t] below_le [of "2 * j + 2" t] by auto
    with leaf j assms(1) F show ?thesis by (auto simp: cast_inv_def to_come_def hits_def)
  qed
qed

lemma cast_inv_forward:
  assumes "cast_inv n t c x s" "seeks n t c x beh" "j \<in># flight s" "beh j = Pass_on"
  shows "cast_inv n t c x (s\<lparr>flight := flight s - {#j#} + heap_kids n j\<rparr>)"
proof -
  obtain F where F: "flight s = add_mset j F" using assms(3) by (metis mset_add)
  have j: "0 < j" "j < n" "below t j \<longrightarrow> j = t" using assms(1,3) by (auto simp: cast_inv_def)
  then have "j \<noteq> t" "2 * j + 1 < n" using assms(2,4) by (auto simp: seeks_def split: if_splits)
  moreover have "below t k \<longrightarrow> k = t" if "k \<in># heap_kids n j" for k
    using kids_bounds [OF that] below_parent [of k t] j(3) \<open>j \<noteq> t\<close> by auto
  moreover have "to_come n t (s\<lparr>flight := F + heap_kids n j\<rparr>) = to_come n t s"
    using kids_leaves [OF \<open>2 * j + 1 < n\<close>, of t] F by (simp add: to_come_def)
  moreover have "t < n \<Longrightarrow> hits t e (s\<lparr>flight := F + heap_kids n j\<rparr>) = hits t e s" for e
    using kids_hits [OF \<open>2 * j + 1 < n\<close> _ \<open>j \<noteq> t\<close>] F by (simp add: hits_def)
  ultimately show ?thesis
    using assms(1) F kids_bounds [of _ n j] by (auto simp: cast_inv_def)
qed

lemma cast_inv_relay:
  assumes "cast_inv n t c x s" "(j, e) \<in># answers_at s"
  shows "cast_inv n t c x (s\<lparr>answers_at := add_mset ((j - 1) div 2, e) (answers_at s - {#(j, e)#})\<rparr>)"
proof -
  obtain A where "answers_at s = add_mset (j, e) A" using assms(2) by (metis mset_add)
  with assms(1) show ?thesis by (auto simp: cast_inv_def to_come_def hits_def split: if_splits)
qed

lemma cast_inv_step:
  "cast_step n beh s s' \<Longrightarrow> cast_inv n t c x s \<Longrightarrow> seeks n t c x beh \<Longrightarrow> cast_inv n t c x s'"
  by (erule cast_step.cases) (simp_all only: cast_inv_answer cast_inv_forward cast_inv_relay)

interpretation seek: schedule "cast_step n beh" "\<lambda>s. cast_inv n t c x s \<and> seeks n t c x beh" for n beh t c x
  by unfold_locales (use cast_inv_step in blast)

lemma cast_inv_reachable:
  assumes "(cast_step n beh)\<^sup>*\<^sup>* (cast_start n) s" "1 < n" "seeks n t c x beh"
  shows "cast_inv n t c x s"
proof -
  have "cast_inv n t c x (cast_start n)" using cast_inv_start assms(2,3) by (auto simp: seeks_def)
  with seek.run_inv [OF assms(1)] assms(3) show ?thesis by blast
qed

text \<open>What has come up to the control node in the end.\<close>

definition came_up :: "cast \<Rightarrow> effect multiset" where
  "came_up s = image_mset snd (answers_at s)"

lemma two_values:
  assumes "\<forall>a \<in># M. a = u \<or> a = v" "u \<noteq> v"
  shows "M = replicate_mset (size {#a \<in># M. a = u#}) u + replicate_mset (size {#a \<in># M. a = v#}) v"
  using assms by (induction M) auto

lemma came_up_final:
  assumes "cast_inv n t c x s" "quiescent s" "seeks n t c x beh"
  shows "came_up s = replicate_mset (card (leaves n t 0)) not_found +
    (if t < n then {#Answer c x#} else {#})"
proof -
  have count: "size {#a \<in># came_up s. a = e#} = size {#a \<in># answers_at s. snd a = e#}" for e
    by (simp add: came_up_def image_mset_filter_mset_swap [symmetric])
  have "\<forall>a \<in># came_up s. a = not_found \<or> a = Answer c x" "not_found \<noteq> Answer c x"
    using assms by (auto simp: cast_inv_def came_up_def seeks_def)
  note two = two_values [OF this, unfolded count]
  have nf: "size {#a \<in># answers_at s. snd a = not_found#} = card (leaves n t 0)"
    using assms(1,2) by (simp add: cast_inv_def quiescent_def to_come_def)
  have "size {#a \<in># answers_at s. snd a = Answer c x#} = (if t < n then 1 else 0)"
    using assms by (auto simp: cast_inv_def quiescent_def hits_def seeks_def)
  then show ?thesis using two nf by auto
qed


section \<open>Termination\<close>

definition potential :: "nat \<Rightarrow> cast \<Rightarrow> nat" where
  "potential n s = (\<Sum>j \<in># flight s. (n + 1) * 3 ^ (n - j)) + (\<Sum>a \<in># answers_at s. fst a)"

definition in_range :: "nat \<Rightarrow> cast \<Rightarrow> bool" where
  "in_range n s \<longleftrightarrow> (\<forall>j \<in># flight s. j < n)"

lemma kids_sum_le:
  assumes "\<And>k. j < k \<Longrightarrow> w k \<le> (p :: nat)"
  shows "(\<Sum>k \<in># heap_kids n j. w k) \<le> 2 * p"
  using assms [of "2 * j + 1"] assms [of "2 * j + 2"] by (simp add: heap_kids_cases)

lemma kids_potential:
  assumes "j < n"
  shows "(\<Sum>k \<in># heap_kids n j. (n + 1) * 3 ^ (n - k)) < (n + 1) * 3 ^ (n - j)"
proof -
  have "(n + 1) * 3 ^ (n - k) \<le> (n + 1) * 3 ^ (n - j - 1)" if "j < k" for k
    by (rule mult_le_mono2, rule power_increasing) (use that in auto)
  then have "(\<Sum>k \<in># heap_kids n j. (n + 1) * 3 ^ (n - k)) \<le> 2 * ((n + 1) * 3 ^ (n - j - 1))"
    by (rule kids_sum_le)
  also have "\<dots> < (n + 1) * (3 * 3 ^ (n - j - 1))" by simp
  also have "3 * 3 ^ (n - j - 1) = (3 :: nat) ^ (n - j)"
    using power_minus_mult [of "n - j" "3 :: nat"] assms by (simp only: mult.commute zero_less_diff)
  finally show ?thesis .
qed

lemma step_in_range:
  assumes "cast_step n beh s s'" "in_range n s"
  shows "in_range n s'"
  using assms(1)
proof (cases rule: cast_step.cases)
  case (forward j)
  then obtain F where "flight s = add_mset j F" by (metis mset_add)
  with forward assms(2) show ?thesis by (auto simp: in_range_def dest: kids_bounds(2))
qed (use assms(2) in \<open>auto simp: in_range_def dest: in_diffD\<close>)

lemma step_potential:
  assumes "cast_step n beh s s'" "in_range n s"
  shows "potential n s' < potential n s"
  using assms(1)
proof (cases rule: cast_step.cases)
  case (answer j c x)
  then obtain F where F: "flight s = add_mset j F" by (metis mset_add)
  then have "j < (n + 1) * 1" using assms(2) by (simp add: in_range_def)
  also have "\<dots> \<le> (n + 1) * 3 ^ (n - j)" by (rule mult_le_mono2) simp
  finally have "j < (n + 1) * 3 ^ (n - j)" .
  with answer F show ?thesis by (simp add: potential_def)
next
  case (forward j)
  then obtain F where F: "flight s = add_mset j F" by (metis mset_add)
  then have "j < n" using assms(2) by (simp add: in_range_def)
  from kids_potential [OF this] show ?thesis unfolding forward(1) by (simp add: potential_def F)
next
  case (relay j e)
  then obtain A where A: "answers_at s = add_mset (j, e) A" by (metis mset_add)
  have "(j - 1) div 2 < j" using relay by auto
  with relay A show ?thesis by (simp add: potential_def)
qed

lemma start_in_range: "in_range n (cast_start n)"
  using kids_bounds by (auto simp: in_range_def cast_start_def)

interpretation cast: bounded_schedule "cast_step n beh" "in_range n" "potential n" for n beh
  by unfold_locales (fact step_in_range, fact step_potential)

lemma start_potential: "0 < n \<Longrightarrow> potential n (cast_start n) < (n + 1) * 3 ^ n"
  using kids_potential [of 0 n] by (simp add: potential_def cast_start_def)

lemma progress:
  assumes "cast_inv n t c x s" "seeks n t c x beh" "\<not> quiescent s"
  shows "\<exists>s'. cast_step n beh s s'"
proof (cases "flight s = {#}")
  case False
  then obtain j where j: "j \<in># flight s" by (meson multiset_nonemptyE)
  then have "j < n" using assms(1) by (simp add: cast_inv_def)
  then have "(\<exists>c x. beh j = Answer c x) \<or> beh j = Pass_on"
    using assms(2) by (cases "j = t") (auto simp: seeks_def)
  with j show ?thesis by (metis answer forward)
next
  case True
  then obtain j e where "(j, e) \<in># answers_at s" "0 < j" using assms(3) by (auto simp: quiescent_def)
  then show ?thesis by (metis relay)
qed


section \<open>Properties\<close>

lemma node_at_simps [simp]:
  "an_id (node_at ids vars j) = ids ! j" "an_vars (node_at ids vars j) = vars j"
  "an_children (node_at ids vars j) = {} \<longleftrightarrow> length ids \<le> 2 * j + 1"
  by (simp_all add: node_at_def heap_kids_cases)

text \<open>Requests that only their target answers, and its answer.\<close>

fun for_target :: "request \<Rightarrow> bool" where
  "for_target (Connect c n p a b) = False"
| "for_target (Disconnect n) = False"
| "for_target _ = True"

lemma behaviour_other:
  "for_target r \<Longrightarrow> ids ! j \<noteq> target r \<Longrightarrow>
   behaviour r ids vars j = (if length ids \<le> 2 * j + 1 then not_found else Pass_on)"
  by (cases r) (simp_all add: behaviour_def pass_def)

lemma behaviour_target:
  assumes "for_target r" "ids ! j = target r"
  shows "\<exists>c x. behaviour r ids vars j = Answer c x \<and> (c = CODE_OK \<or> c = CODE_ERROR_CUSTOM)"
  using assms by (cases r) (auto simp: behaviour_def split: option.splits)

text \<open>The index of the target, or the length of the table.\<close>

fun index_of :: "int \<Rightarrow> int list \<Rightarrow> nat" where
  "index_of i [] = 0"
| "index_of i (k # ks) = (if k = i then 0 else Suc (index_of i ks))"

lemma index_of_present: "i \<in> set ids \<Longrightarrow> index_of i ids < length ids \<and> ids ! index_of i ids = i"
  by (induction ids) auto

lemma index_of_absent: "i \<notin> set ids \<Longrightarrow> index_of i ids = length ids"
  by (induction ids) auto

lemma seeks_behaviour:
  assumes "for_target r" "distinct ids" "1 < length ids" "ids ! 0 \<noteq> target r"
  obtains c x where "seeks (length ids) (index_of (target r) ids) c x (behaviour r ids vars)"
    "c = CODE_OK \<or> c = CODE_ERROR_CUSTOM"
    "target r \<in> set ids \<Longrightarrow> Answer c x = behaviour r ids vars (index_of (target r) ids)"
proof (cases "target r \<in> set ids")
  case True
  let ?t = "index_of (target r) ids"
  note t = index_of_present [OF True]
  obtain c x where cx: "behaviour r ids vars ?t = Answer c x" "c = CODE_OK \<or> c = CODE_ERROR_CUSTOM"
    using behaviour_target [OF assms(1), of ids ?t vars] t by blast
  have "ids ! j \<noteq> target r" if "j < length ids" "j \<noteq> ?t" for j
    using that t assms(2) by (metis nth_eq_iff_index_eq)
  moreover have "0 < ?t" using t assms(4) by (metis gr0I)
  ultimately have "seeks (length ids) ?t c x (behaviour r ids vars)"
    using cx behaviour_other [OF assms(1)] by (auto simp: seeks_def)
  with cx that show ?thesis by simp
next
  case False
  then have "ids ! j \<noteq> target r" if "j < length ids" for j using that by (metis nth_mem)
  then have "seeks (length ids) (index_of (target r) ids) CODE_OK '''' (behaviour r ids vars)"
    using behaviour_other [OF assms(1)] index_of_absent [OF False] assms(3) by (auto simp: seeks_def)
  with False that show ?thesis by blast
qed


lemma quiescent_reached:
  assumes "1 < n" "seeks n t c x beh"
  shows "(cast_step n beh)\<^sup>*\<^sup>* (cast_start n) s \<Longrightarrow> \<exists>s'. (cast_step n beh)\<^sup>*\<^sup>* s s' \<and> quiescent s'"
proof -
  assume run: "(cast_step n beh)\<^sup>*\<^sup>* (cast_start n) s"
  obtain s' where s': "(cast_step n beh)\<^sup>*\<^sup>* s s'" "\<nexists>s''. cast_step n beh s' s''"
    using cast.run_ends [OF cast.run_inv [OF run start_in_range]] by blast
  have "cast_inv n t c x s'" using cast_inv_reachable [OF rtranclp_trans [OF run s'(1)] assms] .
  with progress [of n t c x s' beh] assms(2) s' show ?thesis by blast
qed

lemma broadcast_answers:
  assumes "for_target r" "distinct ids" "1 < length ids" "ids ! 0 \<noteq> target r"
    and "(cast_step (length ids) (behaviour r ids vars))\<^sup>*\<^sup>* (cast_start (length ids)) s" "quiescent s"
  shows "\<exists>k. came_up s = replicate_mset k not_found + (if target r \<in> set ids
        then {#behaviour r ids vars (index_of (target r) ids)#} else {#}) \<and>
     (if target r \<in> set ids then k < (length ids + 1) div 2 else k = (length ids + 1) div 2)"
proof -
  let ?n = "length ids" and ?t = "index_of (target r) ids"
  obtain c x where cx: "seeks ?n ?t c x (behaviour r ids vars)"
      "target r \<in> set ids \<Longrightarrow> Answer c x = behaviour r ids vars ?t"
    using seeks_behaviour [OF assms(1-4)] by metis
  have "came_up s = replicate_mset (card (leaves ?n ?t 0)) not_found + (if ?t < ?n then {#Answer c x#} else {#})"
    using came_up_final [OF cast_inv_reachable [OF assms(5,3) cx(1)] assms(6) cx(1)] .
  moreover have "?t < ?n \<longleftrightarrow> target r \<in> set ids"
    using index_of_present index_of_absent by (metis less_irrefl)
  ultimately show ?thesis using cx(2) fewer_leaves [of ?t ?n] all_leaves [of ?n ?t] by auto
qed

text \<open>
  C1: broadcasts. A request that only its target answers is broadcast in a table of \<open>n\<close> nodes.
  However the steps of the nodes interleave, a run has fewer than \<open>(n + 1) * 3 ^ n\<close> steps, it can
  always go on until nothing is on its way, and then the answers that have come up to the control
  node are those it counts on: if the target is in the table, exactly one answer of the target
  and fewer than half of \<open>n\<close>, rounded up, that say not found; otherwise exactly half of \<open>n\<close>,
  rounded up, that say not found.
\<close>

theorem broadcast_correct:
  assumes "for_target r" "distinct ids" "1 < length ids" "ids ! 0 \<noteq> target r"
    and "(cast_step (length ids) (behaviour r ids vars) ^^ k) (cast_start (length ids)) s"
  shows "k < (length ids + 1) * 3 ^ length ids \<and>
    (\<exists>s'. (cast_step (length ids) (behaviour r ids vars))\<^sup>*\<^sup>* s s' \<and> quiescent s') \<and>
    (quiescent s \<longrightarrow> (\<exists>m. came_up s = replicate_mset m not_found + (if target r \<in> set ids
        then {#behaviour r ids vars (index_of (target r) ids)#} else {#}) \<and>
     (if target r \<in> set ids then m < (length ids + 1) div 2 else m = (length ids + 1) div 2)))"
proof -
  have reach: "(cast_step (length ids) (behaviour r ids vars))\<^sup>*\<^sup>* (cast_start (length ids)) s"
    using assms(5) relpowp_imp_rtranclp by metis
  have "k < (length ids + 1) * 3 ^ length ids"
    using cast.run_rank [OF assms(5) start_in_range] start_potential [of "length ids"] assms(3) by linarith
  moreover obtain t c x where "seeks (length ids) t c x (behaviour r ids vars)"
    using seeks_behaviour [OF assms(1-4)] by metis
  ultimately show ?thesis
    using quiescent_reached [OF assms(3) _ reach] broadcast_answers [OF assms(1-4) reach] by blast
qed


text \<open>An answer to \<open>exec\<close> as the message that reaches the control node, and as the line it prints.\<close>

fun effect_msg :: "string \<Rightarrow> int \<Rightarrow> effect \<Rightarrow> string option list" where
  "effect_msg u i (Answer code txt) = answer_msg u ''exec'' i code txt"
| "effect_msg u i _ = []"

fun effect_line :: "int \<Rightarrow> effect \<Rightarrow> string" where
  "effect_line i (Answer code txt) = exec_line i code txt"
| "effect_line i _ = ''''"

lemma answers_in_any_order:
  assumes "hashmap_laws (the_map E)" "pending E st u (int n)" "is_int i" "k < n"
    and "c = CODE_OK \<or> c = CODE_ERROR_CUSTOM"
    and "mset es = replicate_mset k not_found + {#Answer c x#}"
  shows "\<exists>st'. receive_all E (map (effect_msg u i) es) st = Some st' \<and>
    trace st' = trace st @ [Printed (exec_line i c x)] \<and> answered E st' u"
proof -
  have "Answer c x \<in> set es" using assms(6) by (metis add_mset_add_single set_mset_mset union_single_eq_member)
  then obtain as bs where es: "es = as @ Answer c x # bs" by (meson split_list)
  then have rest: "mset as + mset bs = replicate_mset k not_found" using assms(6) by simp
  then have all: "\<forall>e \<in> set as \<union> set bs. e = not_found"
    by (metis (no_types, lifting) in_replicate_mset set_mset_mset set_mset_union)
  then have as: "map (effect_msg u i) as =
      replicate (length as) (answer_msg u ''exec'' i CODE_ERROR_NOT_FOUND ERROR_NOT_FOUND)"
    by (induction as) auto
  have "length as + length bs = k" using rest by (metis size_mset size_replicate_mset size_union)
  then obtain sa where sa: "receive_all E (map (effect_msg u i) as) st = Some sa"
      "pending E sa u (int n - int (length as))" "trace sa = trace st"
    using exec_not_founds [OF assms(3,2), of "length as"] assms(4) as by auto
  obtain sb where sb: "receive_process E (answer_msg u ''exec'' i c x) sa = Some sb"
      "answered E sb u" "trace sb = trace sa @ [Printed (exec_line i c x)]"
    using exec_final [OF assms(1) sa(2) assms(3) _ assms(5)] assms(4) \<open>length as + length bs = k\<close> by auto
  have "slot (effect_msg u i e) 0 = Some u" if "e \<in> set bs" for e
  proof -
    have "e = not_found" using that all by blast
    then show ?thesis by simp
  qed
  then have "\<forall>m \<in> set (map (effect_msg u i) bs). slot m 0 = Some u" by auto
  from late_answers_ignored [OF sb(2) this] sa sb show ?thesis by (simp add: es receive_all_append)
qed

text \<open>
  C2: one command from the table to the printed line. A set or get for a node of the table is sent
  to the children, and however the nodes of the tree act on it and in whatever order their answers
  come up, the control node prints exactly one line for it, with the result of the target, and
  closes the request. That the answers come up is \<open>broadcast_correct\<close>.
\<close>

theorem exec_command_correct:
  assumes "good_env E sent" "fresh_uuids E st" "btree_inv (TREE st)" "ids = map id_of (nodes (TREE st))" "distinct ids"
    and "n \<in> set (nodes (TREE st))" "pid n \<noteq> -1" "pid n \<noteq> pid (C_NODE st)" "ids ! 0 \<noteq> id_of n" "is_int (id_of n)"
    and "r = (if is_set then Exec_set (id_of n) x v else Exec_get (id_of n) x)"
  shows "\<exists>st' u. cmd_exec_c E is_set (id_of n) (Some x) v st = Some st' \<and>
    sent_down sent (CONTROL_NODE st) (parts u r) (zmq_st st) (zmq_st st') \<and>
    (\<forall>s es. (cast_step (length ids) (behaviour r ids vars))\<^sup>*\<^sup>* (cast_start (length ids)) s \<and> quiescent s \<and>
       mset es = came_up s \<longrightarrow>
       (\<exists>st''. receive_all E (map (effect_msg u (id_of n)) es) st' = Some st'' \<and> answered E st'' u \<and>
          trace st'' = trace st @
            [Made_uuid u, Printed (effect_line (id_of n) (behaviour r ids vars (index_of (id_of n) ids)))]))"
proof -
  obtain st' u where st': "cmd_exec_c E is_set (id_of n) (Some x) v st = Some st'"
      "pending E st' u (int ((length ids + 1) div 2))" "trace st' = trace st @ [Made_uuid u]"
      "sent_down sent (CONTROL_NODE st) (parts u r) (zmq_st st) (zmq_st st')"
    using cmd_exec_sent [OF assms(1-3) _ assms(6-8), of is_set x v] assms(4,5,11) by (metis length_map)
  have r: "for_target r" "target r = id_of n" using assms(11) by auto
  have t: "id_of n \<in> set ids" using assms(4,6) by simp
  note t = t index_of_present [OF t, THEN conjunct1] index_of_present [OF t, THEN conjunct2]
  then have "1 < length ids" using assms(9) by (metis One_nat_def less_one linorder_neqE_nat not_less_zero)
  note answers = broadcast_answers [OF r(1) assms(5) this, unfolded r(2), OF assms(9)]
  obtain c y where cy: "behaviour r ids vars (index_of (id_of n) ids) = Answer c y" "c = CODE_OK \<or> c = CODE_ERROR_CUSTOM"
    using behaviour_target [OF r(1)] t(3) r(2) by metis
  have laws: "hashmap_laws (the_map E)" using assms(1) by (simp add: good_env_def)
  have "\<exists>st''. receive_all E (map (effect_msg u (id_of n)) es) st' = Some st'' \<and> answered E st'' u \<and>
      trace st'' = trace st @ [Made_uuid u, Printed (exec_line (id_of n) c y)]"
    if run: "(cast_step (length ids) (behaviour r ids vars))\<^sup>*\<^sup>* (cast_start (length ids)) s" "quiescent s"
      and es: "mset es = came_up s" for s es
  proof -
    obtain k where "mset es = replicate_mset k not_found + {#Answer c y#}" "k < (length ids + 1) div 2"
      using answers [OF run] es t(1) cy(1) by auto
    from answers_in_any_order [OF laws st'(2) assms(10) this(2) cy(2) this(1)] st'(3) show ?thesis by auto
  qed
  with st' cy(1) show ?thesis by auto
qed

text \<open>
  In the concrete table two commands for node 3 are run: the set is reported, and every run of its
  broadcast can be completed.
\<close>

lemma demo_ids: "map id_of (nodes (TREE (demo_control vs))) = [-1, 1, 2, 3]"
  by (simp add: demo_control_def demo_nodes demo_self_def demo_entry_def)

theorem broadcast_correct_witness:
  "\<exists>s'. (cast_step 4 (behaviour (Ping 3) [-1, 1, 2, 3] (\<lambda>_. Map.empty)))\<^sup>*\<^sup>* (cast_start 4) s' \<and> quiescent s'"
proof -
  have "length [-1, 1, 2, 3 :: int] = 4" by simp
  from broadcast_correct [of "Ping 3" "[-1, 1, 2, 3]" 0 "\<lambda>_. Map.empty" "cast_start 4", unfolded this]
  show ?thesis by simp
qed

theorem exec_command_correct_witness:
  "\<exists>st' u. cmd_exec_c demo_env True 3 (Some ''x'') 7 (demo_control []) = Some st' \<and>
     inbox (zmq_st st') 7 = flagged (parts u (Exec_set 3 ''x'' 7)) \<and>
     (\<forall>s es. (cast_step 4 (behaviour (Exec_set 3 ''x'' 7) [-1, 1, 2, 3] (\<lambda>_. Map.empty)))\<^sup>*\<^sup>* (cast_start 4) s \<and>
        quiescent s \<and> mset es = came_up s \<longrightarrow>
        (\<exists>st''. receive_all demo_env (map (effect_msg u 3) es) st' = Some st'' \<and> answered demo_env st'' u \<and>
          trace st'' = [Made_uuid u, Printed (''Ok:'' @ int_to_str 3 @ '': '')]))"
proof -
  let ?r = "Exec_set 3 ''x'' 7" and ?ids = "[-1, 1, 2, 3 :: int]"
  have len: "length ?ids = 4" by simp
  have ids: "?ids = map id_of (nodes (TREE (demo_control [])))" by (simp add: demo_ids)
  have inv: "btree_inv (TREE (demo_control []))" by (simp add: demo_control_def demo_table_inv)
  have node: "demo_entry 3 \<in> set (nodes (TREE (demo_control [])))" "pid (demo_entry 3) \<noteq> -1"
      "pid (demo_entry 3) \<noteq> pid (C_NODE (demo_control []))" "?ids ! 0 \<noteq> id_of (demo_entry 3)"
      "is_int (id_of (demo_entry 3))"
    by (simp_all add: demo_control_def demo_nodes demo_self_def demo_entry_def is_int_def)
  have i: "id_of (demo_entry 3) = 3" by (simp add: demo_entry_def)
  have beh: "behaviour ?r ?ids (\<lambda>_. Map.empty) (index_of 3 ?ids) = Answer CODE_OK ''''"
    by (simp add: behaviour_def)
  have "distinct ?ids" "trace (demo_control []) = []" by (simp_all add: demo_control_def)
  with exec_command_correct [OF demo_env_good demo_fresh inv ids _ node refl, of True "''x''" 7 "\<lambda>_. Map.empty",
      unfolded i if_True beh len effect_line.simps]
  obtain st' u where st': "cmd_exec_c demo_env True 3 (Some ''x'') 7 (demo_control []) = Some st'"
     "sent_down demo_sent (CONTROL_NODE (demo_control [])) (parts u ?r) (zmq_st (demo_control [])) (zmq_st st')"
     "\<forall>s es. (cast_step 4 (behaviour ?r ?ids (\<lambda>_. Map.empty)))\<^sup>*\<^sup>* (cast_start 4) s \<and>
        quiescent s \<and> mset es = came_up s \<longrightarrow>
        (\<exists>st''. receive_all demo_env (map (effect_msg u 3) es) st' = Some st'' \<and> answered demo_env st'' u \<and>
          trace st'' = [Made_uuid u, Printed (exec_line 3 CODE_OK '''')])"
    by (metis append_Nil)
  have "demo_sent (zmq_st st') 6 = flagged (parts u ?r)"
    using st'(2) by (simp add: sent_down_def to_children_def demo_control_def demo_socks_def)
      (simp add: demo_sent_def idle_def)
  then have "inbox (zmq_st st') 7 = flagged (parts u ?r)" by (simp add: demo_sent_def)
  with st'(1,3) show ?thesis by (auto simp: exec_line_def)
qed

end
