(* ===== verification/Overlay.thy ===== *)
theory Overlay
  imports Broadcast Removal
begin

text \<open>
  The overlay of processes of lab 6: which node has which children. The control node's table says
  what it should be, the heap order of the table. A removal sends a sequence of requests to the
  nodes; \<open>net_run\<close> executes them one after the other, each at the node that has to act on it, which
  must be reachable from the control node at that moment. The theorem shows that a removal turns
  the overlay of the old table into the overlay of the table that \<open>btree_remove\<close> leaves.
\<close>

section \<open>Overlays\<close>

type_synonym net = "int \<rightharpoonup> int set"

definition kids :: "int list \<Rightarrow> nat \<Rightarrow> int set" where
  "kids ids j = (\<lambda>k. ids ! k) ` set (filter (\<lambda>k. 0 < k \<and> (k - 1) div 2 = j) [0..<length ids])"

definition heap_net :: "int list \<Rightarrow> net" where
  "heap_net ids = (\<lambda>x. if x \<in> set ids then Some (kids ids (index_of x ids)) else None)"

definition edge :: "net \<Rightarrow> int \<Rightarrow> int \<Rightarrow> bool" where
  "edge N a b \<longleftrightarrow> (\<exists>cs. N a = Some cs \<and> b \<in> cs)"

text \<open>Every node treats the request as \<open>abs_step\<close> says.\<close>

definition net_step :: "request \<Rightarrow> net \<Rightarrow> net" where
  "net_step r N = (\<lambda>x. case N x of
     None \<Rightarrow> None
   | Some cs \<Rightarrow> let nd = fst (abs_step r \<lparr>an_id = x, an_children = cs, an_vars = Map.empty, an_alive = True\<rparr>)
               in if an_alive nd then Some (an_children nd) else None)"

text \<open>The node that has to act.\<close>

fun acts :: "request \<Rightarrow> net \<Rightarrow> int \<Rightarrow> bool" where
  "acts (Connect c n p a b) N x = (x = p)"
| "acts (Disconnect n) N x = edge N x n"
| "acts r N x = (x = target r)"

definition served :: "request \<Rightarrow> net \<Rightarrow> bool" where
  "served r N \<longleftrightarrow> (\<exists>x. N x \<noteq> None \<and> acts r N x \<and> (edge N)\<^sup>*\<^sup>* (-1) x)"

fun net_run :: "request list \<Rightarrow> net \<Rightarrow> net option" where
  "net_run [] N = Some N"
| "net_run (r # rs) N = (if served r N then net_run rs (net_step r N) else None)"

section \<open>Lemmas\<close>

lemma kids_eq: "kids ids j = {ids ! k |k. 0 < k \<and> k < length ids \<and> (k - 1) div 2 = j}"
  by (auto simp: kids_def)

lemma net_run_append: "net_run (rs @ rs') N = do { N1 \<leftarrow> net_run rs N; net_run rs' N1 }"
  by (induction rs arbitrary: N) auto

lemma index_of_nth: "distinct ids \<Longrightarrow> j < length ids \<Longrightarrow> index_of (ids ! j) ids = j"
  using index_of_present [of "ids ! j" ids] by (metis nth_eq_iff_index_eq nth_mem)

lemma net_step_ping [simp]: "net_step (Ping n) N = N"
  by (rule ext) (auto simp: net_step_def pass_def Let_def split: option.splits)

lemma net_step_remove [simp]: "net_step (Remove n) N = N(n := None)"
  by (rule ext) (auto simp: net_step_def pass_def Let_def split: option.splits)

lemma net_step_disconnect [simp]: "net_step (Disconnect n) N = (\<lambda>x. map_option (\<lambda>cs. cs - {n}) (N x))"
  by (rule ext) (auto simp: net_step_def pass_def Let_def split: option.splits)

lemma net_step_connect:
  "N p = Some cs \<Longrightarrow> card cs < 2 \<Longrightarrow> net_step (Connect c n p a b) N = N(p \<mapsto> insert n cs)"
  by (rule ext) (auto simp: net_step_def pass_def Let_def split: option.splits)

lemma heap_net_nth:
  "distinct ids \<Longrightarrow> j < length ids \<Longrightarrow> heap_net ids (ids ! j) = Some (kids ids j)"
  by (simp add: heap_net_def index_of_nth)

text \<open>The nodes before index \<open>i\<close> are reachable if the links between them are there.\<close>

lemma reachable_before:
  assumes "ids ! 0 = -1"
    and "\<And>k. 0 < k \<Longrightarrow> k < i \<Longrightarrow> edge N (ids ! ((k - 1) div 2)) (ids ! k)"
  shows "j < i \<Longrightarrow> (edge N)\<^sup>*\<^sup>* (-1) (ids ! j)"
proof (induction j rule: less_induct)
  case (less j)
  show ?case
  proof (cases "j = 0")
    case False
    then have "(j - 1) div 2 < j" by auto
    with less False assms(2) [of j] show ?thesis
      by (meson less_trans not_gr0 rtranclp.rtrancl_into_rtrancl)
  qed (use assms(1) in simp)
qed

lemma edge_heap: "distinct ids \<Longrightarrow> 0 < k \<Longrightarrow> k < length ids \<Longrightarrow> edge (heap_net ids) (ids ! ((k - 1) div 2)) (ids ! k)"
  by (auto simp: edge_def heap_net_nth kids_eq)

lemma heap_reachable:
  "distinct ids \<Longrightarrow> ids ! 0 = -1 \<Longrightarrow> j < length ids \<Longrightarrow> (edge (heap_net ids))\<^sup>*\<^sup>* (-1) (ids ! j)"
  by (rule reachable_before [of ids "length ids"]) (simp_all only: edge_heap)

lemma kids_last: "m = length ids - 1 \<Longrightarrow> 0 < m \<Longrightarrow> kids ids m = {}"
  by (auto simp: kids_eq)

lemma kids_nth: "distinct ids \<Longrightarrow> k < length ids \<Longrightarrow> ids ! k \<in> kids ids j \<longleftrightarrow> 0 < k \<and> (k - 1) div 2 = j"
  by (auto simp: kids_eq nth_eq_iff_index_eq)

lemma kids_two: "kids ids j \<subseteq> {ids ! (2 * j + 1), ids ! (2 * j + 2)}"
proof
  fix x assume "x \<in> kids ids j"
  then obtain k where k: "x = ids ! k" "0 < k" "(k - 1) div 2 = j" by (auto simp: kids_eq)
  then have "k = 2 * j + 1 \<or> k = 2 * j + 2" by auto
  with k show "x \<in> {ids ! (2 * j + 1), ids ! (2 * j + 2)}" by auto
qed

lemma one_other_kid:
  assumes "0 < k"
  shows "card (kids ids ((k - 1) div 2) - {ids ! k}) < 2"
proof -
  define q where "q = (k - 1) div 2"
  have "k = 2 * q + 1 \<or> k = 2 * q + 2" unfolding q_def using assms by presburger
  then have "kids ids q - {ids ! k} \<subseteq> {ids ! (if k = 2 * q + 1 then 2 * q + 2 else 2 * q + 1)}"
    using kids_two [of ids q] by auto
  from card_mono [OF _ this] show ?thesis unfolding q_def by simp
qed

text \<open>
  The overlay after the first five requests for the node at index \<open>i\<close>, and after the last node has
  got the children \<open>S\<close>.
\<close>

definition repaired :: "int list \<Rightarrow> nat \<Rightarrow> int set \<Rightarrow> net" where
  "repaired ids i S = (\<lambda>x. if x \<in> set ids \<and> x \<noteq> ids ! i
     then Some (kids ids (index_of x ids) - {last ids, ids ! i} \<union>
        (if x = ids ! ((i - 1) div 2) then {last ids} else {}) \<union> (if x = last ids then S else {}))
     else None)"

definition inner :: "int list \<Rightarrow> nat \<Rightarrow> bool" where
  "inner ids i \<longleftrightarrow> distinct ids \<and> ids ! 0 = -1 \<and> 0 < i \<and> i < length ids - 1"

lemma innerD:
  assumes "inner ids i"
  shows "distinct ids" "ids ! 0 = -1" "i < length ids" "length ids - 1 < length ids" "(i - 1) div 2 < length ids"
    "ids ! i \<noteq> last ids" "ids ! ((i - 1) div 2) \<noteq> ids ! i" "ids ! ((i - 1) div 2) \<noteq> last ids"
    "last ids = ids ! (length ids - 1)" "0 < i" "0 < length ids - 1" "(length ids - 2) div 2 < length ids - 1"
proof -
  have *: "distinct ids" "0 < i" "i < length ids - 1" using assms by (auto simp: inner_def)
  show l: "last ids = ids ! (length ids - 1)" using * by (subst last_conv_nth) auto
  have "(i - 1) div 2 < i" using * by auto
  with * l show "ids ! i \<noteq> last ids" "ids ! ((i - 1) div 2) \<noteq> ids ! i" "ids ! ((i - 1) div 2) \<noteq> last ids"
    "(i - 1) div 2 < length ids"
    by (auto simp: nth_eq_iff_index_eq)
qed (use assms in \<open>auto simp: inner_def\<close>)

lemma run_five:
  assumes "inner ids i"
  defines "p \<equiv> ids ! ((i - 1) div 2)"
  shows "net_run [Ping (ids ! i), Disconnect (last ids), Remove (ids ! i), Disconnect (ids ! i), Connect c (last ids) p a b]
    (heap_net ids) = Some (repaired ids i {})"
proof -
  note i = innerD [OF assms(1)]
  define N1 where "N1 = (\<lambda>x. map_option (\<lambda>cs. cs - {last ids}) (heap_net ids x))"
  define N2 where "N2 = N1(ids ! i := None)"
  define N3 where "N3 = (\<lambda>x. map_option (\<lambda>cs. cs - {ids ! i}) (N2 x))"
  have node: "heap_net ids (ids ! j) = Some (kids ids j)" if "j < length ids" for j
    by (rule heap_net_nth [OF i(1) that])
  have edges: "edge N1 x y \<longleftrightarrow> edge (heap_net ids) x y \<and> y \<noteq> last ids" "edge N2 x y \<longleftrightarrow> edge N1 x y \<and> x \<noteq> ids ! i"
      "edge N3 x y \<longleftrightarrow> edge N2 x y \<and> y \<noteq> ids ! i" for x y
    by (auto simp: edge_def N1_def N2_def N3_def)
  have ne: "ids ! j \<noteq> ids ! k" if "j < k" "k < length ids" for j k
    using that i(1) by (simp add: nth_eq_iff_index_eq)
  have e1: "edge N1 (ids ! ((k - 1) div 2)) (ids ! k)" if "0 < k" "k < length ids - 1" for k
    using edge_heap [OF i(1), of k] that ne [OF that(2)] i(9) unfolding edges by simp
  have e2: "edge N2 (ids ! ((k - 1) div 2)) (ids ! k)" "edge N3 (ids ! ((k - 1) div 2)) (ids ! k)"
    if "0 < k" "k < i" for k
  proof -
    have "(k - 1) div 2 < i" using that by auto
    then have "edge N1 (ids ! ((k - 1) div 2)) (ids ! k)" "ids ! ((k - 1) div 2) \<noteq> ids ! i" "ids ! k \<noteq> ids ! i"
      using e1 [of k] ne [of _ i] that assms(1) by (auto simp: inner_def)
    then show "edge N2 (ids ! ((k - 1) div 2)) (ids ! k)" "edge N3 (ids ! ((k - 1) div 2)) (ids ! k)"
      unfolding edges by blast+
  qed
  have "served (Ping (ids ! i)) (heap_net ids)"
    using heap_reachable [OF i(1,2,3)] node [OF i(3)] by (simp add: served_def)
  moreover have "served (Disconnect (last ids)) (heap_net ids)"
  proof -
    have l: "(length ids - 1 - 1) div 2 < length ids" using i(11) by auto
    have "edge (heap_net ids) (ids ! ((length ids - 1 - 1) div 2)) (last ids)"
      unfolding i(9) using i(4,11) by (intro edge_heap [OF i(1)])
    with heap_reachable [OF i(1,2) l] node [OF l] show ?thesis unfolding served_def acts.simps by blast
  qed
  moreover have "served (Remove (ids ! i)) N1"
    using reachable_before [OF i(2) e1, of "length ids - 1" i] node [OF i(3)] assms(1)
    by (auto simp: served_def N1_def inner_def)
  moreover have p: "(i - 1) div 2 < i" using i(10) by auto
  have "served (Disconnect (ids ! i)) N2"
  proof -
    have "edge N2 (ids ! ((i - 1) div 2)) (ids ! i)"
      using e1 [of i] assms(1) i(7,10) unfolding edges(2) inner_def by blast
    moreover have "N2 (ids ! ((i - 1) div 2)) \<noteq> None" using node [OF i(5)] i(7) by (simp add: N2_def N1_def)
    ultimately show ?thesis
      using reachable_before [OF i(2) e2(1) p] unfolding served_def acts.simps by blast
  qed
  moreover have "served (Connect c (last ids) p a b) N3"
    using reachable_before [OF i(2) e2(2) p] node [OF i(5)] i(7) by (auto simp: served_def N3_def N2_def N1_def p_def)
  moreover have "net_step (Connect c (last ids) p a b) N3 = repaired ids i {}"
  proof -
    let ?cs = "kids ids ((i - 1) div 2) - {last ids} - {ids ! i}"
    have "finite (kids ids ((i - 1) div 2) - {ids ! i})" using finite_subset [OF kids_two] by blast
    then have "card ?cs < 2" using one_other_kid [OF i(10), of ids] card_mono [of _ ?cs]
      by (metis Diff_insert Diff_insert2 Diff_subset le_less_trans)
    moreover have "N3 p = Some ?cs" using node [OF i(5)] i by (simp add: N3_def N2_def N1_def p_def)
    ultimately have "net_step (Connect c (last ids) p a b) N3 = N3(p \<mapsto> insert (last ids) ?cs)"
      by (rule net_step_connect [rotated])
    also have "\<dots> = repaired ids i {}"
      using i by (auto simp: repaired_def N3_def N2_def N1_def heap_net_def p_def index_of_nth intro!: ext)
    finally show ?thesis .
  qed
  ultimately show ?thesis by (simp add: N1_def N2_def N3_def)
qed

lemma repaired_last: "inner ids i \<Longrightarrow> repaired ids i S (last ids) = Some S"
proof -
  assume inner: "inner ids i"
  note i = innerD [OF inner]
  have "kids ids (index_of (last ids) ids) = {}"
    unfolding i(9) index_of_nth [OF i(1,4)] using i(11) by (auto simp: kids_eq)
  moreover have "last ids \<in> set ids" unfolding i(9) using i(4) by (rule nth_mem)
  ultimately show ?thesis using i(6,8) by (simp add: repaired_def)
qed

lemma repaired_connect:
  assumes "inner ids i" "card S < 2"
  shows "net_run [Connect c x (last ids) a b] (repaired ids i S) = Some (repaired ids i (insert x S))"
proof -
  note i = innerD [OF assms(1)]
  have p: "(i - 1) div 2 < i" using i(10) by auto
  have "edge (repaired ids i S) (ids ! ((k - 1) div 2)) (ids ! k)" if "0 < k" "k < i" for k
  proof -
    have "(k - 1) div 2 < i" "(k - 1) div 2 < length ids" "k < length ids" using that i(3) by auto
    moreover have "k \<noteq> length ids - 1" using that assms(1) by (simp add: inner_def)
    ultimately show ?thesis
      using that i(3,4) kids_nth [OF i(1), of k] by (auto simp: repaired_def edge_def i(9) nth_eq_iff_index_eq [OF i(1)] index_of_nth [OF i(1)])
  qed
  from reachable_before [OF i(2) this p]
  have "(edge (repaired ids i S))\<^sup>*\<^sup>* (-1) (ids ! ((i - 1) div 2))" .
  moreover have "edge (repaired ids i S) (ids ! ((i - 1) div 2)) (last ids)"
    using i(5,7) by (auto simp: edge_def repaired_def)
  ultimately have "served (Connect c x (last ids) a b) (repaired ids i S)"
    using repaired_last [OF assms(1), of S] rtranclp.rtrancl_into_rtrancl [of "edge (repaired ids i S)"]
    unfolding served_def acts.simps by blast
  moreover have "net_step (Connect c x (last ids) a b) (repaired ids i S) = (repaired ids i S)(last ids \<mapsto> insert x S)"
    by (rule net_step_connect) (use repaired_last [OF assms(1)] assms(2) in auto)
  moreover have "\<dots> = repaired ids i (insert x S)"
  proof
    fix y
    show "((repaired ids i S)(last ids \<mapsto> insert x S)) y = repaired ids i (insert x S) y"
      using repaired_last [OF assms(1), of "insert x S"] by (cases "y = last ids") (simp_all add: repaired_def)
  qed
  ultimately show ?thesis by simp
qed

definition moved_kids :: "int list \<Rightarrow> nat \<Rightarrow> int set" where
  "moved_kids ids i = {ids ! k |k. (k = 2 * i + 1 \<or> k = 2 * i + 2) \<and> k < length ids - 1}"

text \<open>The ids after the last one has moved to index \<open>i\<close>.\<close>

abbreviation moved :: "'a list \<Rightarrow> nat \<Rightarrow> 'a list" where
  "moved xs i \<equiv> butlast (xs[i := last xs])"

lemma length_moved: "length (moved xs i) = length xs - 1"
  by simp

lemma moved_nth: "j < length xs - 1 \<Longrightarrow> moved xs i ! j = (if j = i then last xs else xs ! j)"
  by (simp add: nth_butlast)

lemma kids_moved_self:
  assumes "i < length ids - 1"
  shows "kids (moved ids i) i = moved_kids ids i"
proof -
  have idx: "0 < k \<and> (k - 1) div 2 = i \<longleftrightarrow> k = 2 * i + 1 \<or> k = 2 * i + 2" for k :: nat by auto
  have "y = moved ids i ! k \<and> 0 < k \<and> k < length ids - 1 \<and> (k - 1) div 2 = i \<longleftrightarrow>
      y = ids ! k \<and> (k = 2 * i + 1 \<or> k = 2 * i + 2) \<and> k < length ids - 1" for y k
  proof (cases "k < length ids - 1 \<and> (k = 2 * i + 1 \<or> k = 2 * i + 2)")
    case True
    then have "moved ids i ! k = ids ! k" using moved_nth [of k ids i] by auto
    with True idx [of k] show ?thesis by metis
  next
    case False
    with idx [of k] show ?thesis by blast
  qed
  then show ?thesis unfolding kids_eq moved_kids_def length_moved by presburger
qed

lemma kids_moved_other:
  assumes "inner ids i"
  shows "kids (moved ids i) j = kids ids j - {last ids, ids ! i} \<union> (if (i - 1) div 2 = j then {last ids} else {})"
proof (intro set_eqI iffI)
  note i = innerD [OF assms]
  have lt: "i < length ids - 1" using assms by (simp add: inner_def)
  fix y
  {
    assume "y \<in> kids (moved ids i) j"
    then obtain k where k: "y = moved ids i ! k" "0 < k" "k < length ids - 1" "(k - 1) div 2 = j"
      unfolding kids_eq length_moved by blast
    have "ids ! k \<noteq> last ids" "k \<noteq> i \<Longrightarrow> ids ! k \<noteq> ids ! i"
      unfolding i(9) using k(3) i(3,4) nth_eq_iff_index_eq [OF i(1)] by auto
    then show "y \<in> kids ids j - {last ids, ids ! i} \<union> (if (i - 1) div 2 = j then {last ids} else {})"
      using k moved_nth [OF k(3), of i] kids_nth [OF i(1), of k j] by (cases "k = i") auto
  next
    assume y: "y \<in> kids ids j - {last ids, ids ! i} \<union> (if (i - 1) div 2 = j then {last ids} else {})"
    show "y \<in> kids (moved ids i) j"
    proof (cases "y = last ids")
      case True
      then have "(i - 1) div 2 = j" using y by (auto split: if_splits)
      with True lt i(10) moved_nth [OF lt, of i] show ?thesis
        unfolding kids_eq length_moved by (metis (mono_tags, lifting) mem_Collect_eq)
    next
      case False
      then obtain k where k: "y = ids ! k" "0 < k" "k < length ids" "(k - 1) div 2 = j" "k \<noteq> i" "k \<noteq> length ids - 1"
        using y i(9) by (auto simp: kids_eq split: if_splits)
      then have "k < length ids - 1" by simp
      with k moved_nth [OF this, of i] show ?thesis
        unfolding kids_eq length_moved by (metis (mono_tags, lifting) mem_Collect_eq)
    qed
  }
qed

lemma repaired_final:
  assumes "inner ids i"
  shows "repaired ids i (moved_kids ids i) = heap_net (moved ids i)"
proof
  note i = innerD [OF assms]
  have lt: "i < length ids - 1" using assms by (simp add: inner_def)
  note moved = butlast_move_last [of id ids i, simplified, OF i(1,3)]
  fix x
  show "repaired ids i (moved_kids ids i) x = heap_net (moved ids i) x"
  proof (cases "x \<in> set (moved ids i)")
    case False
    then show ?thesis using moved(2) by (auto simp: repaired_def heap_net_def)
  next
    case True
    then obtain j where j: "j < length ids - 1" "x = moved ids i ! j"
      unfolding in_set_conv_nth length_moved by blast
    have net: "heap_net (moved ids i) x = Some (kids (moved ids i) j)"
      using heap_net_nth [OF moved(1), of j] j by simp
    show ?thesis
    proof (cases "j = i")
      case True
      then show ?thesis
        using net j moved_nth [OF lt, of i] kids_moved_self [OF lt] repaired_last [OF assms] by simp
    next
      case False
      then have x: "x = ids ! j" "j < length ids" using j moved_nth [OF j(1), of i] by auto
      have "x \<noteq> last ids" "x \<noteq> ids ! i" "x = ids ! ((i - 1) div 2) \<longleftrightarrow> (i - 1) div 2 = j"
        unfolding x(1) i(9) using False j(1) x(2) i(3,4,5) by (auto simp: nth_eq_iff_index_eq [OF i(1)])
      with net x kids_moved_other [OF assms, of j] index_of_nth [OF i(1) x(2)] show ?thesis
        by (simp add: repaired_def)
    qed
  qed
qed


lemma remove_last:
  assumes "distinct ids" "ids ! 0 = -1" "1 < length ids"
  shows "net_run [Remove (last ids), Disconnect (last ids)] (heap_net ids) = Some (heap_net (butlast ids))"
proof -
  define m where "m = length ids - 1"
  have m: "m < length ids" "0 < m" "(m - 1) div 2 < m" using assms(3) unfolding m_def by auto
  have last: "last ids = ids ! m" using assms(3) unfolding m_def by (subst last_conv_nth) auto
  have ne: "ids ! j \<noteq> ids ! m" if "j < m" for j using that m(1) assms(1) by (simp add: nth_eq_iff_index_eq)
  define N where "N = (heap_net ids)(last ids := None)"
  have edge_N: "edge N x y \<longleftrightarrow> edge (heap_net ids) x y \<and> x \<noteq> last ids" for x y by (auto simp: N_def edge_def)
  have edges: "edge N (ids ! ((k - 1) div 2)) (ids ! k)" if "0 < k" "k < length ids" for k
  proof -
    have "(k - 1) div 2 < m" using that unfolding m_def by auto
    then show ?thesis using edge_heap [OF assms(1) that] ne unfolding edge_N last by blast
  qed
  have "N (ids ! ((m - 1) div 2)) \<noteq> None"
    using heap_net_nth [OF assms(1), of "(m - 1) div 2"] ne [OF m(3)] m unfolding N_def last by simp
  moreover have "(edge N)\<^sup>*\<^sup>* (-1) (ids ! ((m - 1) div 2))"
    using reachable_before [OF assms(2) edges, of "length ids" "(m - 1) div 2"] m by simp
  ultimately have "served (Disconnect (last ids)) N"
    using edges [OF m(2,1)] unfolding served_def acts.simps last by blast
  moreover have "served (Remove (last ids)) (heap_net ids)"
    using heap_reachable [OF assms(1,2) m(1)] heap_net_nth [OF assms(1) m(1)] by (simp add: served_def last)
  moreover have "map_option (\<lambda>cs. cs - {last ids}) (N x) = heap_net (butlast ids) x" for x
  proof (cases "x \<in> set (butlast ids)")
    case True
    then obtain j where j: "j < m" "x = ids ! j" by (auto simp: in_set_conv_nth nth_butlast m_def)
    have "distinct (butlast ids)" using assms(1) by (rule distinct_butlast)
    then have "heap_net (butlast ids) x = Some (kids (butlast ids) j)"
      using heap_net_nth [of "butlast ids" j] j by (simp add: nth_butlast m_def)
    moreover have "kids (butlast ids) j = kids ids j - {last ids}"
    proof (intro set_eqI)
      fix y
      have "y = butlast ids ! k \<and> 0 < k \<and> k < m \<and> (k - 1) div 2 = j \<longleftrightarrow>
          (y = ids ! k \<and> 0 < k \<and> k < length ids \<and> (k - 1) div 2 = j) \<and> y \<noteq> last ids" for k
      proof (cases "k < m")
        case True
        then show ?thesis using ne [OF True] m(1) by (auto simp: nth_butlast m_def last)
      qed (auto simp: last m_def less_antisym intro!: arg_cong [of _ _ "(!) ids"])
      then show "y \<in> kids (butlast ids) j \<longleftrightarrow> y \<in> kids ids j - {last ids}"
        unfolding kids_eq by (simp only: length_butlast m_def [symmetric]) blast
    qed
    moreover have "N x = Some (kids ids j)"
      using j ne [OF j(1)] heap_net_nth [OF assms(1), of j] m(1) by (simp add: N_def last)
    ultimately show ?thesis by simp
  next
    case False
    have "ids = butlast ids @ [last ids]" using assms(3) by (intro append_butlast_last_id [symmetric]) auto
    then have "x \<in> set ids \<longleftrightarrow> x = last ids" using False by (metis Un_iff empty_iff insert_iff set_append set_simps)
    with False show ?thesis by (auto simp: heap_net_def N_def)
  qed
  ultimately show ?thesis by (simp add: N_def)
qed

section \<open>Properties\<close>

lemma two_connects:
  assumes "inner ids i"
  shows "net_run ((if 2 * i + 1 < length ids - 1 then [Connect c (ids ! (2 * i + 1)) (last ids) a b] else []) @
      (if 2 * i + 2 < length ids - 1 then [Connect c (ids ! (2 * i + 2)) (last ids) a' b'] else [])) (repaired ids i {}) =
    Some (repaired ids i (moved_kids ids i))"
proof -
  note one = repaired_connect [OF assms, of "{}"] and two = repaired_connect [OF assms, of "{x}" for x]
  have "moved_kids ids i = (if 2 * i + 1 < length ids - 1 then {ids ! (2 * i + 1)} else {}) \<union>
      (if 2 * i + 2 < length ids - 1 then {ids ! (2 * i + 2)} else {})"
    unfolding moved_kids_def by auto
  with one two show ?thesis by (auto simp: net_run_append insert_commute simp del: net_run.simps(2))
qed

text \<open>
  C3: removals repair the overlay. Let the processes form the overlay of a table, the heap order of
  its entries. The requests that the control node sends to remove an entry, executed one after the
  other, each find the node that has to act on them connected to the control node, and they turn the
  overlay into the one of the table that \<open>btree_remove\<close> leaves.
\<close>

theorem removal_repairs_overlay:
  assumes "btree_inv t" "table_ok (nodes t) p" "0 < i" "i < length (nodes t)"
  shows "\<exists>t'. btree_remove t (id_of (nodes t ! i)) = Some (t', last (nodes t)) \<and>
    net_run (removal_requests (nodes t) i) (heap_net (map id_of (nodes t))) = Some (heap_net (map id_of (nodes t')))"
proof -
  let ?ns = "nodes t"
  define ids where "ids = map id_of ?ns"
  have ids: "distinct ids" "ids ! 0 = -1" "1 < length ids" "i < length ids"
    using assms by (auto simp: ids_def table_ok_def)
  have id_last: "id_of (last ?ns) = last ids" using assms(2) by (auto simp: ids_def table_ok_def last_map)
  have id_nth: "id_of (?ns ! k) = ids ! k" if "k < length ids" for k using that by (simp add: ids_def)
  have "0 < bt_size t" using assms(4) length_nodes [OF assms(1)] by simp
  then obtain t' where t': "btree_remove t (id_of (?ns ! i)) = Some (t', last ?ns)"
      "nodes t' = remove_node ?ns (id_of (?ns ! i))"
    using btree_remove_spec [OF assms(1)] by blast
  have "distinct (map id_of ?ns)" using ids(1) by (simp add: ids_def)
  then have "nodes t' = moved ?ns i"
    by (simp add: t'(2) remove_node_def node_index_distinct assms(4))
  then have table: "map id_of (nodes t') = moved ids i"
    by (simp add: ids_def map_butlast map_update id_last)
  have "net_run (removal_requests ?ns i) (heap_net ids) = Some (heap_net (moved ids i))"
  proof (cases "i = length ids - 1")
    case True
    then have "?ns ! i = last ?ns" using assms(4) by (subst last_conv_nth) (auto simp: ids_def)
    with True id_last have "removal_requests ?ns i = [Remove (last ids), Disconnect (last ids)]"
      using assms(4) by (simp add: removal_requests_def ids_def Let_def)
    moreover have "moved ids i = butlast ids" using True ids(3) by (metis butlast_list_update)
    ultimately show ?thesis using remove_last [OF ids(1-3)] by simp
  next
    case False
    then have inner: "inner ids i" using ids assms(3) by (simp add: inner_def)
    let ?tail = "(if 2 * i + 1 < length ids - 1 then [connect_request (?ns ! (2 * i + 1)) (last ids)] else []) @
        (if 2 * i + 2 < length ids - 1 then [connect_request (?ns ! (2 * i + 2)) (last ids)] else [])"
    have len: "length ?ns = length ids" by (simp add: ids_def)
    have "removal_requests ?ns i = [Ping (ids ! i), Disconnect (last ids), Remove (ids ! i), Disconnect (ids ! i),
        Connect False (last ids) (ids ! ((i - 1) div 2)) (the (main_address (last ?ns))) (the (ping_address (last ?ns)))] @
        ?tail"
      using False id_nth [OF ids(4)] id_nth [OF innerD(5) [OF inner]]
      by (simp add: removal_requests_def id_last connect_request_def len Let_def)
    then have "net_run (removal_requests ?ns i) (heap_net ids) = net_run ?tail (repaired ids i {})"
      by (simp only: net_run_append run_five [OF inner] Option.bind.bind_lunit)
    also have "?tail = (if 2 * i + 1 < length ids - 1 then [Connect False (ids ! (2 * i + 1)) (last ids)
           (the (main_address (?ns ! (2 * i + 1)))) (the (ping_address (?ns ! (2 * i + 1))))] else []) @
        (if 2 * i + 2 < length ids - 1 then [Connect False (ids ! (2 * i + 2)) (last ids)
           (the (main_address (?ns ! (2 * i + 2)))) (the (ping_address (?ns ! (2 * i + 2))))] else [])"
      using id_nth [of "2 * i + 1"] id_nth [of "2 * i + 2"] by (simp add: connect_request_def)
    also have "net_run \<dots> (repaired ids i {}) = Some (repaired ids i (moved_kids ids i))"
      by (rule two_connects [OF inner])
    finally show ?thesis using repaired_final [OF inner] by simp
  qed
  with t'(1) table show ?thesis unfolding ids_def by auto
qed

theorem removal_repairs_overlay_witness:
  "\<exists>N. net_run [Ping 1, Disconnect 3, Remove 1, Disconnect 1, Connect False 3 (-1) ''a'' ''b'']
      (heap_net [-1, 1, 2, 3]) = Some N \<and> N (-1) = Some {3, 2} \<and> N 3 = Some {} \<and> N 1 = None"
proof -
  have ids: "map id_of (nodes demo_table) = [-1, 1, 2, 3]"
    by (simp add: demo_nodes demo_self_def demo_entry_def)
  have len: "length (nodes demo_table) = 4" by (simp add: demo_nodes)
  have rq: "removal_requests (nodes demo_table) 1 =
      [Ping 1, Disconnect 3, Remove 1, Disconnect 1, Connect False 3 (-1) ''a'' ''b'']"
    by (simp add: demo_nodes removal_requests_def Let_def connect_request_def demo_entry_def demo_self_def)
  have find: "id_of (nodes demo_table ! 1) = 1" by (simp add: demo_nodes demo_entry_def)
  have ok: "table_ok (nodes demo_table) 50"
    using demo_table_ok [of "[]"] by (simp add: demo_control_def demo_self_def)
  obtain t' where t': "btree_remove demo_table 1 = Some (t', last (nodes demo_table))"
      "net_run (removal_requests (nodes demo_table) 1) (heap_net [-1, 1, 2, 3]) = Some (heap_net (map id_of (nodes t')))"
    using removal_repairs_overlay [OF demo_table_inv ok, of 1] len unfolding ids find by auto
  have "0 < bt_size demo_table" by (simp add: demo_table_def)
  from btree_remove_spec [OF demo_table_inv this, of 1] t'(1)
  have "nodes t' = remove_node (nodes demo_table) 1" by auto
  also have "\<dots> = [demo_self, demo_entry 3, demo_entry 2]"
    by (simp add: demo_nodes remove_node_def demo_entry_def demo_self_def)
  finally have "map id_of (nodes t') = [-1, 3, 2]" by (simp add: demo_self_def demo_entry_def)
  moreover have "kids [-1, 3, 2] 0 = {3, 2}" "kids [-1, 3, 2] 1 = {}"
    by (simp_all add: kids_def upt_rec insert_commute)
  ultimately show ?thesis using t'(2) unfolding rq by (simp add: heap_net_def)
qed

end
