(* ===== verification/StringParser.thy ===== *)
theory StringParser
  imports CString
begin

text \<open>
  The argument parser of the messenger, \<^verbatim>\<open>KP/funcs/string_parser.cpp\<close>: it cuts a string at the
  first separators, into at most a given number of fields; the last field is the rest. All requests
  and answers of the messenger, and the input line of its terminal, are read with it.
\<close>

section \<open>The parser\<close>

text \<open>
  \<open>substr(i, n)\<close>. The index \<open>i\<close> of the loop and \<open>prev_space_ind\<close> are \<open>int\<close>; the first is never
  negative and is a natural number here, for strings shorter than \<open>2 ^ 31\<close> bytes.
\<close>

definition substr :: "string \<Rightarrow> int \<Rightarrow> int \<Rightarrow> string" where
  "substr st i n = take (nat n) (drop (nat i) st)"

function parser_loop ::
    "string \<Rightarrow> char \<Rightarrow> int \<Rightarrow> int \<Rightarrow> nat \<Rightarrow> string list \<Rightarrow> int \<times> string list" where
  "parser_loop st separator args_count prev_space_ind i to_parse_vec =
    (if args_count > 0 \<and> i < length st then
       if st ! i = separator
       then parser_loop st separator (args_count - 1) (int i) (i + 1)
              (to_parse_vec @ [substr st (prev_space_ind + 1) (int i - prev_space_ind - 1)])
       else parser_loop st separator args_count prev_space_ind (i + 1) to_parse_vec
     else (prev_space_ind, to_parse_vec))"
  by pat_completeness auto
termination by (relation "measure (\<lambda>(st, _, _, _, i, _). length st - i)") auto

declare parser_loop.simps [simp del]

definition string_parser :: "string \<Rightarrow> int \<Rightarrow> string list \<Rightarrow> char \<Rightarrow> string list" where
  "string_parser st args_count to_parse_vec separator =
    (let (prev_space_ind, vec) = parser_loop st separator (args_count - 1) (-1) 0 to_parse_vec in
     if prev_space_ind < long_to_int (int (length st) - 1)
     then vec @ [substr st (prev_space_ind + 1) (int (length st) - prev_space_ind - 1)]
     else vec @ [''''])"

section \<open>Specification\<close>

text \<open>Cut \<open>k\<close> times.\<close>

fun cut_at :: "nat \<Rightarrow> char \<Rightarrow> string \<Rightarrow> string list" where
  "cut_at 0 sep st = [st]"
| "cut_at (Suc k) sep st =
     (if sep \<in> set st
      then takeWhile (\<lambda>c. c \<noteq> sep) st # cut_at k sep (tl (dropWhile (\<lambda>c. c \<noteq> sep) st))
      else [st])"

fun join :: "char \<Rightarrow> string list \<Rightarrow> string" where
  "join sep [] = ''''"
| "join sep [f] = f"
| "join sep (f # fs) = f @ sep # join sep fs"

section \<open>Lemmas\<close>

lemma join_Cons: "fs \<noteq> [] \<Longrightarrow> join sep (f # fs) = f @ sep # join sep fs"
  by (cases fs) auto

lemma cut_at_not_Nil [simp]: "cut_at k sep st \<noteq> []"
  by (cases k) auto

lemma length_cut_at: "length (cut_at k sep st) \<le> Suc k"
  by (induction k sep st rule: cut_at.induct) auto

lemma cut_at_append: "sep \<notin> set a \<Longrightarrow> cut_at (Suc k) sep (a @ sep # b) = a # cut_at k sep b"
  by (induction a) auto

text \<open>What the loop has read: \<open>p\<close> is the position behind the last separator.\<close>

lemma parser_loop_cut:
  assumes "p \<le> i" "i \<le> length st" "sep \<notin> set (take (i - p) (drop p st))" "length st < 2 ^ 31"
  shows "(let (prev, vec) = parser_loop st sep (int k) (int p - 1) i vec0 in
      vec @ [if prev < long_to_int (int (length st) - 1) then substr st (prev + 1) (int (length st) - prev - 1) else '''']) =
    vec0 @ cut_at k sep (drop p st)"
  using assms
proof (induction "length st - i" arbitrary: k p i vec0 rule: less_induct)
  case less
  have conv: "long_to_int (int (length st) - 1) = int (length st) - 1"
    using less.prems(4) by (intro long_to_int_id) (simp add: is_int_def)
  have last: "(if int p - 1 < int (length st) - 1 then substr st (int p - 1 + 1) (int (length st) - (int p - 1) - 1)
      else '''') = drop p st"
    using less.prems(1,2) by (simp add: substr_def nat_diff_distrib)
  show ?case
  proof (cases "0 < k \<and> i < length st")
    case False
    have "cut_at k sep (drop p st) = [drop p st]"
    proof (cases k)
      case (Suc k')
      with False less.prems(2) have "take (i - p) (drop p st) = drop p st" by simp
      with Suc less.prems(3) show ?thesis by simp
    qed simp
    with False last conv show ?thesis by (subst parser_loop.simps) auto
  next
    case True
    then have i: "i < length st" "length st - (i + 1) < length st - i" by auto
    have split: "drop p st = take (i - p) (drop p st) @ st ! i # drop (i + 1) st"
      using i(1) less.prems(1) by (metis Cons_nth_drop_Suc Suc_eq_plus1 append_take_drop_id drop_drop le_add_diff_inverse2)
    show ?thesis
    proof (cases "st ! i = sep")
      case sep: True
      obtain k' where k': "k = Suc k'" using True by (cases k) auto
      have "substr st (int p - 1 + 1) (int i - (int p - 1) - 1) = take (i - p) (drop p st)"
        using less.prems(1) by (simp add: substr_def nat_diff_distrib)
      moreover have "cut_at k sep (drop p st) = take (i - p) (drop p st) # cut_at k' sep (drop (i + 1) st)"
        using cut_at_append [OF less.prems(3)] split sep k' by metis
      ultimately show ?thesis
        using less.hyps [OF i(2), of "i + 1" k' "vec0 @ [take (i - p) (drop p st)]"] True sep less.prems(2,4) k'
        by (subst parser_loop.simps) (simp add: algebra_simps)
    next
      case False
      have "take (i + 1 - p) (drop p st) = take (i - p) (drop p st) @ [st ! i]"
        using i(1) less.prems(1) by (simp add: Suc_diff_le take_Suc_conv_app_nth)
      then have "sep \<notin> set (take (i + 1 - p) (drop p st))" using False less.prems(3) by auto
      with less.hyps [OF i(2), of p k vec0] True False less.prems i show ?thesis
        by (subst parser_loop.simps) simp
    qed
  qed
qed


lemma string_parser_spec:
  assumes "length st < 2 ^ 31"
  shows "string_parser st (int k + 1) vec sep = vec @ cut_at k sep st"
  using parser_loop_cut [of 0 0 st sep k vec] assms
  by (cases "parser_loop st sep (int k) (-1) 0 vec") (auto simp: string_parser_def Let_def split: if_splits)

lemma string_parser_numeral:
  assumes "length st < 2 ^ 31"
  shows "string_parser st 2 vec sep = vec @ cut_at 1 sep st" "string_parser st 3 vec sep = vec @ cut_at 2 sep st"
    "string_parser st 4 vec sep = vec @ cut_at 3 sep st"
  using string_parser_spec [OF assms, of 1] string_parser_spec [OF assms, of 2] string_parser_spec [OF assms, of 3]
  by simp_all

lemma join_cut_at: "join sep (cut_at k sep st) = st"
proof (induction k sep st rule: cut_at.induct)
  case (2 k sep st)
  show ?case
  proof (cases "sep \<in> set st")
    case True
    then have "dropWhile (\<lambda>c. c \<noteq> sep) st = sep # tl (dropWhile (\<lambda>c. c \<noteq> sep) st)"
      by (metis (mono_tags, lifting) dropWhile_eq_Nil_conv hd_dropWhile list.collapse)
    with 2 True show ?thesis by (simp add: join_Cons)
  qed simp
qed simp

lemma cut_at_join:
  "fs \<noteq> [] \<Longrightarrow> \<forall>f \<in> set (butlast fs). sep \<notin> set f \<Longrightarrow> cut_at (length fs - 1) sep (join sep fs) = fs"
proof (induction fs rule: induct_list012)
  case (3 f g fs)
  then show ?case using cut_at_append [of sep f "length fs" "join sep (g # fs)"] by simp
qed auto

section \<open>Properties\<close>

text \<open>
  C15: parsing fields. Asked for \<open>k + 1\<close> fields, the parser appends the parts between the first \<open>k\<close>
  separators of the string and the rest; nothing is lost, joining them gives the string back. A
  message joined from \<open>n\<close> fields of which only the last may contain separators is parsed into
  these fields.
\<close>

theorem string_parser_fields:
  assumes "length st < 2 ^ 31" "fs \<noteq> []" "\<forall>f \<in> set (butlast fs). sep \<notin> set f" "length (join sep fs) < 2 ^ 31"
  shows "(\<exists>parts. string_parser st (int k + 1) vec sep = vec @ parts \<and> join sep parts = st \<and>
      length parts \<le> k + 1 \<and> (\<forall>f \<in> set (butlast parts). sep \<notin> set f)) \<and>
    string_parser (join sep fs) (int (length fs)) vec sep = vec @ fs"
proof -
  have "\<forall>f \<in> set (butlast (cut_at k sep st)). sep \<notin> set f" for k st
    by (induction k sep st rule: cut_at.induct) (auto dest: set_takeWhileD)
  moreover have "string_parser (join sep fs) (int (length fs)) vec sep = vec @ fs"
    using string_parser_spec [OF assms(4), of "length fs - 1"] cut_at_join [OF assms(2,3)] assms(2)
    by (cases fs) (auto simp: add.commute)
  ultimately show ?thesis
    using string_parser_spec [OF assms(1)] join_cut_at length_cut_at by auto
qed

theorem string_parser_fields_witness:
  "string_parser ''login|/tmp/p|__NONE|a|b'' 4 [] (CHR ''|'') = [''login'', ''/tmp/p'', ''__NONE'', ''a|b'']"
  using string_parser_fields [of "''x''" "[''login'', ''/tmp/p'', ''__NONE'', ''a|b'']" "CHR ''|''" 0 "[]"] by simp

end
