(* ===== verification/MessengerServer.thy ===== *)
theory MessengerServer
  imports StringParser "HOL-Library.Multiset" "HOL-Library.Sublist" "HOL-Library.Char_ord" "HOL-Library.List_Lexorder" "HOL-Library.Product_Lexorder"
begin

text \<open>
  The server of the messenger: \<^verbatim>\<open>KP/server/server.cpp\<close> with the classes of \<^verbatim>\<open>KP/structs\<close>. It reads
  requests, lines of fields, changes its users and chats, and writes an answer to the pipe of the
  client. Users and chats are objects that are shared by pointer and never deleted: a \<open>User*\<close> is an
  index into the list of users, messages never change and are values. A handler's result is \<open>None\<close>
  if the server faults: a null pointer is used or a vector is read behind its end.
\<close>

section \<open>State\<close>

record user =
  login :: string
  authorized :: bool

record message =
  from_login :: string
  msg_text :: string
  timestamp :: int
  msg_id :: "64 word"

record chat =
  messages :: "message list"

record group_chat = chat +
  chat_name :: string
  owner_name :: string
  chat_users :: "nat list"

record private_chat = chat +
  user1 :: nat
  user2 :: nat

record server =
  users :: "user list"
  group_chats :: "group_chat list"
  private_chats :: "private_chat list"
  all_messages :: "message list"
  message_counter_id :: "64 word"
  console :: "string list"                 \<comment> \<open>lines printed\<close>
  pipes :: "(string \<times> string) list"        \<comment> \<open>pipe names and what was written to them, in order\<close>

abbreviation COMMAND_ARGS_SEPARATOR :: char where "COMMAND_ARGS_SEPARATOR \<equiv> CHR ''|''"
abbreviation COMMAND_SEPARATOR :: char where "COMMAND_SEPARATOR \<equiv> CHR 0x0A"
abbreviation STATUS_OK :: string where "STATUS_OK \<equiv> ''OK''"
abbreviation STATUS_ERROR :: string where "STATUS_ERROR \<equiv> ''ERROR''"
abbreviation NONE_USER_NAME :: string where "NONE_USER_NAME \<equiv> ''__NONE''"
abbreviation SYSTEM_NAME :: string where "SYSTEM_NAME \<equiv> ''SYSTEM''"
abbreviation CMD_ARG_GROUP :: string where "CMD_ARG_GROUP \<equiv> ''GROUP''"
abbreviation CMD_ARG_PRIVATE :: string where "CMD_ARG_PRIVATE \<equiv> ''PRIVATE''"

text \<open>The answer to a user who wants to talk to himself, a Russian sentence in UTF-8.\<close>

definition SELF_TALK :: string where
  "SELF_TALK = map char_of ([208, 189, 208, 181, 208, 187, 209, 140, 208, 183, 209, 143, 32,
     208, 179, 208, 190, 208, 178, 208, 190, 209, 128, 208, 184, 209, 130, 209, 140, 32, 209, 129, 32,
     209, 129, 208, 176, 208, 188, 208, 184, 208, 188, 32, 209, 129, 208, 190, 208, 177, 208, 190, 208, 185] :: nat list)"

text \<open>A search with a loop and \<open>break\<close>; \<open>None\<close> is the null pointer.\<close>

fun first_index :: "('a \<Rightarrow> bool) \<Rightarrow> 'a list \<Rightarrow> nat option" where
  "first_index P [] = None"
| "first_index P (x # xs) = (if P x then Some 0 else map_option Suc (first_index P xs))"

text \<open>\<open>v[i]\<close> of a vector, undefined behind its end.\<close>

definition vec_at :: "'a list \<Rightarrow> nat \<Rightarrow> 'a option" where
  "vec_at v i = (if i < length v then Some (v ! i) else None)"

section \<open>Helpers\<close>

definition server_init :: server where
  "server_init = \<lparr>users = [], group_chats = [], private_chats = [], all_messages = [],
     message_counter_id = 0, console = [], pipes = []\<rparr>"

definition say :: "string \<Rightarrow> server \<Rightarrow> server" where
  "say line s = s\<lparr>console := console s @ [line]\<rparr>"

definition put_message :: "string \<Rightarrow> string \<Rightarrow> char \<Rightarrow> server \<Rightarrow> server" where
  "put_message pipe_name m separator s = s\<lparr>pipes := pipes s @ [(c_str pipe_name, m @ [separator])]\<rparr>"

definition response :: "string \<Rightarrow> string \<Rightarrow> string \<Rightarrow> string \<Rightarrow> server \<Rightarrow> server" where
  "response answer_pipe cmd status answer s =
    (let ans = (if answer \<noteq> '''' then [COMMAND_ARGS_SEPARATOR] else '''') @ answer;
         m = cmd @ [COMMAND_ARGS_SEPARATOR] @ status @ ans
     in put_message answer_pipe m COMMAND_SEPARATOR (say (''push '' @ m) s))"

definition find_user :: "string \<Rightarrow> server \<Rightarrow> nat option" where
  "find_user user_login s = first_index (\<lambda>u. login u = user_login) (users s)"

definition login_of :: "server \<Rightarrow> nat \<Rightarrow> string" where
  "login_of s u = login (users s ! u)"

definition find_group :: "string \<Rightarrow> server \<Rightarrow> nat option" where
  "find_group name s = first_index (\<lambda>c. chat_name c = name) (group_chats s)"

text \<open>\<open>new Message(.., ++message_counter_id)\<close>.\<close>

definition new_message :: "string \<Rightarrow> string \<Rightarrow> int \<Rightarrow> server \<Rightarrow> message \<times> server" where
  "new_message from txt' now s =
    (let i = message_counter_id s + 1 in
     (\<lparr>from_login = from, msg_text = txt', timestamp = now, msg_id = i\<rparr>, s\<lparr>message_counter_id := i\<rparr>))"

section \<open>Handlers\<close>

definition srv_login :: "string \<Rightarrow> string \<Rightarrow> server \<Rightarrow> server" where
  "srv_login answer_pipe name s =
    (let user = find_user name s in
     if user \<noteq> None \<and> authorized (users s ! the user)
     then response answer_pipe ''login'' STATUS_ERROR (''user '' @ name @ '' already logged in'') s
     else if name = NONE_USER_NAME \<or> name = SYSTEM_NAME
     then response answer_pipe ''login'' STATUS_ERROR ''forbidden name'' s
     else response answer_pipe ''login'' STATUS_OK ''''
       (case user of
          None \<Rightarrow> s\<lparr>users := users s @ [\<lparr>login = name, authorized = True\<rparr>]\<rparr>
        | Some u \<Rightarrow> s\<lparr>users := (users s)[u := (users s ! u)\<lparr>authorized := True\<rparr>]\<rparr>))"

definition srv_logout :: "nat \<Rightarrow> server \<Rightarrow> server" where
  "srv_logout user s = s\<lparr>users := (users s)[user := (users s ! user)\<lparr>authorized := False\<rparr>]\<rparr>"

definition srv_private :: "string \<Rightarrow> nat \<Rightarrow> string \<Rightarrow> server \<Rightarrow> server" where
  "srv_private answer_pipe user name s =
    (if login_of s user = name then response answer_pipe ''private'' STATUS_ERROR SELF_TALK s
     else case find_user name s of
       None \<Rightarrow> response answer_pipe ''private'' STATUS_ERROR (''user '' @ name @ '' not found'') s
     | Some to_user \<Rightarrow>
         let s1 = (case first_index (\<lambda>c. user1 c = user \<and> user2 c = to_user \<or> user2 c = user \<and> user1 c = to_user)
                          (private_chats s) of
                     None \<Rightarrow> s\<lparr>private_chats := private_chats s @ [\<lparr>messages = [], user1 = user, user2 = to_user\<rparr>]\<rparr>
                   | Some c \<Rightarrow> s)
         in response answer_pipe ''private'' STATUS_OK name s1)"

definition join_message :: "nat \<Rightarrow> int \<Rightarrow> server \<Rightarrow> message \<times> server" where
  "join_message user now s = new_message SYSTEM_NAME (''User '' @ login_of s user @ '' joined the chat'') now s"

definition srv_create :: "string \<Rightarrow> nat \<Rightarrow> string \<Rightarrow> int \<Rightarrow> server \<Rightarrow> server" where
  "srv_create answer_pipe user name now s =
    (if find_group name s \<noteq> None
     then response answer_pipe ''create'' STATUS_ERROR (''chat '' @ name @ '' already exists'') s
     else
       let (ms, s1) = join_message user now s;
           gc = \<lparr>messages = [ms], chat_name = name, owner_name = login_of s user, chat_users = [user]\<rparr>
       in response answer_pipe ''create'' STATUS_OK name (s1\<lparr>group_chats := group_chats s1 @ [gc]\<rparr>))"

definition srv_join :: "string \<Rightarrow> nat \<Rightarrow> string \<Rightarrow> int \<Rightarrow> server \<Rightarrow> server" where
  "srv_join answer_pipe user name now s =
    (case find_group name s of
       None \<Rightarrow> response answer_pipe ''join'' STATUS_ERROR (''chat '' @ name @ '' not found'') s
     | Some c \<Rightarrow>
         let gc = group_chats s ! c in
         response answer_pipe ''join'' STATUS_OK name
           (if user \<notin> set (chat_users gc)
            then let (ms, s1) = join_message user now s in
              s1\<lparr>group_chats := (group_chats s1)[c := gc\<lparr>chat_users := chat_users gc @ [user], messages := messages gc @ [ms]\<rparr>]\<rparr>
            else s))"

text \<open>A loop of \<open>cmd_get_msg\<close> over the messages: what is sent of those behind \<open>lid\<close>, and the last id.\<close>

definition fields_of :: "message \<Rightarrow> string" where
  "fields_of m = from_login m @ [COMMAND_ARGS_SEPARATOR] @ msg_text m @ [COMMAND_ARGS_SEPARATOR]"

fun collect :: "64 word \<Rightarrow> message list \<Rightarrow> string \<times> 64 word \<Rightarrow> string \<times> 64 word" where
  "collect i [] (answer, lid) = (answer, lid)"
| "collect i (m # ms) (answer, lid) =
     collect i ms (if msg_id m > i then (answer @ fields_of m, max lid (msg_id m)) else (answer, lid))"

definition send_messages :: "string \<Rightarrow> message list \<Rightarrow> string \<Rightarrow> server \<Rightarrow> server" where
  "send_messages answer_pipe msgs last_id s =
    (let i = word_of_int (strtol last_id); (answer, lid) = collect i msgs ('''', i) in
     response answer_pipe ''get_msg'' STATUS_OK
       (nat_to_dec (unat lid) @ [COMMAND_ARGS_SEPARATOR] @ butlast answer) s)"

definition srv_get_msg :: "string \<Rightarrow> nat \<Rightarrow> string \<Rightarrow> string \<Rightarrow> string \<Rightarrow> server \<Rightarrow> server option" where
  "srv_get_msg answer_pipe user mode name last_id s =
    (if mode = CMD_ARG_GROUP then
       (case find_group name s of
          None \<Rightarrow> Some (response answer_pipe ''get_msg'' STATUS_ERROR (''chat '' @ name @ '' not found'') s)
        | Some c \<Rightarrow> Some (send_messages answer_pipe (messages (group_chats s ! c)) last_id s))
     else if mode = CMD_ARG_PRIVATE then
       (case first_index (\<lambda>c. user1 c = user \<and> login_of s (user2 c) = name \<or>
                            user2 c = user \<and> login_of s (user1 c) = name) (private_chats s) of
          None \<Rightarrow> Some (response answer_pipe ''get_msg'' STATUS_ERROR (''user '' @ name @ '' not found'') s)
        | Some c \<Rightarrow> Some (send_messages answer_pipe (messages (private_chats s ! c)) last_id s))
     else None)"

definition srv_put_msg :: "string \<Rightarrow> nat \<Rightarrow> string \<Rightarrow> string \<Rightarrow> string \<Rightarrow> int \<Rightarrow> server \<Rightarrow> server option" where
  "srv_put_msg answer_pipe user mode name txt' now s =
    (let (um, s1) = new_message (login_of s user) txt' now s;
         s2 = s1\<lparr>all_messages := all_messages s1 @ [um]\<rparr> in
     if mode = CMD_ARG_GROUP then
       (case find_group name s of
          None \<Rightarrow> Some (response answer_pipe ''get_msg'' STATUS_ERROR (''chat '' @ name @ '' not found'') s)
        | Some c \<Rightarrow> Some (response answer_pipe ''push_msg'' STATUS_OK ''''
            (s2\<lparr>group_chats := (group_chats s)[c := (group_chats s ! c)\<lparr>messages := messages (group_chats s ! c) @ [um]\<rparr>]\<rparr>)))
     else if mode = CMD_ARG_PRIVATE then
       (case first_index (\<lambda>c. user1 c = user \<or> user2 c = user) (private_chats s) of
          None \<Rightarrow> Some (response answer_pipe ''get_msg'' STATUS_ERROR (''user '' @ name @ '' not found'') s)
        | Some c \<Rightarrow> Some (response answer_pipe ''push_msg'' STATUS_OK ''''
            (s2\<lparr>private_chats := (private_chats s)[c := (private_chats s ! c)\<lparr>messages := messages (private_chats s ! c) @ [um]\<rparr>]\<rparr>)))
     else None)"

text \<open>An entry of the chat list: its key is the negated id of the last message, cut to an \<open>int\<close>.\<close>

definition chat_entry :: "string \<Rightarrow> string \<Rightarrow> message list \<Rightarrow> int \<times> string" where
  "chat_entry mode name ms = (long_to_int (uint (- msg_id (last ms))),
     mode @ [COMMAND_ARGS_SEPARATOR] @ name @ [COMMAND_ARGS_SEPARATOR] @ fields_of (last ms))"

definition other_name :: "server \<Rightarrow> nat \<Rightarrow> private_chat \<Rightarrow> string" where
  "other_name s user c = (if user2 c = user then login_of s (user1 c)
     else if user1 c = user then login_of s (user2 c) else '''')"

definition chat_entries :: "nat \<Rightarrow> server \<Rightarrow> (int \<times> string) list" where
  "chat_entries user s =
     map (\<lambda>c. chat_entry CMD_ARG_PRIVATE (other_name s user c) (messages c))
       (filter (\<lambda>c. other_name s user c \<noteq> '''' \<and> messages c \<noteq> []) (private_chats s)) @
     map (\<lambda>c. chat_entry CMD_ARG_GROUP (chat_name c) (messages c))
       (filter (\<lambda>c. user \<in> set (chat_users c) \<and> messages c \<noteq> []) (group_chats s))"

definition srv_chats :: "string \<Rightarrow> nat \<Rightarrow> server \<Rightarrow> server" where
  "srv_chats answer_pipe user s =
     response answer_pipe ''chats'' STATUS_OK (butlast (concat (map snd (sort (chat_entries user s))))) s"

definition user_command :: "string \<Rightarrow> string \<Rightarrow> nat \<Rightarrow> string \<Rightarrow> int \<Rightarrow> server \<Rightarrow> server option" where
  "user_command cmd answer_pipe user args now s =
    (if cmd = ''logout'' then Some (srv_logout user s)
     else if cmd = ''private'' then Some (srv_private answer_pipe user args s)
     else if cmd = ''create'' then Some (srv_create answer_pipe user args now s)
     else if cmd = ''join'' then Some (srv_join answer_pipe user args now s)
     else if cmd = ''push_msg'' then
       let args_p = string_parser args 3 [] COMMAND_ARGS_SEPARATOR in do {
         mode \<leftarrow> vec_at args_p 0;
         name \<leftarrow> vec_at args_p 1;
         x \<leftarrow> vec_at args_p 2;
         srv_put_msg answer_pipe user mode name x now s
       }
     else if cmd = ''get_msg'' then
       let args_p = string_parser args 3 [] COMMAND_ARGS_SEPARATOR in do {
         mode \<leftarrow> vec_at args_p 0;
         name \<leftarrow> vec_at args_p 1;
         last_id \<leftarrow> vec_at args_p 2;
         srv_get_msg answer_pipe user mode name last_id s
       }
     else if cmd = ''chats'' then Some (srv_chats answer_pipe user s)
     else Some s)"

definition request_handler :: "string \<Rightarrow> int \<Rightarrow> server \<Rightarrow> server option" where
  "request_handler request now s =
    (let string_p = string_parser request 4 [] COMMAND_ARGS_SEPARATOR in
     if length string_p = 1 then Some (say (''Error: Bad request: '' @ request) s)
     else do {
       cmd \<leftarrow> vec_at string_p 0;
       user_pipe_name \<leftarrow> vec_at string_p 1;
       user_login \<leftarrow> vec_at string_p 2;
       args \<leftarrow> (if length string_p = 3 then Some '''' else vec_at string_p 3);
       if cmd = ''login'' then Some (srv_login user_pipe_name args s)
       else case find_user user_login s of
         None \<Rightarrow> Some (say (''Error: User '' @ user_login @ '' not authorized'') s)
       | Some user \<Rightarrow> user_command cmd user_pipe_name user args now s
     })"

text \<open>The loop of the server, on the requests it reads and the times at which it serves them.\<close>

fun serve_requests :: "(string \<times> int) list \<Rightarrow> server \<Rightarrow> server option" where
  "serve_requests [] s = Some s"
| "serve_requests ((request, now) # rs) s = do {
     s1 \<leftarrow> request_handler request now (say (''get '' @ request) s);
     serve_requests rs s1
   }"


section \<open>Lemmas: searches and output\<close>

lemma first_index_Some:
  "first_index P xs = Some i \<longleftrightarrow> i < length xs \<and> P (xs ! i) \<and> (\<forall>j < i. \<not> P (xs ! j))"
proof (induction xs arbitrary: i)
  case (Cons x xs)
  then show ?case by (cases i) (auto simp: less_Suc_eq_0_disj)
qed simp

lemma first_index_None: "first_index P xs = None \<longleftrightarrow> (\<forall>x \<in> set xs. \<not> P x)"
  by (induction xs) auto

lemma first_index_unique: "i < length xs \<Longrightarrow> P (xs ! i) \<Longrightarrow> (\<And>j. j < length xs \<Longrightarrow> P (xs ! j) \<Longrightarrow> j = i) \<Longrightarrow>
  first_index P xs = Some i"
  unfolding first_index_Some by (metis less_trans nat_neq_iff)

lemma response_simps [simp]:
  "users (response p cmd status a s) = users s" "group_chats (response p cmd status a s) = group_chats s"
  "private_chats (response p cmd status a s) = private_chats s"
  "all_messages (response p cmd status a s) = all_messages s"
  "message_counter_id (response p cmd status a s) = message_counter_id s"
  by (simp_all add: response_def put_message_def say_def Let_def)

lemma say_simps [simp]:
  "users (say l s) = users s" "group_chats (say l s) = group_chats s" "private_chats (say l s) = private_chats s"
  "all_messages (say l s) = all_messages s" "message_counter_id (say l s) = message_counter_id s"
  "pipes (say l s) = pipes s"
  by (simp_all add: say_def)

lemma response_pipe:
  "pipes (response p cmd status a s) = pipes s @ [(c_str p,
     cmd @ [COMMAND_ARGS_SEPARATOR] @ status @ (if a \<noteq> '''' then COMMAND_ARGS_SEPARATOR # a else '''') @ [COMMAND_SEPARATOR])]"
  by (simp add: response_def put_message_def Let_def)

section \<open>The invariant\<close>

text \<open>
  Messages in a chat have ids that ascend, none behind the counter. Logins and names of groups
  are unique, no user has a reserved name; the members of a chat are users, and two users have at
  most one private chat.
\<close>

definition log_ok :: "nat \<Rightarrow> message list \<Rightarrow> bool" where
  "log_ok n ms \<longleftrightarrow> sorted_wrt (\<lambda>a b. unat (msg_id a) < unat (msg_id b)) ms \<and>
     (\<forall>m \<in> set ms. 0 < unat (msg_id m) \<and> unat (msg_id m) \<le> n)"

definition group_ok :: "nat \<Rightarrow> nat \<Rightarrow> group_chat \<Rightarrow> bool" where
  "group_ok k n c \<longleftrightarrow> messages c \<noteq> [] \<and> chat_users c \<noteq> [] \<and> distinct (chat_users c) \<and> (\<forall>u \<in> set (chat_users c). u < k) \<and>
     log_ok n (messages c)"

definition private_ok :: "nat \<Rightarrow> nat \<Rightarrow> private_chat \<Rightarrow> bool" where
  "private_ok k n c \<longleftrightarrow> user1 c \<noteq> user2 c \<and> user1 c < k \<and> user2 c < k \<and> log_ok n (messages c)"

definition server_inv :: "server \<Rightarrow> bool" where
  "server_inv s \<longleftrightarrow>
     distinct (map login (users s)) \<and> NONE_USER_NAME \<notin> set (map login (users s)) \<and>
     SYSTEM_NAME \<notin> set (map login (users s)) \<and>
     distinct (map chat_name (group_chats s)) \<and>
     (\<forall>c \<in> set (group_chats s). group_ok (length (users s)) (unat (message_counter_id s)) c) \<and>
     distinct (map (\<lambda>c. {user1 c, user2 c}) (private_chats s)) \<and>
     (\<forall>c \<in> set (private_chats s). private_ok (length (users s)) (unat (message_counter_id s)) c) \<and>
     log_ok (unat (message_counter_id s)) (all_messages s)"

lemma server_inv_response [simp]: "server_inv (response p cmd status a s) = server_inv s"
  by (simp add: server_inv_def)

lemma server_inv_say [simp]: "server_inv (say l s) = server_inv s"
  by (simp add: server_inv_def)

lemma log_ok_mono: "log_ok n ms \<Longrightarrow> n \<le> n' \<Longrightarrow> log_ok n' ms"
  by (auto simp: log_ok_def)

lemma log_ok_append: "log_ok n ms \<Longrightarrow> unat (msg_id m) = Suc n \<Longrightarrow> log_ok (Suc n) (ms @ [m])"
  by (auto simp: log_ok_def sorted_wrt_append)

lemma group_ok_mono: "group_ok k n c \<Longrightarrow> k \<le> k' \<Longrightarrow> n \<le> n' \<Longrightarrow> group_ok k' n' c"
  using log_ok_mono by (fastforce simp: group_ok_def)

lemma private_ok_mono: "private_ok k n c \<Longrightarrow> k \<le> k' \<Longrightarrow> n \<le> n' \<Longrightarrow> private_ok k' n' c"
  using log_ok_mono by (fastforce simp: private_ok_def)

lemma find_user_Some: "find_user l s = Some u \<Longrightarrow> u < length (users s) \<and> login (users s ! u) = l"
  by (simp add: find_user_def first_index_Some)

lemma find_user_None: "find_user l s = None \<longleftrightarrow> l \<notin> login ` set (users s)"
  by (auto simp: find_user_def first_index_None)

lemma find_group_Some: "find_group name s = Some c \<Longrightarrow> c < length (group_chats s) \<and> chat_name (group_chats s ! c) = name"
  by (simp add: find_group_def first_index_Some)

lemma find_group_None: "find_group name s = None \<longleftrightarrow> name \<notin> chat_name ` set (group_chats s)"
  by (auto simp: find_group_def first_index_None)

text \<open>An update that keeps the unique key of an entry.\<close>

lemma distinct_map_update: "distinct (map f xs) \<Longrightarrow> i < length xs \<Longrightarrow> f x = f (xs ! i) \<Longrightarrow> distinct (map f (xs[i := x]))"
  by (metis length_map list_update_id map_update nth_map)

lemma map_update_same: "i < length xs \<Longrightarrow> f x = f (xs ! i) \<Longrightarrow> map f (xs[i := x]) = map f xs"
  by (metis list_update_id map_update)

lemma Ball_update: "\<forall>y \<in> set xs. P y \<Longrightarrow> P x \<Longrightarrow> \<forall>y \<in> set (xs[i := x]). P y"
  using set_update_subset_insert by fastforce

lemma new_message_spec:
  assumes "new_message from t now s = (m, s')" "unat (message_counter_id s) < 2 ^ 64 - 1"
  shows "s' = s\<lparr>message_counter_id := message_counter_id s + 1\<rparr>"
    "unat (message_counter_id s + 1) = Suc (unat (message_counter_id s))"
    "unat (msg_id m) = Suc (unat (message_counter_id s))" "from_login m = from" "msg_text m = t"
proof -
  show "unat (message_counter_id s + 1) = Suc (unat (message_counter_id s))"
    using assms(2) by (simp add: unat_word_ariths)
  with assms(1) show "s' = s\<lparr>message_counter_id := message_counter_id s + 1\<rparr>"
    "unat (msg_id m) = Suc (unat (message_counter_id s))" "from_login m = from" "msg_text m = t"
    by (auto simp: new_message_def Let_def)
qed


lemma inv_parts:
  assumes "server_inv s"
  shows "distinct (map login (users s))" "distinct (map chat_name (group_chats s))"
    "c < length (group_chats s) \<Longrightarrow> group_ok (length (users s)) (unat (message_counter_id s)) (group_chats s ! c)"
    "p < length (private_chats s) \<Longrightarrow> private_ok (length (users s)) (unat (message_counter_id s)) (private_chats s ! p)"
    "log_ok (unat (message_counter_id s)) (all_messages s)"
  using assms by (auto simp: server_inv_def)

lemma inv_add_user:
  assumes "server_inv s" "name \<notin> login ` set (users s)" "name \<noteq> NONE_USER_NAME" "name \<noteq> SYSTEM_NAME"
  shows "server_inv (s\<lparr>users := users s @ [\<lparr>login = name, authorized = a\<rparr>]\<rparr>)"
  using assms by (auto simp: server_inv_def intro: group_ok_mono private_ok_mono)

lemma inv_authorize:
  assumes "server_inv s" "u < length (users s)"
  shows "server_inv (s\<lparr>users := (users s)[u := (users s ! u)\<lparr>authorized := a\<rparr>]\<rparr>)"
proof -
  have "map login ((users s)[u := (users s ! u)\<lparr>authorized := a\<rparr>]) = map login (users s)"
    using assms(2) by (intro map_update_same) auto
  then show ?thesis using assms(1) by (simp add: server_inv_def del: set_map)
qed

lemma inv_login: "server_inv s \<Longrightarrow> server_inv (srv_login p name s)"
  using find_user_Some [of name s] find_user_None [of name s]
  by (auto simp: srv_login_def Let_def inv_add_user inv_authorize split: option.splits)

lemma inv_logout: "server_inv s \<Longrightarrow> u < length (users s) \<Longrightarrow> server_inv (srv_logout u s)"
  by (simp add: srv_logout_def inv_authorize)

lemma inv_add_private:
  assumes "server_inv s" "u < length (users s)" "v < length (users s)" "u \<noteq> v"
    and "\<forall>c \<in> set (private_chats s). \<not> (user1 c = u \<and> user2 c = v \<or> user2 c = u \<and> user1 c = v)"
  shows "server_inv (s\<lparr>private_chats := private_chats s @ [\<lparr>messages = [], user1 = u, user2 = v\<rparr>]\<rparr>)"
proof -
  have "{u, v} \<notin> (\<lambda>c. {user1 c, user2 c}) ` set (private_chats s)"
    using assms(5) by (auto simp: doubleton_eq_iff)
  then have "distinct (map (\<lambda>c. {user1 c, user2 c}) (private_chats s @ [\<lparr>messages = [], user1 = u, user2 = v\<rparr>]))"
    using assms(1) by (simp add: server_inv_def)
  then show ?thesis using assms(1-4) by (auto simp: server_inv_def private_ok_def log_ok_def)
qed

lemma inv_private:
  assumes "server_inv s" "u < length (users s)"
  shows "server_inv (srv_private p u name s)"
proof (cases "login_of s u = name \<or> find_user name s = None")
  case False
  then obtain v where v: "find_user name s = Some v" "v < length (users s)" "login (users s ! v) = name"
    using find_user_Some by blast
  with False have "u \<noteq> v" by (auto simp: login_of_def)
  with inv_add_private [OF assms v(2)] assms(1) False v(1) show ?thesis
    by (simp add: srv_private_def Let_def first_index_None split: option.split)
qed (use assms in \<open>auto simp: srv_private_def\<close>)

lemma inv_create:
  assumes "server_inv s" "u < length (users s)" "unat (message_counter_id s) < 2 ^ 64 - 1"
  shows "server_inv (srv_create p u name now s)"
proof (cases "find_group name s")
  case None
  obtain ms s1 where m: "join_message u now s = (ms, s1)" by fastforce
  note new = new_message_spec [OF m [unfolded join_message_def] assms(3)]
  let ?n = "Suc (unat (message_counter_id s))"
  let ?c = "\<lparr>messages = [ms], chat_name = name, owner_name = login_of s u, chat_users = [u]\<rparr>"
  have "group_ok (length (users s)) ?n ?c" using new(3) assms(2) by (simp add: group_ok_def log_ok_def)
  moreover have "\<forall>g \<in> set (group_chats s). group_ok (length (users s)) ?n g"
      "\<forall>g \<in> set (private_chats s). private_ok (length (users s)) ?n g" "log_ok ?n (all_messages s)"
    using assms(1) group_ok_mono private_ok_mono log_ok_mono by (auto simp: server_inv_def)
  ultimately show ?thesis
    using assms(1) None [unfolded find_group_None] new(1,2) m None by (simp add: srv_create_def server_inv_def)
qed (use assms(1) in \<open>simp add: srv_create_def\<close>)

text \<open>A message appended to the log of a chat, as the handlers do it.\<close>

lemma inv_group_append:
  assumes "server_inv s" "c < length (group_chats s)" "log_ok (Suc (unat (message_counter_id s))) (messages (group_chats s ! c) @ [m])"
    and "unat (message_counter_id s + 1) = Suc (unat (message_counter_id s))"
    and "us = chat_users (group_chats s ! c) \<or> us = chat_users (group_chats s ! c) @ [u] \<and> u < length (users s) \<and> u \<notin> set (chat_users (group_chats s ! c))"
    and "log_ok (Suc (unat (message_counter_id s))) all"
  shows "server_inv (s\<lparr>message_counter_id := message_counter_id s + 1, all_messages := all,
      group_chats := (group_chats s)[c := (group_chats s ! c)\<lparr>chat_users := us, messages := messages (group_chats s ! c) @ [m]\<rparr>]\<rparr>)"
proof -
  let ?c = "(group_chats s ! c)\<lparr>chat_users := us, messages := messages (group_chats s ! c) @ [m]\<rparr>"
  let ?n = "Suc (unat (message_counter_id s))"
  have "group_ok (length (users s)) ?n ?c"
    using inv_parts(3) [OF assms(1,2)] assms(3,5) by (auto simp: group_ok_def)
  then have "\<forall>g \<in> set ((group_chats s)[c := ?c]). group_ok (length (users s)) ?n g"
    by (rule Ball_update [rotated]) (use assms(1) group_ok_mono in \<open>auto simp: server_inv_def\<close>)
  moreover have "distinct (map chat_name ((group_chats s)[c := ?c]))"
    by (rule distinct_map_update [OF inv_parts(2) [OF assms(1)] assms(2)]) simp
  moreover have "\<forall>g \<in> set (private_chats s). private_ok (length (users s)) ?n g"
    using assms(1) private_ok_mono by (auto simp: server_inv_def)
  ultimately show ?thesis using assms(1,4,6) by (simp add: server_inv_def)
qed

lemma inv_private_append:
  assumes "server_inv s" "c < length (private_chats s)" "log_ok (Suc (unat (message_counter_id s))) (messages (private_chats s ! c) @ [m])"
    and "unat (message_counter_id s + 1) = Suc (unat (message_counter_id s))"
    and "log_ok (Suc (unat (message_counter_id s))) all"
  shows "server_inv (s\<lparr>message_counter_id := message_counter_id s + 1, all_messages := all,
      private_chats := (private_chats s)[c := (private_chats s ! c)\<lparr>messages := messages (private_chats s ! c) @ [m]\<rparr>]\<rparr>)"
proof -
  let ?c = "(private_chats s ! c)\<lparr>messages := messages (private_chats s ! c) @ [m]\<rparr>"
  let ?n = "Suc (unat (message_counter_id s))"
  have "private_ok (length (users s)) ?n ?c"
    using inv_parts(4) [OF assms(1,2)] assms(3) by (auto simp: private_ok_def)
  then have "\<forall>g \<in> set ((private_chats s)[c := ?c]). private_ok (length (users s)) ?n g"
    by (rule Ball_update [rotated]) (use assms(1) private_ok_mono in \<open>auto simp: server_inv_def\<close>)
  moreover have "distinct (map (\<lambda>c. {user1 c, user2 c}) ((private_chats s)[c := ?c]))"
    by (rule distinct_map_update [OF _ assms(2)]) (use assms(1) in \<open>simp_all add: server_inv_def\<close>)
  moreover have "\<forall>g \<in> set (group_chats s). group_ok (length (users s)) ?n g"
    using assms(1) group_ok_mono by (auto simp: server_inv_def)
  ultimately show ?thesis using assms(1,4,5) by (simp add: server_inv_def)
qed


lemma inv_join:
  assumes "server_inv s" "u < length (users s)" "unat (message_counter_id s) < 2 ^ 64 - 1"
  shows "server_inv (srv_join p u name now s)"
proof (cases "find_group name s")
  case (Some c)
  note c = find_group_Some [OF Some]
  obtain ms s1 where m: "join_message u now s = (ms, s1)" by fastforce
  note new = new_message_spec [OF m [unfolded join_message_def] assms(3)]
  have "log_ok (Suc (unat (message_counter_id s))) (messages (group_chats s ! c) @ [ms])"
    using inv_parts(3) [OF assms(1)] c new(3) by (simp add: group_ok_def log_ok_append)
  moreover have "log_ok (Suc (unat (message_counter_id s))) (all_messages s)"
    using inv_parts(5) [OF assms(1)] log_ok_mono by fastforce
  ultimately have "server_inv (s\<lparr>message_counter_id := message_counter_id s + 1, all_messages := all_messages s,
      group_chats := (group_chats s)[c := (group_chats s ! c)\<lparr>chat_users := chat_users (group_chats s ! c) @ [u],
        messages := messages (group_chats s ! c) @ [ms]\<rparr>]\<rparr>)" if "u \<notin> set (chat_users (group_chats s ! c))"
    by (intro inv_group_append [where u = u]) (use that assms(1,2) c new(2) in auto)
  moreover have "s\<lparr>message_counter_id := i, all_messages := all_messages s, group_chats := g\<rparr> =
      s\<lparr>message_counter_id := i, group_chats := g\<rparr>" for i g by (cases s) simp
  ultimately show ?thesis using assms(1) Some m new(1) by (simp add: srv_join_def Let_def)
qed (use assms(1) in \<open>simp add: srv_join_def\<close>)

lemma inv_put_msg:
  assumes "server_inv s" "u < length (users s)" "unat (message_counter_id s) < 2 ^ 64 - 1"
    and "srv_put_msg p u mode name t now s = Some s'"
  shows "server_inv s'"
proof -
  obtain um s1 where m: "new_message (login_of s u) t now s = (um, s1)" by fastforce
  note new = new_message_spec [OF m assms(3)]
  have all: "log_ok (Suc (unat (message_counter_id s))) (all_messages s @ [um])"
    using inv_parts(5) [OF assms(1)] new(3) by (rule log_ok_append)
  have group: "server_inv (s\<lparr>message_counter_id := message_counter_id s + 1, all_messages := all_messages s @ [um],
      group_chats := (group_chats s)[c := (group_chats s ! c)\<lparr>messages := messages (group_chats s ! c) @ [um]\<rparr>]\<rparr>)"
    if "c < length (group_chats s)" for c
  proof -
    have "log_ok (Suc (unat (message_counter_id s))) (messages (group_chats s ! c) @ [um])"
      using inv_parts(3) [OF assms(1) that] new(3) by (simp add: group_ok_def log_ok_append)
    moreover have "(group_chats s ! c)\<lparr>chat_users := chat_users (group_chats s ! c), messages := x\<rparr> = (group_chats s ! c)\<lparr>messages := x\<rparr>"
      for x by (cases "group_chats s ! c") simp
    ultimately show ?thesis
      using inv_group_append [OF assms(1) that _ new(2), of um "chat_users (group_chats s ! c)" u] all by simp
  qed
  have priv: "server_inv (s\<lparr>message_counter_id := message_counter_id s + 1, all_messages := all_messages s @ [um],
      private_chats := (private_chats s)[c := (private_chats s ! c)\<lparr>messages := messages (private_chats s ! c) @ [um]\<rparr>]\<rparr>)"
    if "c < length (private_chats s)" for c
  proof -
    have "log_ok (Suc (unat (message_counter_id s))) (messages (private_chats s ! c) @ [um])"
      using inv_parts(4) [OF assms(1) that] new(3) by (simp add: private_ok_def log_ok_append)
    then show ?thesis using inv_private_append [OF assms(1) that _ new(2)] all by simp
  qed
  show ?thesis
    using assms(1,4) m new(1) group priv find_group_Some [of name s]
    by (auto simp: srv_put_msg_def Let_def first_index_Some split: option.splits if_splits)
qed

lemma inv_get_msg: "server_inv s \<Longrightarrow> srv_get_msg p u mode name i s = Some s' \<Longrightarrow> server_inv s'"
  by (auto simp: srv_get_msg_def send_messages_def Let_def split: option.splits if_splits prod.splits)

text \<open>What a request can do.\<close>

inductive handled :: "int \<Rightarrow> server \<Rightarrow> server \<Rightarrow> bool" for now s where
  "handled now s s"
| "handled now s (say l s)"
| "handled now s (srv_login p a s)"
| "u < length (users s) \<Longrightarrow> handled now s (srv_logout u s)"
| "u < length (users s) \<Longrightarrow> handled now s (srv_private p u a s)"
| "u < length (users s) \<Longrightarrow> handled now s (srv_create p u a now s)"
| "u < length (users s) \<Longrightarrow> handled now s (srv_join p u a now s)"
| "u < length (users s) \<Longrightarrow> srv_put_msg p u m a x now s = Some s' \<Longrightarrow> handled now s s'"
| "u < length (users s) \<Longrightarrow> srv_get_msg p u m a x s = Some s' \<Longrightarrow> handled now s s'"
| "u < length (users s) \<Longrightarrow> handled now s (srv_chats p u s)"

lemma if_Some_cases: "(if P then A else B) = Some y \<Longrightarrow> (A = Some y \<Longrightarrow> Q) \<Longrightarrow> (B = Some y \<Longrightarrow> Q) \<Longrightarrow> Q"
  by (simp split: if_split_asm)

lemma bindE: "x \<bind> f = Some y \<Longrightarrow> (\<And>a. f a = Some y \<Longrightarrow> Q) \<Longrightarrow> Q"
  by (cases x) auto

lemma user_command_handled:
  assumes "user_command cmd p u args now s = Some s'" "u < length (users s)"
  shows "handled now s s'"
  using assms(1) unfolding user_command_def Let_def
  by (elim if_Some_cases) (use assms(2) in \<open>auto intro: handled.intros\<close>)

lemma request_handled:
  assumes "request_handler request now s = Some s'"
  shows "handled now s s'"
proof -
  have "handled now s s'" if "(case find_user l s of None \<Rightarrow> Some (say x s)
      | Some user \<Rightarrow> user_command cmd p user args now s) = Some s'" for cmd p args l x
    using that by (auto intro: handled.intros user_command_handled dest: find_user_Some split: option.split_asm)
  moreover have "handled now s s'" if "Some (say x s) = Some s' \<or> Some (srv_login p args s) = Some s'" for x p args
    using that handled.intros(2,3) by auto
  ultimately show ?thesis using assms unfolding request_handler_def Let_def
    by (elim if_Some_cases bindE) blast+
qed

lemma inv_handler:
  assumes "server_inv s" "unat (message_counter_id s) < 2 ^ 64 - 1" "request_handler request now s = Some s'"
  shows "server_inv s'"
  using request_handled [OF assms(3)]
proof cases
  case (8 u p m a x)
  then show ?thesis using inv_put_msg assms(1,2) by blast
next
  case (9 u p m a x)
  then show ?thesis using inv_get_msg assms(1) by blast
qed (use assms(1,2) inv_login inv_logout inv_private inv_create inv_join in \<open>simp_all add: srv_chats_def\<close>)


section \<open>What only grows\<close>

text \<open>Users and chats stay where they are, and messages are only appended.\<close>

definition grows :: "server \<Rightarrow> server \<Rightarrow> bool" where
  "grows s s' \<longleftrightarrow>
     (length (users s) \<le> length (users s') \<and> (\<forall>u < length (users s). login (users s' ! u) = login (users s ! u))) \<and>
     (length (group_chats s) \<le> length (group_chats s') \<and> (\<forall>c < length (group_chats s).
        chat_name (group_chats s' ! c) = chat_name (group_chats s ! c) \<and>
        prefix (messages (group_chats s ! c)) (messages (group_chats s' ! c)))) \<and>
     (length (private_chats s) \<le> length (private_chats s') \<and> (\<forall>c < length (private_chats s).
        user1 (private_chats s' ! c) = user1 (private_chats s ! c) \<and> user2 (private_chats s' ! c) = user2 (private_chats s ! c) \<and>
        prefix (messages (private_chats s ! c)) (messages (private_chats s' ! c)))) \<and>
     prefix (pipes s) (pipes s')"

lemma nth_update: "xs[i := x] ! j = (if i = j \<and> i < length xs then x else xs ! j)"
  by (cases "i < length xs") (auto simp: nth_list_update list_update_beyond)

lemma grows_refl [simp]: "grows s s"
  by (simp add: grows_def)

lemma grows_trans [trans]: "grows s1 s2 \<Longrightarrow> grows s2 s3 \<Longrightarrow> grows s1 s3"
  unfolding grows_def by (auto intro: prefix_order.trans)

lemma grows_response [simp]: "grows s s' \<Longrightarrow> grows s (response p cmd status a s')"
  by (simp add: grows_def response_pipe)

lemma grows_say [simp]: "grows s s' \<Longrightarrow> grows s (say l s')"
  by (simp add: grows_def)

lemma new_message_state: "new_message f t now s = (m, s') \<Longrightarrow> s' = s\<lparr>message_counter_id := message_counter_id s + 1\<rparr>"
  by (auto simp: new_message_def Let_def)

lemma grows_handled: "handled now s s' \<Longrightarrow> grows s s'"
proof (induction rule: handled.induct)
  case (3 p a)
  then show ?case by (auto simp: srv_login_def Let_def grows_def response_pipe nth_append nth_update split: option.split dest: find_user_Some)
next
  case (4 u)
  then show ?case by (auto simp: srv_logout_def grows_def nth_update)
next
  case (5 u p a)
  then show ?case by (auto simp: srv_private_def Let_def grows_def response_pipe nth_append split: option.split)
next
  case (6 u p a)
  then show ?case
    by (auto simp: srv_create_def join_message_def grows_def response_pipe nth_append split: prod.split dest!: new_message_state)
next
  case (7 u p a)
  then show ?case
    by (auto simp: srv_join_def Let_def join_message_def grows_def response_pipe nth_update split: option.split prod.split
        dest!: new_message_state)
next
  case (8 u p m a x s')
  then show ?case
    by (auto simp: srv_put_msg_def Let_def grows_def response_pipe nth_update split: option.split_asm prod.split_asm if_split_asm
        dest!: new_message_state)
next
  case (9 u p m a x s')
  then show ?case by (auto simp: srv_get_msg_def send_messages_def Let_def split: option.split_asm prod.split_asm if_split_asm)
qed (simp_all add: srv_chats_def)

lemma counter_handled: "handled now s s' \<Longrightarrow> unat (message_counter_id s') \<le> Suc (unat (message_counter_id s))"
proof -
  have succ: "unat (i + 1) \<le> Suc (unat i)" for i :: "64 word"
    by (simp add: unat_word_ariths mod_less_eq_dividend [THEN order_trans])
  show "handled now s s' \<Longrightarrow> unat (message_counter_id s') \<le> Suc (unat (message_counter_id s))"
  proof (induction rule: handled.induct)
    case (8 u p m a x s')
    then show ?case using succ [of "message_counter_id s"]
      by (auto simp: srv_put_msg_def Let_def split: option.split_asm prod.split_asm if_split_asm dest!: new_message_state)
  next
    case (9 u p m a x s')
    then show ?case by (auto simp: srv_get_msg_def send_messages_def Let_def split: option.split_asm prod.split_asm if_split_asm)
  qed (use succ [of "message_counter_id s"] in \<open>auto simp: srv_login_def srv_logout_def srv_private_def srv_create_def
     srv_join_def srv_chats_def join_message_def Let_def split: option.split prod.split dest!: new_message_state\<close>)
qed

lemma serve_requests_spec:
  "serve_requests rs s = Some s' \<Longrightarrow> server_inv s \<Longrightarrow> unat (message_counter_id s) + length rs < 2 ^ 64 \<Longrightarrow>
   server_inv s' \<and> grows s s' \<and> unat (message_counter_id s') \<le> unat (message_counter_id s) + length rs"
proof (induction rs arbitrary: s)
  case (Cons r rs)
  obtain q now where r: "r = (q, now)" by (cases r)
  let ?s = "say (''get '' @ q) s"
  obtain s1 where s1: "request_handler q now ?s = Some s1" "serve_requests rs s1 = Some s'"
    using Cons.prems(1) by (auto simp: r)
  note h = request_handled [OF s1(1)]
  have "server_inv s1" using inv_handler [OF _ _ s1(1)] Cons.prems(2,3) by simp
  moreover have count: "unat (message_counter_id s1) \<le> Suc (unat (message_counter_id s))"
    using counter_handled [OF h] by simp
  moreover have "grows s s1" using grows_handled [OF h] grows_trans [of s ?s s1] by simp
  ultimately show ?case using Cons.IH [OF s1(2)] Cons.prems(3) grows_trans by fastforce
qed simp


section \<open>Lemmas: faults, order of chats\<close>

lemma vec_at_simps [simp]: "vec_at (x # xs) 0 = Some x" "vec_at (x # xs) (Suc i) = vec_at xs i" "vec_at [] i = None"
  by (simp_all add: vec_at_def)

lemma vec_at_eq: "i < length v \<Longrightarrow> vec_at v i = Some (v ! i)" "length v \<le> i \<Longrightarrow> vec_at v i = None"
  by (simp_all add: vec_at_def)

definition req_fields :: "nat \<Rightarrow> string \<Rightarrow> string list" where
  "req_fields k = cut_at (k - 1) COMMAND_ARGS_SEPARATOR"

lemma fields_length: "1 \<le> length (req_fields k x)" "0 < k \<Longrightarrow> length (req_fields k x) \<le> k"
  using length_cut_at [of "k - 1" COMMAND_ARGS_SEPARATOR x] cut_at_not_Nil [of "k - 1" COMMAND_ARGS_SEPARATOR x]
  by (auto simp: req_fields_def Suc_le_eq)

text \<open>A request to which the server does not survive.\<close>

definition bad_message_args :: "string \<Rightarrow> bool" where
  "bad_message_args args \<longleftrightarrow> length (req_fields 3 args) < 3 \<or> hd (req_fields 3 args) \<notin> {CMD_ARG_GROUP, CMD_ARG_PRIVATE}"

lemma srv_put_msg_None: "srv_put_msg p u mode name t now s = None \<longleftrightarrow> mode \<notin> {CMD_ARG_GROUP, CMD_ARG_PRIVATE}"
  by (auto simp: srv_put_msg_def split: prod.split option.split option.split_asm)

lemma srv_get_msg_None: "srv_get_msg p u mode name x s = None \<longleftrightarrow> mode \<notin> {CMD_ARG_GROUP, CMD_ARG_PRIVATE}"
  by (auto simp: srv_get_msg_def split: option.split option.split_asm)

lemma three_fields:
  assumes "length args < 2 ^ 31"
  shows "do {
      m \<leftarrow> vec_at (string_parser args 3 [] COMMAND_ARGS_SEPARATOR) 0;
      n \<leftarrow> vec_at (string_parser args 3 [] COMMAND_ARGS_SEPARATOR) (Suc 0);
      x \<leftarrow> vec_at (string_parser args 3 [] COMMAND_ARGS_SEPARATOR) 2; f m n x } =
    (if length (req_fields 3 args) < 3 then None else f (req_fields 3 args ! 0) (req_fields 3 args ! 1) (req_fields 3 args ! 2))"
  using fields_length [of 3 args] string_parser_numeral(2) [OF assms, of "[]" COMMAND_ARGS_SEPARATOR]
  by (auto simp: req_fields_def vec_at_def)

lemma user_command_None:
  assumes "length args < 2 ^ 31"
  shows "user_command cmd p u args now s = None \<longleftrightarrow> cmd \<in> {''push_msg'', ''get_msg''} \<and> bad_message_args args"
proof -
  have hd: "length (req_fields 3 args) \<ge> 3 \<Longrightarrow> hd (req_fields 3 args) = req_fields 3 args ! 0" by (cases "req_fields 3 args") auto
  consider "cmd = ''push_msg''" | "cmd = ''get_msg''" | "cmd \<notin> {''push_msg'', ''get_msg''}" by blast
  then show ?thesis
  proof cases
    case 1
    then show ?thesis
      using hd by (simp add: user_command_def Let_def three_fields [OF assms] srv_put_msg_None bad_message_args_def)
  next
    case 2
    then show ?thesis
      using hd by (simp add: user_command_def Let_def three_fields [OF assms] srv_get_msg_None bad_message_args_def)
  next
    case 3
    then show ?thesis by (simp add: user_command_def)
  qed
qed

text \<open>What a request of enough fields does.\<close>

lemma request_handler_fields:
  assumes "length request < 2 ^ 31" "req_fields 4 request = [cmd, p, l] \<and> args = '''' \<or> req_fields 4 request = [cmd, p, l, args]"
  shows "request_handler request now s =
    (if cmd = ''login'' then Some (srv_login p args s)
     else case find_user l s of
       None \<Rightarrow> Some (say (''Error: User '' @ l @ '' not authorized'') s)
     | Some u \<Rightarrow> user_command cmd p u args now s)"
  using assms(2) string_parser_numeral(3) [OF assms(1), of "[]" COMMAND_ARGS_SEPARATOR]
  by (auto simp: request_handler_def Let_def req_fields_def numeral_2_eq_2 numeral_3_eq_3)

lemma request_handler_short:
  assumes "length request < 2 ^ 31"
  shows "length (req_fields 4 request) = 1 \<Longrightarrow> request_handler request now s = Some (say (''Error: Bad request: '' @ request) s)"
    "length (req_fields 4 request) = 2 \<Longrightarrow> request_handler request now s = None"
  using string_parser_numeral(3) [OF assms(1), of "[]" COMMAND_ARGS_SEPARATOR]
  by (auto simp: request_handler_def Let_def req_fields_def vec_at_def)

lemma long_list_cases: "length v = 3 \<Longrightarrow> \<exists>a b c. v = [a, b, c]" "length v = 4 \<Longrightarrow> \<exists>a b c d. v = [a, b, c, d]"
  by (auto simp: numeral_eq_Suc length_Suc_conv)

lemma fields_short: "f \<in> set (req_fields k x) \<Longrightarrow> length f \<le> length x"
proof -
  have "f \<in> set (cut_at n sep x) \<Longrightarrow> length f \<le> length x" for n and sep :: char and x
  proof (induction n sep x rule: cut_at.induct)
    case (2 k sep st)
    have "length (tl (dropWhile (\<lambda>c. c \<noteq> sep) st)) \<le> length st"
      by (metis diff_le_self dual_order.trans length_dropWhile_le length_tl)
    with 2 show ?case by (auto split: if_split_asm intro: order.trans length_takeWhile_le)
  qed simp
  then show "f \<in> set (req_fields k x) \<Longrightarrow> length f \<le> length x" by (simp add: req_fields_def)
qed


text \<open>The chats of a user, as the chat list shows them: mode, name, messages.\<close>

definition chats_of :: "nat \<Rightarrow> server \<Rightarrow> (string \<times> string \<times> message list) list" where
  "chats_of user s =
     map (\<lambda>c. (CMD_ARG_PRIVATE, other_name s user c, messages c))
       (filter (\<lambda>c. other_name s user c \<noteq> '''' \<and> messages c \<noteq> []) (private_chats s)) @
     map (\<lambda>c. (CMD_ARG_GROUP, chat_name c, messages c))
       (filter (\<lambda>c. user \<in> set (chat_users c) \<and> messages c \<noteq> []) (group_chats s))"

fun entry_of :: "string \<times> string \<times> message list \<Rightarrow> int \<times> string" where
  "entry_of (mode, name, ms) = chat_entry mode name ms"

definition last_id_of :: "string \<times> string \<times> message list \<Rightarrow> nat" where
  "last_id_of c = unat (msg_id (last (snd (snd c))))"

lemma chat_entries_of: "chat_entries user s = map entry_of (chats_of user s)"
  by (simp add: chat_entries_def chats_of_def)

lemma chats_of_ids:
  assumes "server_inv s" "c \<in> set (chats_of user s)"
  shows "0 < last_id_of c \<and> last_id_of c \<le> unat (message_counter_id s)"
proof -
  obtain ms where ms: "snd (snd c) = ms" "ms \<noteq> []" "log_ok (unat (message_counter_id s)) ms"
    using assms by (auto simp: chats_of_def server_inv_def group_ok_def private_ok_def)
  then have "last ms \<in> set ms" by simp
  with ms show ?thesis by (auto simp: last_id_of_def log_ok_def)
qed

text \<open>The key of a chat is the negated id of its last message as long as that fits an \<open>int\<close>.\<close>

lemma chat_key:
  assumes "0 < last_id_of c" "last_id_of c < 2 ^ 31"
  shows "fst (entry_of c) = - int (last_id_of c)"
proof -
  obtain mode name ms where c: "c = (mode, name, ms)" by (cases c)
  define i where "i = msg_id (last ms)"
  have i: "0 < unat i" "unat i < 2 ^ 31" using assms by (simp_all add: c last_id_of_def i_def)
  have "uint (- i) = take_bit 64 (- int (unat i))"
    by (simp add: uint_word_ariths take_bit_eq_mod)
  then have "long_to_int (uint (- i)) = signed_take_bit 31 (- int (unat i))"
    by (simp add: long_to_int_def signed_take_bit_take_bit)
  also have "signed_take_bit 31 (- int k) = - int k" if "k < 2 ^ 31" for k :: nat
    using that by (simp add: signed_take_bit_int_eq_self_iff)
  from this [OF i(2)] have "signed_take_bit 31 (- int (unat i)) = - int (unat i)" .
  finally show ?thesis by (simp add: c chat_entry_def last_id_of_def i_def)
qed


section \<open>Properties\<close>

text \<open>
  C6: the state of the server. Whatever requests it has served, from the start and short of
  \<open>2 ^ 64\<close> messages: logins and group names are unique and not reserved, chat members are users,
  two users share at most one private chat, and the ids in every chat ascend. Serving more requests
  moves no user and no chat and only appends messages.
\<close>

theorem server_run_invariant:
  assumes "serve_requests rs server_init = Some s" "serve_requests rs' s = Some s'" "length rs + length rs' < 2 ^ 64"
  shows "server_inv s \<and> server_inv s' \<and> grows s s'"
proof -
  have "server_inv server_init" "message_counter_id server_init = 0"
    by (simp_all add: server_init_def server_inv_def log_ok_def)
  then have "server_inv s" "unat (message_counter_id s) \<le> length rs"
    using serve_requests_spec [OF assms(1)] assms(3) by auto
  with serve_requests_spec [OF assms(2)] assms(3) show ?thesis by auto
qed

text \<open>
  C9: requests that stop the server. A request faults exactly if it has two fields, or if a known
  user posts or asks for messages with fewer than three arguments or a mode other than group and
  private. Every other request is served.
\<close>

theorem server_faults:
  assumes "length request < 2 ^ 31"
  shows "request_handler request now s = None \<longleftrightarrow>
    length (req_fields 4 request) = 2 \<or>
    (\<exists>cmd p l args. (req_fields 4 request = [cmd, p, l] \<and> args = '''' \<or> req_fields 4 request = [cmd, p, l, args]) \<and>
       cmd \<in> {''push_msg'', ''get_msg''} \<and> find_user l s \<noteq> None \<and> bad_message_args args)"
proof -
  note len = fields_length [of 4 request]
  consider "length (req_fields 4 request) = 1" | "length (req_fields 4 request) = 2"
    | "length (req_fields 4 request) = 3 \<or> length (req_fields 4 request) = 4" using len by linarith
  then show ?thesis
  proof cases
    case 3
    then obtain cmd p l args where f: "req_fields 4 request = [cmd, p, l] \<and> args = '''' \<or> req_fields 4 request = [cmd, p, l, args]"
      using long_list_cases by metis
    then have "length args < 2 ^ 31" using fields_short [of args 4 request] assms by fastforce
    with f show ?thesis
      by (auto simp: request_handler_fields [OF assms f] user_command_None split: option.split)
  qed (use request_handler_short [OF assms] in auto)
qed

text \<open>
  A private message to the wrong reader. For a private message \<open>cmd_put_msg\<close> takes the first
  private chat the sender has, and does not look at the name. If the sender has two private chats,
  a message addressed to the partner in the second one is acknowledged, stored in the first one,
  and does not appear in the second one.
\<close>

theorem private_message_misdirected:
  assumes "c < c'" "c' < length (private_chats s)" "\<forall>d < c. u \<notin> {user1 (private_chats s ! d), user2 (private_chats s ! d)}"
    and "u \<in> {user1 (private_chats s ! c), user2 (private_chats s ! c)}"
    and "user1 (private_chats s ! c') = u" "login_of s (user2 (private_chats s ! c')) = name"
  shows "\<exists>s' m. srv_put_msg p u CMD_ARG_PRIVATE name t now s = Some s' \<and> msg_text m = t \<and>
    messages (private_chats s' ! c) = messages (private_chats s ! c) @ [m] \<and>
    messages (private_chats s' ! c') = messages (private_chats s ! c') \<and>
    pipes s' = pipes s @ [(c_str p, ''push_msg|OK\<newline>'')]"
proof -
  have "first_index (\<lambda>c. user1 c = u \<or> user2 c = u) (private_chats s) = Some c"
    using assms(1-4) by (auto simp: first_index_Some)
  with assms(1,2) show ?thesis
    by (auto simp: srv_put_msg_def new_message_def Let_def response_pipe nth_update char_of_def)
qed


text \<open>What the server does not look at: whether users are logged in.\<close>

definition log_all_out :: "server \<Rightarrow> server" where
  "log_all_out s = s\<lparr>users := map (\<lambda>u. u\<lparr>authorized := False\<rparr>) (users s)\<rparr>"

lemma log_all_out_simps [simp]:
  "group_chats (log_all_out s) = group_chats s" "private_chats (log_all_out s) = private_chats s"
  "message_counter_id (log_all_out s) = message_counter_id s" "all_messages (log_all_out s) = all_messages s"
  "pipes (log_all_out s) = pipes s" "console (log_all_out s) = console s"
  "users (log_all_out s) = map (\<lambda>u. u\<lparr>authorized := False\<rparr>) (users s)"
  by (simp_all add: log_all_out_def)

lemma find_user_log_all_out [simp]: "find_user l (log_all_out s) = find_user l s"
proof -
  have "first_index (\<lambda>u. login u = l) (map (\<lambda>u. u\<lparr>authorized := False\<rparr>) us) = first_index (\<lambda>u. login u = l) us" for us :: "user list"
    by (induction us) auto
  then show ?thesis by (simp add: find_user_def)
qed

lemma first_index_cong: "(\<And>x. x \<in> set xs \<Longrightarrow> P x = Q x) \<Longrightarrow> first_index P xs = first_index Q xs"
  by (induction xs) auto


lemma response_log_all_out [simp]: "response p cmd status a (log_all_out s) = log_all_out (response p cmd status a s)"
  by (simp add: response_def put_message_def say_def log_all_out_def Let_def)

lemma say_log_all_out [simp]: "say l (log_all_out s) = log_all_out (say l s)"
  by (simp add: say_def log_all_out_def)

lemma login_of_log_all_out [simp]: "u < length (users s) \<Longrightarrow> login_of (log_all_out s) u = login_of s u"
  by (simp add: login_of_def)

lemma find_group_log_all_out [simp]: "find_group name (log_all_out s) = find_group name s"
  by (simp add: find_group_def)

lemma new_message_log_all_out:
  "new_message f t now (log_all_out s) = (fst (new_message f t now s), log_all_out (snd (new_message f t now s)))"
  by (simp add: new_message_def Let_def log_all_out_def)

lemma update_log_all_out [simp]:
  "(log_all_out s)\<lparr>group_chats := g\<rparr> = log_all_out (s\<lparr>group_chats := g\<rparr>)"
  "(log_all_out s)\<lparr>private_chats := pc\<rparr> = log_all_out (s\<lparr>private_chats := pc\<rparr>)"
  "(log_all_out s)\<lparr>all_messages := a\<rparr> = log_all_out (s\<lparr>all_messages := a\<rparr>)"
  by (simp_all add: log_all_out_def)

lemma send_messages_log_all_out [simp]: "send_messages p ms t (log_all_out s) = log_all_out (send_messages p ms t s)"
  by (simp add: send_messages_def Let_def split: prod.split)

lemma partners:
  assumes "server_inv s" "c \<in> set (private_chats s)"
  shows "user1 c < length (users s)" "user2 c < length (users s)"
  using assms by (auto simp: server_inv_def private_ok_def)

lemma user_command_log_all_out:
  assumes "server_inv s" "u < length (users s)" "length args < 2 ^ 31"
  shows "user_command cmd p u args now (log_all_out s) = map_option log_all_out (user_command cmd p u args now s)"
proof -
  have logout: "srv_logout u (log_all_out s) = log_all_out (srv_logout u s)"
    using assms(2) by (simp add: srv_logout_def log_all_out_def map_update list_update_id)
  have priv: "srv_private p u args (log_all_out s) = log_all_out (srv_private p u args s)"
    using assms(2) by (simp add: srv_private_def Let_def split: option.split)
  have join: "srv_create p u args now (log_all_out s) = log_all_out (srv_create p u args now s)"
      "srv_join p u args now (log_all_out s) = log_all_out (srv_join p u args now s)"
    using assms(2) by (simp_all add: srv_create_def srv_join_def join_message_def new_message_log_all_out Let_def split: option.split prod.split)
  have put: "srv_put_msg p u mode name t now (log_all_out s) = map_option log_all_out (srv_put_msg p u mode name t now s)" for mode name t
    using assms(2) by (simp add: srv_put_msg_def new_message_log_all_out Let_def split: option.split prod.split)
  have "first_index (\<lambda>c. user1 c = u \<and> login_of (log_all_out s) (user2 c) = name \<or> user2 c = u \<and> login_of (log_all_out s) (user1 c) = name) (private_chats s) =
      first_index (\<lambda>c. user1 c = u \<and> login_of s (user2 c) = name \<or> user2 c = u \<and> login_of s (user1 c) = name) (private_chats s)" for name
    by (rule first_index_cong) (simp add: partners [OF assms(1)])
  then have get: "srv_get_msg p u mode name t (log_all_out s) = map_option log_all_out (srv_get_msg p u mode name t s)" for mode name t
    by (simp add: srv_get_msg_def split: option.split)
  have "chat_entries u (log_all_out s) = chat_entries u s"
    using partners [OF assms(1)] unfolding chat_entries_def
    by (intro arg_cong2 [where f = append] map_cong filter_cong) (auto simp: other_name_def)
  then have chats: "srv_chats p u (log_all_out s) = log_all_out (srv_chats p u s)"
    by (simp add: srv_chats_def)
  show ?thesis
    by (simp add: user_command_def logout priv join put get chats Let_def three_fields [OF assms(3)])
qed

text \<open>
  Logging out has no effect on what a user may do. Apart from the command to log in, the server
  does the same, with the same answers, as if all its users were logged out.
\<close>

theorem logout_not_enforced:
  assumes "server_inv s" "length request < 2 ^ 31" "hd (req_fields 4 request) \<noteq> ''login''"
  shows "request_handler request now (log_all_out s) = map_option log_all_out (request_handler request now s)"
proof -
  note len = fields_length [of 4 request]
  consider "length (req_fields 4 request) = 1" | "length (req_fields 4 request) = 2"
    | "length (req_fields 4 request) = 3 \<or> length (req_fields 4 request) = 4" using len by linarith
  then show ?thesis
  proof cases
    case 3
    then obtain cmd p l args where f: "req_fields 4 request = [cmd, p, l] \<and> args = '''' \<or> req_fields 4 request = [cmd, p, l, args]"
      using long_list_cases by metis
    then have "length args < 2 ^ 31" "cmd \<noteq> ''login''" using fields_short [of args 4 request] assms(2,3) by fastforce+
    with f show ?thesis
      using user_command_log_all_out [OF assms(1)] find_user_Some
      by (auto simp: request_handler_fields [OF assms(2) f] split: option.split)
  qed (use request_handler_short [OF assms(2)] in auto)
qed


text \<open>
  C10: the chat list. As long as fewer than \<open>2 ^ 31\<close> messages have been sent, the answer to
  \<open>chats\<close> lists the user's chats that have messages, each once, with their last message, and the
  ones with newer messages first.
\<close>

theorem chats_newest_first:
  assumes "server_inv s" "unat (message_counter_id s) < 2 ^ 31"
  shows "\<exists>cs. mset cs = mset (chats_of user s) \<and> sorted_wrt (\<lambda>a b. last_id_of b \<le> last_id_of a) cs \<and>
    srv_chats p user s = response p ''chats'' STATUS_OK (butlast (concat (map (\<lambda>c. snd (entry_of c)) cs))) s"
proof -
  define cs where "cs = sort_key entry_of (chats_of user s)"
  have mset: "mset cs = mset (chats_of user s)" by (simp add: cs_def)
  have sorted: "sorted (map entry_of cs)" unfolding cs_def by (rule sorted_sort_key)
  have "sort (chat_entries user s) = map entry_of cs"
    by (rule properties_for_sort) (use mset sorted in \<open>simp_all add: chat_entries_of\<close>)
  moreover have "sorted_wrt (\<lambda>a b. last_id_of b \<le> last_id_of a) cs"
  proof -
    have "last_id_of b \<le> last_id_of a" if "a \<in> set cs" "b \<in> set cs" "entry_of a \<le> entry_of b" for a b
    proof -
      have "set cs = set (chats_of user s)" using mset by (metis set_mset_mset)
      then have "fst (entry_of x) = - int (last_id_of x)" if "x \<in> set cs" for x
        using that chats_of_ids [OF assms(1), of x user] assms(2) by (intro chat_key) auto
      from this [OF that(1)] this [OF that(2)]
      have "fst (entry_of a) = - int (last_id_of a)" "fst (entry_of b) = - int (last_id_of b)" .
      moreover have "fst (entry_of a) \<le> fst (entry_of b)"
        using \<open>entry_of a \<le> entry_of b\<close> by (auto simp: less_eq_prod_def)
      ultimately show ?thesis by simp
    qed
    with sorted show ?thesis
      by (auto simp: sorted_wrt_map intro: sorted_wrt_mono_rel [rotated])
  qed
  ultimately show ?thesis using mset by (auto simp: srv_chats_def comp_def intro!: exI [of _ cs])
qed

section \<open>A concrete server\<close>

text \<open>Two users log in, talk to each other and to a third; one of them has a group.\<close>

definition demo_server :: server where
  "demo_server = \<lparr>
     users = [\<lparr>login = ''ann'', authorized = True\<rparr>, \<lparr>login = ''bob'', authorized = True\<rparr>, \<lparr>login = ''cat'', authorized = False\<rparr>],
     group_chats = [\<lparr>messages = [\<lparr>from_login = ''SYSTEM'', msg_text = ''hello'', timestamp = 0, msg_id = 1\<rparr>],
        chat_name = ''os'', owner_name = ''ann'', chat_users = [0]\<rparr>],
     private_chats = [\<lparr>messages = [], user1 = 0, user2 = 1\<rparr>,
        \<lparr>messages = [\<lparr>from_login = ''cat'', msg_text = ''hi'', timestamp = 0, msg_id = 2\<rparr>], user1 = 0, user2 = 2\<rparr>],
     all_messages = [\<lparr>from_login = ''cat'', msg_text = ''hi'', timestamp = 0, msg_id = 2\<rparr>],
     message_counter_id = 2, console = [], pipes = []\<rparr>"

lemma demo_server_inv: "server_inv demo_server"
  by (simp add: server_inv_def demo_server_def group_ok_def private_ok_def log_ok_def doubleton_eq_iff)

theorem private_message_misdirected_witness:
  "\<exists>s'. srv_put_msg ''p'' 0 CMD_ARG_PRIVATE ''cat'' ''secret'' 0 demo_server = Some s' \<and>
     map msg_text (messages (private_chats s' ! 0)) = [''secret''] \<and>
     map msg_text (messages (private_chats s' ! 1)) = [''hi'']"
  using private_message_misdirected [of 0 1 demo_server 0 "''cat''" "''p''" "''secret''" 0]
  by (auto simp: demo_server_def login_of_def)

theorem chats_newest_first_witness:
  "\<exists>cs. mset cs = mset (chats_of 0 demo_server) \<and> sorted_wrt (\<lambda>a b. last_id_of b \<le> last_id_of a) cs \<and>
     map (\<lambda>(mode, name, ms). name) (chats_of 0 demo_server) = [''cat'', ''os'']"
proof -
  have "map (\<lambda>(mode, name, ms). name) (chats_of 0 demo_server) = [''cat'', ''os'']"
    by (simp add: chats_of_def demo_server_def other_name_def login_of_def)
  moreover have "unat (message_counter_id demo_server) < 2 ^ 31" by (simp add: demo_server_def)
  ultimately have *: "unat (message_counter_id demo_server) < 2 ^ 31"
      "map (\<lambda>(mode, name, ms). name) (chats_of 0 demo_server) = [''cat'', ''os'']" by blast+
  from chats_newest_first [OF demo_server_inv *(1), of 0 "''p''"] obtain cs where
    "mset cs = mset (chats_of 0 demo_server)" "sorted_wrt (\<lambda>a b. last_id_of b \<le> last_id_of a) cs" by blast
  with *(2) show ?thesis by (intro exI [of _ cs] conjI)
qed

lemma demo_fields:
  "req_fields 4 ''push_msg|/tmp/c|cat|GROUP|os|x'' = [''push_msg'', ''/tmp/c'', ''cat'', ''GROUP|os|x'']"
  "req_fields 4 ''get_msg|/tmp/c'' = [''get_msg'', ''/tmp/c'']"
  by (simp_all add: req_fields_def numeral_3_eq_3)

theorem logout_not_enforced_witness:
  "\<exists>s'. request_handler ''push_msg|/tmp/c|cat|GROUP|os|x'' 0 (log_all_out demo_server) = Some (log_all_out s') \<and>
     map msg_text (messages (group_chats s' ! 0)) = [''hello'', ''x'']"
proof -
  let ?r = "''push_msg|/tmp/c|cat|GROUP|os|x''"
  have len: "length ?r < 2 ^ 31" "length ''GROUP|os|x'' < 2 ^ 31" by simp_all
  have args: "req_fields 3 ''GROUP|os|x'' = [''GROUP'', ''os'', ''x'']" by (simp add: req_fields_def numeral_2_eq_2)
  have "find_user ''cat'' demo_server = Some 2" "find_group ''os'' demo_server = Some 0"
    by (simp_all add: find_user_def find_group_def demo_server_def)
  then have "\<exists>s'. request_handler ?r 0 demo_server = Some s' \<and> map msg_text (messages (group_chats s' ! 0)) = [''hello'', ''x'']"
    using demo_fields(1)
    by (simp add: request_handler_fields [OF len(1), of _ _ _ "''GROUP|os|x''"] user_command_def Let_def three_fields [OF len(2)] args
        srv_put_msg_def new_message_def) (simp add: demo_server_def)
  then show ?thesis
    using logout_not_enforced [OF demo_server_inv len(1), of 0] demo_fields(1) by auto
qed

theorem server_faults_witness:
  "request_handler ''get_msg|/tmp/c'' 0 demo_server = None"
  using server_faults [of "''get_msg|/tmp/c''" 0 demo_server] demo_fields(2) by simp

theorem server_run_invariant_witness:
  "\<exists>s. serve_requests [(''x'', 0)] server_init = Some s \<and> server_inv s"
proof -
  have "req_fields 4 ''x'' = [''x'']" by (simp add: req_fields_def numeral_3_eq_3)
  then obtain s where "serve_requests [(''x'', 0)] server_init = Some s" "serve_requests [] s = Some s"
    by (simp add: request_handler_short(1))
  with server_run_invariant [of "[(''x'', 0)]" s "[]" s] show ?thesis by auto
qed

end
