(* ===== verification/MessengerClient.thy ===== *)
theory MessengerClient
  imports StringParser
begin

text \<open>
  The client of the messenger: \<^verbatim>\<open>KP/client/client.cpp\<close>, the callbacks of \<^verbatim>\<open>KP/messenger.cpp\<close>, and
  what the terminal interface of \<^verbatim>\<open>KP/tui\<close> remembers: the text shown, the list of chats with the
  chosen one, the input line. Drawing with ncurses is left out. The client's three threads (input,
  answers, updates) work on one state; a step of one of them is a function of that state. A result
  \<open>None\<close> is an exception (\<open>vector::at\<close>) or a read behind the end of a vector.
\<close>

section \<open>State\<close>

datatype client_state = NotLogin | InGroupChat | InPrivateChat | InMainMenu

datatype color = TUI_COLOR_WHITE | TUI_COLOR_BLUE | TUI_COLOR_MAGENTA | TUI_COLOR_RED

datatype print_type = PRINT_SYSTEM_INFO_OK | PRINT_SYSTEM_INFO_ERR | PRINT_CHAT_INFO | PRINT_MESSAGE

record chat_buf_elem =
  is_public :: bool
  el_chat_name :: string
  last_user_name :: string
  last_message :: string

datatype window = Input_window | Chats_window

record client =
  client_state :: client_state
  client_login :: string
  client_chat :: string
  last_update_id :: string
  response_pipe :: string
  requests :: "string list"              \<comment> \<open>lines written to the request pipe\<close>
  output_text :: "(string \<times> color) list"
  output_drawn :: "(string \<times> color) list" \<comment> \<open>what the window of output shows\<close>
  chat_list :: "chat_buf_elem list"
  now_choice :: int
  input_text :: string
  now_window :: window
  chats_text :: "(string \<times> color) list"  \<comment> \<open>what the window of chats shows\<close>

abbreviation BAR :: char where "BAR \<equiv> CHR ''|''"
abbreviation NEWLINE :: char where "NEWLINE \<equiv> CHR 0x0A"

definition client_init :: "string \<Rightarrow> client" where
  "client_init pipe_name = \<lparr>client_state = NotLogin, client_login = '''', client_chat = '''', last_update_id = ''0'',
     response_pipe = pipe_name, requests = [], output_text = [], output_drawn = [], chat_list = [], now_choice = 0, input_text = '''',
     now_window = Input_window, chats_text = []\<rparr>"

section \<open>The buffers of the interface\<close>

definition text_buffer_add :: "string \<Rightarrow> color \<Rightarrow> client \<Rightarrow> client" where
  [simp]: "text_buffer_add s col c = c\<lparr>output_text := output_text c @ [(s, col)]\<rparr>"

definition text_buffer_clear :: "client \<Rightarrow> client" where
  [simp]: "text_buffer_clear c = c\<lparr>output_text := []\<rparr>"

definition chat_buffer_add :: "bool \<Rightarrow> string \<Rightarrow> string \<Rightarrow> string \<Rightarrow> client \<Rightarrow> client" where
  [simp]: "chat_buffer_add public name user message c = c\<lparr>chat_list := chat_list c @
     [\<lparr>is_public = public, el_chat_name = name, last_user_name = user, last_message = message\<rparr>]\<rparr>"

definition chat_buffer_get :: "string \<Rightarrow> client \<Rightarrow> chat_buf_elem option" where
  "chat_buffer_get name c = find (\<lambda>el. el_chat_name el = name) (chat_list c)"

definition chat_buffer_clear :: "client \<Rightarrow> client" where
  [simp]: "chat_buffer_clear c = c\<lparr>now_choice := 0, chat_list := []\<rparr>"

definition set_now_choice :: "int \<Rightarrow> client \<Rightarrow> client" where
  [simp]: "set_now_choice pos c = c\<lparr>now_choice := pos\<rparr>"

section \<open>The interface\<close>

text \<open>Text is drawn up to a zero byte.\<close>

definition print_output_text :: "string \<times> color \<Rightarrow> client \<Rightarrow> client" where
  "print_output_text el c = c\<lparr>output_drawn := output_drawn c @ [(c_str (fst el), snd el)]\<rparr>"

definition tui_output :: "string \<Rightarrow> color \<Rightarrow> client \<Rightarrow> client" where
  "tui_output s col c = print_output_text (s, col) (text_buffer_add s col c)"

definition clear_output :: "client \<Rightarrow> client" where
  "clear_output c = (text_buffer_clear c)\<lparr>output_drawn := []\<rparr>"

definition clear_chats :: "client \<Rightarrow> client" where
  "clear_chats c = (chat_buffer_clear c)\<lparr>chats_text := []\<rparr>"

text \<open>\<open>buffer.at(now_choice)\<close> throws outside the buffer.\<close>

definition now_choice_get :: "client \<Rightarrow> chat_buf_elem option" where
  "now_choice_get c = (if 0 \<le> now_choice c \<and> now_choice c < int (length (chat_list c))
     then Some (chat_list c ! nat (now_choice c)) else None)"

definition now_choice_up :: "client \<Rightarrow> client option" where
  "now_choice_up c = (if now_choice c \<le> 0 then None else Some (c\<lparr>now_choice := now_choice c - 1\<rparr>))"

text \<open>The comparison with \<open>buffer.size()-1\<close> is one of \<open>size_t\<close>.\<close>

definition now_choice_down :: "client \<Rightarrow> client option" where
  "now_choice_down c = (if now_choice c mod 2 ^ 64 \<ge> int (sz_sub (length (chat_list c)) 1) then None
     else Some (c\<lparr>now_choice := now_choice c + 1\<rparr>))"

text \<open>A row per chat, the chosen one with a mark.\<close>

definition chat_row :: "bool \<Rightarrow> chat_buf_elem \<Rightarrow> (string \<times> color) list" where
  "chat_row chosen el =
    [(if chosen then ''>'' else '' '', TUI_COLOR_WHITE), (c_str (el_chat_name el), TUI_COLOR_BLUE), ('' '', TUI_COLOR_WHITE),
     (c_str (last_user_name el), TUI_COLOR_MAGENTA), ('': '', TUI_COLOR_WHITE),
     (c_str (last_message el), TUI_COLOR_WHITE), ([NEWLINE], TUI_COLOR_WHITE)]"

definition print_chats :: "client \<Rightarrow> client option" where
  "print_chats c =
    (if chat_list c = [] then Some c
     else do {
       _ \<leftarrow> now_choice_get c;
       Some (c\<lparr>chats_text := chats_text c @
         concat (map (\<lambda>i. chat_row (int i = now_choice c) (chat_list c ! i)) [0..<length (chat_list c)])\<rparr>)
     })"

text \<open>The loop of \<open>update_chats\<close>: groups of four fields; an incomplete group is dropped.\<close>

fun add_chats :: "string \<Rightarrow> string list \<Rightarrow> nat \<Rightarrow> client \<Rightarrow> client" where
  "add_chats now_ch (mode # name # user # text' # chats) i c =
     (let c1 = chat_buffer_add (mode = ''GROUP'') name user text' c;
          c2 = (if name = now_ch then set_now_choice (int ((i + 3) div 4)) c1 else c1)
      in add_chats now_ch chats (i + 4) c2)"
| "add_chats now_ch _ i c = c"

definition update_chats :: "string list \<Rightarrow> client \<Rightarrow> client option" where
  "update_chats chats c =
    (if chats = [] then Some c
     else if chat_list c \<noteq> [] \<and> length chats \<ge> 4 \<and> chats ! 1 = el_chat_name (hd (chat_list c)) \<and>
       chats ! 2 = last_user_name (hd (chat_list c)) \<and> chats ! 3 = last_message (hd (chat_list c))
     then Some c
     else do {
       now_ch \<leftarrow> (if chat_list c \<noteq> [] then map_option el_chat_name (now_choice_get c) else Some '''');
       let c1 = add_chats now_ch chats 0 (clear_chats c);
       print_chats (if now_ch = '''' then set_now_choice 0 c1 else c1)
     })"

text \<open>
  The loops of \<open>print\<close> over a text with separators: the fields of messages are shown as they are
  found, the fields of the chat list are collected.
\<close>

function message_loop :: "string \<Rightarrow> nat \<Rightarrow> int \<Rightarrow> int \<Rightarrow> client \<Rightarrow> int \<times> client" where
  "message_loop txt' i state_now last_sep c =
    (if i < length txt' then
       if txt' ! i \<noteq> BAR then message_loop txt' (i + 1) state_now last_sep c
       else let s = substr txt' (last_sep + 1) (int i - last_sep - 1) in
         if state_now = 0
         then message_loop txt' (i + 1) (state_now + 1) (int i)
                (tui_output '': '' TUI_COLOR_WHITE (tui_output s TUI_COLOR_BLUE c))
         else message_loop txt' (i + 1) 0 (int i) (tui_output (s @ [NEWLINE]) TUI_COLOR_WHITE c)
     else (last_sep, c))"
  by pat_completeness auto
termination by (relation "measure (\<lambda>(t, i, _). length t - i)") auto

function chats_loop :: "string \<Rightarrow> nat \<Rightarrow> int \<Rightarrow> string list \<Rightarrow> int \<times> string list" where
  "chats_loop txt' i last_sep chats =
    (if i < length txt' then
       if txt' ! i \<noteq> BAR then chats_loop txt' (i + 1) last_sep chats
       else chats_loop txt' (i + 1) (int i) (chats @ [substr txt' (last_sep + 1) (int i - last_sep - 1)])
     else (last_sep, chats))"
  by pat_completeness auto
termination by (relation "measure (\<lambda>(t, i, _). length t - i)") auto

declare message_loop.simps [simp del] chats_loop.simps [simp del]

definition print_end :: "string \<Rightarrow> print_type \<Rightarrow> string \<Rightarrow> client \<Rightarrow> client option" where
  "print_end txt' ty end_str c =
    (case ty of
       PRINT_SYSTEM_INFO_OK \<Rightarrow> Some (tui_output (txt' @ end_str) TUI_COLOR_MAGENTA c)
     | PRINT_SYSTEM_INFO_ERR \<Rightarrow> Some (tui_output (txt' @ end_str) TUI_COLOR_RED c)
     | PRINT_MESSAGE \<Rightarrow>
         let (last_sep, c1) = message_loop txt' 0 0 (-1) c;
             s = substr txt' (last_sep + 1) (int (length txt') - last_sep - 1) @ [NEWLINE]
         in Some (tui_output s TUI_COLOR_WHITE c1)
     | PRINT_CHAT_INFO \<Rightarrow>
         let (last_sep, chats) = chats_loop txt' 0 (-1) []
         in update_chats (chats @ [substr txt' (last_sep + 1) (int (length txt') - last_sep - 1)]) c)"

abbreviation print_ok :: "string \<Rightarrow> client \<Rightarrow> client" where
  "print_ok s c \<equiv> tui_output (s @ [NEWLINE]) TUI_COLOR_MAGENTA c"

abbreviation print_err :: "string \<Rightarrow> client \<Rightarrow> client" where
  "print_err s c \<equiv> tui_output (s @ [NEWLINE]) TUI_COLOR_RED c"

section \<open>Requests\<close>

definition request :: "string \<Rightarrow> string \<Rightarrow> client \<Rightarrow> client" where
  "request command arguments c =
    (let name = (if client_state c = NotLogin then ''__NONE'' else client_login c);
         args = (if arguments \<noteq> '''' then [BAR] else '''') @ arguments
     in c\<lparr>requests := requests c @ [command @ [BAR] @ response_pipe c @ [BAR] @ name @ args @ [NEWLINE]]\<rparr>)"

abbreviation ERROR_USER_IS_NOT_LOGGED_IN :: string where
  "ERROR_USER_IS_NOT_LOGGED_IN \<equiv> ''user is not logged in''"

definition update_chat :: "string \<Rightarrow> client \<Rightarrow> client" where
  "update_chat last_id c =
     request ''get_msg'' ((if client_state c = InGroupChat then ''GROUP'' else ''PRIVATE'') @ [BAR] @ client_chat c @ [BAR] @ last_id) c"

definition cl_login :: "string \<Rightarrow> client \<Rightarrow> client" where
  "cl_login name c =
    (if client_state c \<noteq> NotLogin then print_err ''user is already logged in'' c
     else if length name < 2 \<or> length name > 20
     then print_err (''Name size must be greater than 1 and less than 21'') c
     else if BAR \<in> set name then print_err ''Name contains forbidden characters'' c
     else request ''login'' name (c\<lparr>client_login := name\<rparr>))"

definition cl_logout :: "client \<Rightarrow> client" where
  "cl_logout c =
    (if client_state c = NotLogin then print_err ERROR_USER_IS_NOT_LOGGED_IN c
     else print_ok ''logout successful'' ((request ''logout'' '''' c)\<lparr>client_state := NotLogin\<rparr>))"

definition cl_join :: "string \<Rightarrow> client \<Rightarrow> client" where
  "cl_join name c =
    (if client_state c = NotLogin then print_err ERROR_USER_IS_NOT_LOGGED_IN c else request ''join'' name c)"

definition cl_private :: "string \<Rightarrow> client \<Rightarrow> client" where
  "cl_private name c =
    (if client_state c = NotLogin then print_err ERROR_USER_IS_NOT_LOGGED_IN c else request ''private'' name c)"

definition cl_create_chat :: "string \<Rightarrow> client \<Rightarrow> client" where
  "cl_create_chat name c =
    (if client_state c = NotLogin then print_err ERROR_USER_IS_NOT_LOGGED_IN c
     else if length name < 2 \<or> length name > 20
     then print_err (''Chat name size must be greater than 1 and less than 21'') c
     else if BAR \<in> set name then print_err ''Chat name contains forbidden characters'' c
     else request ''create'' name c)"

definition cl_push :: "string \<Rightarrow> client \<Rightarrow> client" where
  "cl_push txt' c =
    (if client_state c = NotLogin then print_err ERROR_USER_IS_NOT_LOGGED_IN c
     else if BAR \<in> set txt' then print_err ''Text contains forbidden characters'' c
     else
       let (req, c1) = (if length txt' > 2048
                        then (take 2048 txt', print_err ''The message is truncated''
                               (print_err (''Message size must be less than 2049'') c))
                        else (txt', c))
       in request ''push_msg'' ((if client_state c1 = InGroupChat then ''GROUP'' else ''PRIVATE'') @ [BAR] @
            client_chat c1 @ [BAR] @ req) c1)"

definition cl_chats :: "client \<Rightarrow> client" where
  "cl_chats c = request ''chats'' '''' c"

section \<open>Answers\<close>

definition enter_chat :: "client_state \<Rightarrow> string \<Rightarrow> client \<Rightarrow> client" where
  "enter_chat st args c = c\<lparr>client_state := st, client_chat := args, last_update_id := ''0''\<rparr>"

definition rec_login :: "client \<Rightarrow> client" where
  "rec_login c = print_ok ''successful authorization'' (c\<lparr>client_state := InMainMenu\<rparr>)"

definition rec_join :: "string \<Rightarrow> client \<Rightarrow> client" where
  "rec_join args c = print_ok (''Group chat '' @ args) (enter_chat InGroupChat args c)"

definition rec_private :: "string \<Rightarrow> client \<Rightarrow> client" where
  "rec_private args c = print_ok (''Chat with the user '' @ args) (enter_chat InPrivateChat args c)"

definition rec_create_chat :: "string \<Rightarrow> client \<Rightarrow> client" where
  "rec_create_chat args c = print_ok (''Group chat '' @ args) (enter_chat InGroupChat args c)"

definition rec_chats :: "string \<Rightarrow> client \<Rightarrow> client option" where
  "rec_chats args c = (if args = '''' then Some c else print_end args PRINT_CHAT_INFO [NEWLINE] c)"

definition rec_get_msg :: "string \<Rightarrow> client \<Rightarrow> client option" where
  "rec_get_msg args c =
    (let args_p = string_parser args 2 [] BAR in
     if length args_p < 2 then None
     else
       let c1 = c\<lparr>last_update_id := args_p ! 0\<rparr> in
       if args_p ! 1 = '''' then Some c1 else print_end (args_p ! 1) PRINT_MESSAGE [NEWLINE] c1)"

definition answer_handler :: "string \<Rightarrow> client \<Rightarrow> client option" where
  "answer_handler answer c =
    (let string_p = string_parser answer 3 [] BAR in
     if length string_p < 2 then None
     else
       let cmd = string_p ! 0; status = string_p ! 1; args = (if length string_p = 2 then '''' else string_p ! 2) in
       if status = ''ERROR'' then Some (print_err (''Error: '' @ args) c)
       else if cmd = ''login'' then Some (rec_login c)
       else if cmd = ''private'' then Some (rec_private args c)
       else if cmd = ''create'' then Some (rec_create_chat args c)
       else if cmd = ''join'' then Some (rec_join args c)
       else if cmd = ''get_msg'' then rec_get_msg args c
       else if cmd = ''chats'' then rec_chats args c
       else Some c)"

text \<open>An empty answer, when the pipe was closed, is skipped.\<close>

definition receive_answer :: "string \<Rightarrow> client \<Rightarrow> client option" where
  "receive_answer answer c = (if answer = '''' then Some c else answer_handler answer c)"


section \<open>The main program\<close>

definition print_help :: "client \<Rightarrow> client" where
  "print_help c =
    (let c1 = print_ok ''F12 - exit'' (print_ok ''F1 - print help'' c) in
     case client_state c of
       NotLogin \<Rightarrow> print_ok ''login LOGIN - log in under the login LOGIN'' c1
     | InMainMenu \<Rightarrow> fold print_ok
         [''Main menu'', ''chats - view the list of chats in which there was communication'',
          ''private LOGIN - log in to a personal chat with a LOGIN user'',
          ''join CHAT_NAME - log in to a group chat with the name CHAT_NAME'',
          ''create CHAT_NAME - create a group chat with the name CHAT_NAME'', ''logout - log out of the system''] c1
     | _ \<Rightarrow> print_ok ''F2 - go back to the menu'' c1)"

definition back_to_menu :: "client \<Rightarrow> client" where
  "back_to_menu c =
    (if client_state c = InMainMenu \<or> client_state c = NotLogin then c
     else print_help (clear_output (c\<lparr>client_state := InMainMenu\<rparr>)))"

definition input_handler :: "string \<Rightarrow> client \<Rightarrow> client option" where
  "input_handler txt' c =
    (if txt' = '''' then Some c
     else if client_state c = InPrivateChat \<or> client_state c = InGroupChat then Some (cl_push txt' c)
     else
       let args_p = string_parser txt' 2 [] (CHR '' ''); cmd = args_p ! 0 in
       if cmd = ''help'' then Some (print_help c)
       else if cmd = ''logout'' then Some (cl_logout (clear_chats (clear_output c)))
       else if cmd = ''chats'' then Some (cl_chats c)
       else if cmd \<in> {''login'', ''private'', ''join'', ''create''} then
         (if length args_p < 2 then None
          else Some ((if cmd = ''login'' then cl_login else if cmd = ''private'' then cl_private
                      else if cmd = ''join'' then cl_join else cl_create_chat) (args_p ! 1) c))
       else Some (print_err (''Unknown command '' @ cmd) c))"

text \<open>The callback for a chat chosen in the list.\<close>

definition choose_chat :: "string \<Rightarrow> bool \<Rightarrow> client \<Rightarrow> client" where
  "choose_chat name public c = (if public then cl_join name (clear_output c) else cl_private name (clear_output c))"

text \<open>A round of the updating thread, without its pauses.\<close>

definition updater_round :: "client \<Rightarrow> client" where
  "updater_round c =
    (if client_state c = NotLogin then c
     else cl_chats (if client_state c = InPrivateChat \<or> client_state c = InGroupChat
                    then update_chat (last_update_id c) c else c))"

text \<open>A resize of the terminal makes new windows, empty ones, and draws into them.\<close>

definition redraw_windows :: "client \<Rightarrow> client option" where
  "redraw_windows c = (let c1 = c\<lparr>output_drawn := [], chats_text := []\<rparr>
     in print_chats (fold print_output_text (output_text c1) c1))"

datatype key = Key_resize | Key_help | Key_back | Key_tab | Key_enter | Key_down | Key_up | Key_backspace | Key_char char

definition toggle_window :: "client \<Rightarrow> client" where
  [simp]: "toggle_window c = c\<lparr>now_window := (if now_window c = Input_window then Chats_window else Input_window)\<rparr>"

definition tui_key :: "key \<Rightarrow> client \<Rightarrow> client option" where
  "tui_key k c = (case k of
       Key_resize \<Rightarrow> redraw_windows c
     | Key_help \<Rightarrow> Some (print_help c)
     | Key_back \<Rightarrow> Some (back_to_menu c)
     | Key_tab \<Rightarrow> Some (toggle_window c)
     | Key_enter \<Rightarrow>
         if now_window c = Input_window
         then do { c1 \<leftarrow> input_handler (input_text c) c; Some (c1\<lparr>input_text := ''''\<rparr>) }
         else if chat_list c \<noteq> []
         then do { el \<leftarrow> now_choice_get c; Some (choose_chat (el_chat_name el) (is_public el) c) }
         else Some c
     | Key_down \<Rightarrow>
         if now_window c \<noteq> Chats_window then Some c
         else (case now_choice_down c of
                 None \<Rightarrow> Some c
               | Some c1 \<Rightarrow> print_chats (c1\<lparr>chats_text := []\<rparr>))
     | Key_up \<Rightarrow>
         if now_window c \<noteq> Chats_window then Some c
         else (case now_choice_up c of
                 None \<Rightarrow> Some c
               | Some c1 \<Rightarrow> print_chats (c1\<lparr>chats_text := []\<rparr>))
     | Key_backspace \<Rightarrow>
         Some (if now_window c = Input_window \<and> input_text c \<noteq> '''' then c\<lparr>input_text := butlast (input_text c)\<rparr> else c)
     | Key_char ch \<Rightarrow>
         Some (if now_window c = Input_window then c\<lparr>input_text := input_text c @ [ch]\<rparr> else c))"

text \<open>
  A session: keys, answers and updates in any order, each handled as a whole; at the end (F12) a user
  who is logged in is logged out.
\<close>

datatype event = Pressed key | Answered string | Updated

fun client_step :: "event \<Rightarrow> client \<Rightarrow> client option" where
  "client_step (Pressed k) c = tui_key k c"
| "client_step (Answered answer) c = receive_answer answer c"
| "client_step Updated c = Some (updater_round c)"

fun client_run :: "event list \<Rightarrow> client \<Rightarrow> client option" where
  "client_run [] c = Some c"
| "client_run (e # es) c = do { c1 \<leftarrow> client_step e c; client_run es c1 }"

definition messenger_main :: "string \<Rightarrow> event list \<Rightarrow> client option" where
  "messenger_main pipe_name es = do {
     c \<leftarrow> client_run es (print_help (client_init pipe_name));
     Some (if client_state c \<noteq> NotLogin then cl_logout c else c)
   }"

section \<open>Lemmas: fields of a text\<close>

text \<open>All fields of a text.\<close>

fun split_all :: "string \<Rightarrow> string list" where
  "split_all [] = ['''']"
| "split_all (x # xs) =
     (if x = BAR then '''' # split_all xs else (x # hd (split_all xs)) # tl (split_all xs))"

lemma split_all_not_Nil [simp]: "split_all st \<noteq> []"
  by (induction st) auto

lemma split_all_no_bar: "BAR \<notin> set a \<Longrightarrow> split_all a = [a]"
  by (induction a) auto

lemma split_all_append: "BAR \<notin> set a \<Longrightarrow> split_all (a @ BAR # b) = a # split_all b"
  by (induction a) auto

lemma split_all_join: "fs \<noteq> [] \<Longrightarrow> \<forall>f \<in> set fs. BAR \<notin> set f \<Longrightarrow> split_all (join BAR fs) = fs"
  by (induction fs rule: induct_list012) (auto simp: split_all_no_bar split_all_append)

text \<open>A loop over the text sees its fields one after the other.\<close>

lemma chats_loop_split:
  assumes "p \<le> i" "i \<le> length st" "BAR \<notin> set (take (i - p) (drop p st))"
  shows "(let (last_sep, v) = chats_loop st i (int p - 1) v0 in
      v @ [substr st (last_sep + 1) (int (length st) - last_sep - 1)]) = v0 @ split_all (drop p st)"
  using assms
proof (induction "length st - i" arbitrary: p i v0 rule: less_induct)
  case less
  show ?case
  proof (cases "i < length st")
    case False
    then have "take (i - p) (drop p st) = drop p st" using less.prems(2) by simp
    then have "split_all (drop p st) = [drop p st]" using less.prems(3) by (metis split_all_no_bar)
    with False less.prems(1,2) show ?thesis
      by (subst chats_loop.simps) (simp add: substr_def nat_diff_distrib)
  next
    case True
    then have i: "length st - (i + 1) < length st - i" by simp
    have split: "drop p st = take (i - p) (drop p st) @ st ! i # drop (i + 1) st"
      using True less.prems(1) by (metis Cons_nth_drop_Suc Suc_eq_plus1 append_take_drop_id drop_drop le_add_diff_inverse2)
    show ?thesis
    proof (cases "st ! i = BAR")
      case bar: True
      have "substr st (int p - 1 + 1) (int i - (int p - 1) - 1) = take (i - p) (drop p st)"
        using less.prems(1) by (simp add: substr_def nat_diff_distrib)
      moreover have "split_all (drop p st) = take (i - p) (drop p st) # split_all (drop (i + 1) st)"
        using split_all_append [OF less.prems(3)] split bar by metis
      ultimately show ?thesis
        using less.hyps [OF i, of "i + 1" "v0 @ [take (i - p) (drop p st)]"] True bar
        by (subst chats_loop.simps) (simp add: algebra_simps)
    next
      case False
      have "take (i + 1 - p) (drop p st) = take (i - p) (drop p st) @ [st ! i]"
        using True less.prems(1) by (simp add: Suc_diff_le take_Suc_conv_app_nth)
      then have "BAR \<notin> set (take (i + 1 - p) (drop p st))" using False less.prems(3) by auto
      with less.hyps [OF i, of p v0] True False less.prems show ?thesis
        by (subst chats_loop.simps) simp
    qed
  qed
qed


text \<open>What is shown of the fields of messages, users and texts in turn.\<close>

fun show_fields :: "int \<Rightarrow> string list \<Rightarrow> (string \<times> color) list" where
  "show_fields k [] = []"
| "show_fields k [f] = [(f @ [NEWLINE], TUI_COLOR_WHITE)]"
| "show_fields k (f # g # fs) =
     (if k = 0 then (f, TUI_COLOR_BLUE) # ('': '', TUI_COLOR_WHITE) # show_fields 1 (g # fs)
      else (f @ [NEWLINE], TUI_COLOR_WHITE) # show_fields 0 (g # fs))"

definition shown :: "(string \<times> color) list \<Rightarrow> client \<Rightarrow> client" where
  "shown segs c = c\<lparr>output_text := output_text c @ segs, output_drawn := output_drawn c @ map (map_prod c_str id) segs\<rparr>"

lemma shown_simps [simp]:
  "shown [] c = c" "shown b (shown a c) = shown (a @ b) c" "tui_output s col c = shown [(s, col)] c"
  by (simp_all add: shown_def tui_output_def print_output_text_def)

lemma show_fields_Cons: "fs \<noteq> [] \<Longrightarrow> show_fields k (f # fs) =
  (if k = 0 then [(f, TUI_COLOR_BLUE), ('': '', TUI_COLOR_WHITE)] else [(f @ [NEWLINE], TUI_COLOR_WHITE)]) @
  show_fields (if k = 0 then 1 else 0) fs"
  by (cases fs) auto

lemma message_loop_split:
  assumes "p \<le> i" "i \<le> length st" "BAR \<notin> set (take (i - p) (drop p st))" "k = 0 \<or> k = 1"
  shows "(let (last_sep, c1) = message_loop st i k (int p - 1) c in
      tui_output (substr st (last_sep + 1) (int (length st) - last_sep - 1) @ [NEWLINE]) TUI_COLOR_WHITE c1) =
    shown (show_fields k (split_all (drop p st))) c"
  using assms
proof (induction "length st - i" arbitrary: p i k c rule: less_induct)
  case less
  show ?case
  proof (cases "i < length st")
    case False
    then have "take (i - p) (drop p st) = drop p st" using less.prems(2) by simp
    then have "split_all (drop p st) = [drop p st]" using less.prems(3) by (metis split_all_no_bar)
    with False less.prems(1,2) show ?thesis
      by (subst message_loop.simps) (simp add: substr_def nat_diff_distrib)
  next
    case True
    then have i: "length st - (i + 1) < length st - i" by simp
    have split: "drop p st = take (i - p) (drop p st) @ st ! i # drop (i + 1) st"
      using True less.prems(1) by (metis Cons_nth_drop_Suc Suc_eq_plus1 append_take_drop_id drop_drop le_add_diff_inverse2)
    show ?thesis
    proof (cases "st ! i = BAR")
      case bar: True
      have "substr st (int p - 1 + 1) (int i - (int p - 1) - 1) = take (i - p) (drop p st)"
        using less.prems(1) by (simp add: substr_def nat_diff_distrib)
      moreover have "split_all (drop p st) = take (i - p) (drop p st) # split_all (drop (i + 1) st)"
        using split_all_append [OF less.prems(3)] split bar by metis
      ultimately show ?thesis
        using less.hyps [OF i, of "i + 1" 1] less.hyps [OF i, of "i + 1" 0] True bar less.prems(4)
        by (subst message_loop.simps) (auto simp: algebra_simps show_fields_Cons)
    next
      case False
      have "take (i + 1 - p) (drop p st) = take (i - p) (drop p st) @ [st ! i]"
        using True less.prems(1) by (simp add: Suc_diff_le take_Suc_conv_app_nth)
      then have "BAR \<notin> set (take (i + 1 - p) (drop p st))" using False less.prems(3) by auto
      with less.hyps [OF i, of p k c] True False less.prems show ?thesis
        by (subst message_loop.simps) simp
    qed
  qed
qed

lemma print_messages: "print_end st PRINT_MESSAGE e c = Some (shown (show_fields 0 (split_all st)) c)"
  using message_loop_split [of 0 0 st 0 c] by (simp add: print_end_def Let_def split: prod.splits)

lemma print_chats_info: "print_end st PRINT_CHAT_INFO e c = update_chats (split_all st) c"
  using chats_loop_split [of 0 0 st "[]"] by (auto simp: print_end_def Let_def split: prod.splits)

lemma show_messages:
  "show_fields 0 (concat (map (\<lambda>(u, t). [u, t]) ms)) =
    concat (map (\<lambda>(u, t). [(u, TUI_COLOR_BLUE), ('': '', TUI_COLOR_WHITE), (t @ [NEWLINE], TUI_COLOR_WHITE)]) ms)"
proof (induction ms)
  case (Cons m ms)
  then show ?case by (cases ms) (auto split: prod.splits)
qed simp

section \<open>Lemmas: the list of chats\<close>

definition chosen_ok :: "client \<Rightarrow> bool" where
  "chosen_ok c \<longleftrightarrow> 0 \<le> now_choice c \<and> (chat_list c \<noteq> [] \<longrightarrow> now_choice c < int (length (chat_list c))) \<and>
     length (chat_list c) < 2 ^ 63"

lemma chosen_ok_get: "chosen_ok c \<Longrightarrow> chat_list c \<noteq> [] \<Longrightarrow> now_choice_get c = Some (chat_list c ! nat (now_choice c))"
  by (simp add: chosen_ok_def now_choice_get_def)

text \<open>The window of chats shows the list, with the mark at the chosen one.\<close>

definition rows :: "client \<Rightarrow> (string \<times> color) list" where
  "rows c = concat (map (\<lambda>i. chat_row (int i = now_choice c) (chat_list c ! i)) [0..<length (chat_list c)])"

definition interface_ok :: "client \<Rightarrow> bool" where
  "interface_ok c \<longleftrightarrow> chosen_ok c \<and> chats_text c = rows c"

lemma print_chats_ok: "chosen_ok c \<Longrightarrow> chats_text c = [] \<Longrightarrow> print_chats c = Some (c\<lparr>chats_text := rows c\<rparr>)"
  by (cases "chat_list c = []") (simp_all add: print_chats_def chosen_ok_get rows_def)

lemma interface_ok_drawn: "chosen_ok c \<Longrightarrow> interface_ok (c\<lparr>chats_text := rows c\<rparr>)"
  by (simp add: interface_ok_def chosen_ok_def rows_def)

lemma add_chats_text [simp]: "chats_text (add_chats name chats i c) = chats_text c"
  by (induction name chats i c rule: add_chats.induct) (simp_all add: Let_def)

definition adding :: "string \<Rightarrow> nat \<Rightarrow> client \<Rightarrow> bool" where
  "adding name i c \<longleftrightarrow> i = 4 * length (chat_list c) \<and> 0 \<le> now_choice c \<and>
     (chat_list c = [] \<longrightarrow> now_choice c = 0) \<and> (chat_list c \<noteq> [] \<longrightarrow> now_choice c < int (length (chat_list c))) \<and>
     (name \<in> el_chat_name ` set (chat_list c) \<longrightarrow> el_chat_name (chat_list c ! nat (now_choice c)) = name)"

lemma add_chats_adding:
  "adding name i c \<Longrightarrow> adding name (4 * length (chat_list (add_chats name chats i c))) (add_chats name chats i c) \<and>
    length (chat_list (add_chats name chats i c)) \<le> length (chat_list c) + length chats"
proof (induction name chats i c rule: add_chats.induct)
  case (1 now_ch mode name user t chats i c)
  let ?c1 = "chat_buffer_add (mode = ''GROUP'') name user t c"
  let ?c2 = "if name = now_ch then set_now_choice (int ((i + 3) div 4)) ?c1 else ?c1"
  have i: "i = 4 * length (chat_list c)" using 1(2) by (simp add: adding_def)
  then have "(i + 3) div 4 = length (chat_list c)" by simp
  with 1(2) have "adding now_ch (i + 4) ?c2"
    by (cases "chat_list c = []") (auto simp: adding_def nth_append nat_less_iff)
  with 1(1) [OF refl refl this] show ?case by (cases "name = now_ch") (simp_all add: Let_def)
qed (auto simp: adding_def)

lemma update_chats_choice_ok:
  assumes "interface_ok c" "length chats < 2 ^ 63"
  shows "\<exists>c'. update_chats chats c = Some c' \<and> interface_ok c' \<and>
    (\<forall>el. now_choice_get c = Some el \<and> chat_list c \<noteq> [] \<and> el_chat_name el \<noteq> '''' \<and> el_chat_name el \<in> el_chat_name ` set (chat_list c') \<longrightarrow>
       (\<exists>el'. now_choice_get c' = Some el' \<and> el_chat_name el' = el_chat_name el))"
proof -
  have ok: "chosen_ok c" using assms(1) by (simp add: interface_ok_def)
  let ?same = "chat_list c \<noteq> [] \<and> length chats \<ge> 4 \<and> chats ! 1 = el_chat_name (hd (chat_list c)) \<and>
       chats ! 2 = last_user_name (hd (chat_list c)) \<and> chats ! 3 = last_message (hd (chat_list c))"
  show ?thesis
  proof (cases "chats = [] \<or> ?same")
    case True
    with assms(1) show ?thesis by (auto simp: update_chats_def)
  next
    case False
    define name where "name = (if chat_list c \<noteq> [] then el_chat_name (chat_list c ! nat (now_choice c)) else '''')"
    define c1 where "c1 = add_chats name chats 0 (clear_chats c)"
    define c2 where "c2 = (if name = '''' then c1\<lparr>now_choice := 0\<rparr> else c1)"
    have ad: "adding name (4 * length (chat_list c1)) c1" "length (chat_list c1) \<le> length chats"
      using add_chats_adding [of name 0 "clear_chats c" chats] by (auto simp: c1_def adding_def clear_chats_def)
    have "chats_text c1 = []" by (simp add: c1_def clear_chats_def)
    then have c2: "chosen_ok c2" "chats_text c2 = []"
      using ad assms(2) by (auto simp: c2_def chosen_ok_def adding_def)
    have "update_chats chats c = print_chats c2"
      using False chosen_ok_get [OF ok] by (auto simp: update_chats_def name_def c1_def c2_def Let_def)
    then have "update_chats chats c = Some (c2\<lparr>chats_text := rows c2\<rparr>)" using print_chats_ok [OF c2] by simp
    moreover have "\<exists>el'. now_choice_get c1 = Some el' \<and> el_chat_name el' = name"
      if "name \<in> el_chat_name ` set (chat_list c1)"
      using ad(1) that by (auto simp: now_choice_get_def adding_def)
    ultimately show ?thesis using chosen_ok_get [OF ok] interface_ok_drawn [OF c2(1)]
      by (auto simp: name_def c2_def now_choice_get_def)
  qed
qed

lemma chosen_ok_output [simp]:
  "chosen_ok (shown segs c) = chosen_ok c" "chosen_ok (request cmd a c) = chosen_ok c" "chosen_ok (clear_output c) = chosen_ok c"
  "chosen_ok (c\<lparr>client_state := st\<rparr>) = chosen_ok c" "chosen_ok (c\<lparr>client_login := l\<rparr>) = chosen_ok c"
  "chosen_ok (c\<lparr>input_text := t\<rparr>) = chosen_ok c" "chosen_ok (c\<lparr>now_window := w\<rparr>) = chosen_ok c"
  "chosen_ok (c\<lparr>last_update_id := i\<rparr>) = chosen_ok c" "chosen_ok (enter_chat st n c) = chosen_ok c"
  "chosen_ok (clear_chats c)"
  by (simp_all add: chosen_ok_def shown_def request_def clear_output_def clear_chats_def enter_chat_def Let_def)

lemma interface_ok_same:
  "chat_list c' = chat_list c \<Longrightarrow> now_choice c' = now_choice c \<Longrightarrow> chats_text c' = chats_text c \<Longrightarrow>
   interface_ok c' = interface_ok c"
  by (simp add: interface_ok_def chosen_ok_def rows_def)

lemma interface_ok_output [simp]:
  "interface_ok (shown segs c) = interface_ok c" "interface_ok (request cmd a c) = interface_ok c"
  "interface_ok (clear_output c) = interface_ok c" "interface_ok (c\<lparr>client_state := st\<rparr>) = interface_ok c"
  "interface_ok (c\<lparr>client_login := l\<rparr>) = interface_ok c" "interface_ok (c\<lparr>input_text := t\<rparr>) = interface_ok c"
  "interface_ok (c\<lparr>now_window := w\<rparr>) = interface_ok c"
  by (rule interface_ok_same; simp add: shown_def request_def clear_output_def Let_def)+

lemma interface_ok_cleared [simp]: "interface_ok (clear_chats c)"
  by (simp add: interface_ok_def chosen_ok_def rows_def clear_chats_def)

lemma interface_ok_help [simp]: "interface_ok (print_help c) = interface_ok c"
  by (cases "client_state c") (simp_all add: print_help_def Let_def)

lemma interface_ok_commands [simp]:
  "interface_ok (cl_login n c) = interface_ok c" "interface_ok (cl_logout c) = interface_ok c"
  "interface_ok (cl_join n c) = interface_ok c" "interface_ok (cl_private n c) = interface_ok c"
  "interface_ok (cl_create_chat n c) = interface_ok c" "interface_ok (cl_push n c) = interface_ok c"
  "interface_ok (cl_chats c) = interface_ok c"
  by (simp_all add: cl_login_def cl_logout_def cl_join_def cl_private_def cl_create_chat_def cl_push_def cl_chats_def)

lemma now_choice_up_ok: "chosen_ok c \<Longrightarrow> now_choice_up c = Some c' \<Longrightarrow> chosen_ok c'"
  by (auto simp: now_choice_up_def chosen_ok_def split: if_splits)

lemma now_choice_down_ok:
  assumes "chosen_ok c" "now_choice_down c = Some c'"
  shows "chosen_ok c'"
proof (cases "chat_list c = []")
  case True
  with assms show ?thesis by (auto simp: now_choice_down_def chosen_ok_def split: if_splits)
next
  case False
  then have "sz_sub (length (chat_list c)) 1 = length (chat_list c) - 1" "now_choice c mod 2 ^ 64 = now_choice c"
    using assms(1) by (cases "chat_list c"; auto simp: chosen_ok_def sz_sub_small)+
  with assms False show ?thesis by (auto simp: now_choice_down_def chosen_ok_def split: if_splits)
qed

text \<open>The commands that take an argument.\<close>

definition bare_commands :: "string set" where
  "bare_commands = {''login'', ''private'', ''join'', ''create''}"

lemma input_fields:
  assumes "length t < 2 ^ 31"
  shows "string_parser t 2 [] (CHR '' '') ! 0 = takeWhile (\<lambda>ch. ch \<noteq> CHR '' '') t"
    "length (string_parser t 2 [] (CHR '' '')) < 2 \<longleftrightarrow> CHR '' '' \<notin> set t"
proof -
  have v: "string_parser t 2 [] (CHR '' '') = (if CHR '' '' \<in> set t
      then [takeWhile (\<lambda>ch. ch \<noteq> CHR '' '') t, tl (dropWhile (\<lambda>ch. ch \<noteq> CHR '' '') t)] else [t])"
    unfolding string_parser_numeral(1) [OF assms] One_nat_def cut_at.simps by (simp only: append.simps)
  have id: "CHR '' '' \<notin> set t \<Longrightarrow> takeWhile (\<lambda>ch. ch \<noteq> CHR '' '') t = t"
    by (induction t) auto
  show "string_parser t 2 [] (CHR '' '') ! 0 = takeWhile (\<lambda>ch. ch \<noteq> CHR '' '') t"
    using v id by (metis nth_Cons_0)
  show "length (string_parser t 2 [] (CHR '' '')) < 2 \<longleftrightarrow> CHR '' '' \<notin> set t"
    unfolding v by (cases "CHR '' '' \<in> set t") simp_all
qed

lemma input_handler_None:
  assumes "length t < 2 ^ 31"
  shows "input_handler t c = None \<longleftrightarrow> client_state c \<in> {NotLogin, InMainMenu} \<and> t \<in> bare_commands"
proof -
  define cmd where "cmd = takeWhile (\<lambda>ch. ch \<noteq> CHR '' '') t"
  have cmd_t: "CHR '' '' \<notin> set t \<Longrightarrow> cmd = t"
    unfolding cmd_def by (induction t) auto
  have bare: "CHR '' '' \<notin> set u" "u \<noteq> ''''" "u \<noteq> ''help''" "u \<noteq> ''logout''" "u \<noteq> ''chats''" if "u \<in> bare_commands" for u
    using that by (auto simp: bare_commands_def)
  have eq: "input_handler t c = None \<longleftrightarrow> t \<noteq> '''' \<and> \<not> (client_state c = InPrivateChat \<or> client_state c = InGroupChat) \<and>
      cmd \<in> bare_commands \<and> CHR '' '' \<notin> set t"
    unfolding input_handler_def Let_def input_fields [OF assms] bare_commands_def [symmetric] cmd_def [symmetric]
    using bare [of cmd] by auto
  have "client_state c \<in> {NotLogin, InMainMenu} \<longleftrightarrow> \<not> (client_state c = InPrivateChat \<or> client_state c = InGroupChat)"
    by (cases "client_state c") auto
  with eq cmd_t bare [of t] show ?thesis by metis
qed

lemma input_handler_chosen:
  assumes "interface_ok c" "input_handler t c = Some c'"
  shows "interface_ok c'"
  using assms by (auto simp: input_handler_def Let_def split: if_split_asm)

text \<open>Keys that move the choice, or resize, draw the list again.\<close>

lemma redraw:
  assumes "chosen_ok c"
  shows "\<exists>c'. print_chats (c\<lparr>chats_text := []\<rparr>) = Some c' \<and> interface_ok c'"
proof -
  have ok: "chosen_ok (c\<lparr>chats_text := []\<rparr>)" using assms by (simp add: chosen_ok_def)
  show ?thesis using print_chats_ok [OF ok] interface_ok_drawn [OF ok] by auto
qed

lemma fold_print: "fold print_output_text els c = c\<lparr>output_drawn := output_drawn c @ map (map_prod c_str id) els\<rparr>"
  by (induction els arbitrary: c) (simp_all add: print_output_text_def map_prod_def split_beta)

lemma redraw_windows_ok:
  assumes "chosen_ok c"
  shows "\<exists>c'. redraw_windows c = Some c' \<and> interface_ok c'"
proof -
  let ?c = "c\<lparr>output_drawn := map (map_prod c_str id) (output_text c)\<rparr>"
  have "chosen_ok ?c" using assms by (simp add: chosen_ok_def)
  from redraw [OF this] have "\<exists>c'. print_chats (?c\<lparr>chats_text := []\<rparr>) = Some c' \<and> interface_ok c'" .
  moreover have "?c\<lparr>chats_text := []\<rparr> = c\<lparr>chats_text := [], output_drawn := map (map_prod c_str id) (output_text c)\<rparr>"
    by (cases c) simp
  ultimately show ?thesis unfolding redraw_windows_def Let_def fold_print by simp
qed

text \<open>The window of output shows what is remembered of it.\<close>

definition drawn_ok :: "client \<Rightarrow> bool" where
  "drawn_ok c \<longleftrightarrow> output_drawn c = map (map_prod c_str id) (output_text c)"

lemma drawn_ok_same: "output_drawn c' = output_drawn c \<Longrightarrow> output_text c' = output_text c \<Longrightarrow> drawn_ok c' = drawn_ok c"
  by (simp add: drawn_ok_def)

lemma drawn_ok_output [simp]:
  "drawn_ok (shown segs c) = drawn_ok c" "drawn_ok (request cmd a c) = drawn_ok c" "drawn_ok (clear_output c)"
  "drawn_ok (clear_chats c) = drawn_ok c" "drawn_ok (enter_chat st n c) = drawn_ok c"
  "drawn_ok (c\<lparr>client_state := st\<rparr>) = drawn_ok c" "drawn_ok (c\<lparr>client_login := l\<rparr>) = drawn_ok c"
  "drawn_ok (c\<lparr>input_text := t\<rparr>) = drawn_ok c" "drawn_ok (c\<lparr>now_window := w\<rparr>) = drawn_ok c"
  "drawn_ok (c\<lparr>last_update_id := i\<rparr>) = drawn_ok c" "drawn_ok (c\<lparr>chats_text := t'\<rparr>) = drawn_ok c"
  "drawn_ok (c\<lparr>chat_list := cs\<rparr>) = drawn_ok c" "drawn_ok (c\<lparr>now_choice := j\<rparr>) = drawn_ok c"
  by (simp_all add: drawn_ok_def shown_def request_def clear_output_def clear_chats_def enter_chat_def Let_def)

lemma drawn_ok_print_chats: "print_chats c = Some c' \<Longrightarrow> drawn_ok c' = drawn_ok c"
  by (auto simp: print_chats_def bind_eq_Some_conv split: if_splits)

lemma drawn_ok_redraw: "redraw_windows c = Some c' \<Longrightarrow> drawn_ok c'"
  by (auto simp: redraw_windows_def fold_print drawn_ok_def dest: drawn_ok_print_chats)

lemma drawn_ok_add_chats [simp]: "drawn_ok (add_chats now_ch chats i c) = drawn_ok c"
  by (induction now_ch chats i c rule: add_chats.induct) (simp_all add: Let_def)

lemma drawn_ok_update_chats: "update_chats chats c = Some c' \<Longrightarrow> drawn_ok c' = drawn_ok c"
  by (auto simp: update_chats_def Let_def bind_eq_Some_conv dest!: drawn_ok_print_chats split: if_split_asm)

lemma interface_ok_key:
  assumes "interface_ok c" "tui_key k c = Some c'"
  shows "interface_ok c'"
proof -
  have ok: "chosen_ok c" using assms(1) by (simp add: interface_ok_def)
  note moves = redraw [OF ok] redraw [OF now_choice_down_ok [OF ok]] redraw [OF now_choice_up_ok [OF ok]]
    redraw_windows_ok [OF ok]
  show ?thesis
  proof (cases k)
    case Key_enter
    then show ?thesis using assms input_handler_chosen [OF assms(1)]
      by (auto simp: tui_key_def choose_chat_def bind_eq_Some_conv split: if_split_asm)
  qed (use assms moves in \<open>fastforce simp: tui_key_def back_to_menu_def split: if_split_asm option.split_asm\<close>)+
qed

lemma drawn_ok_help [simp]: "drawn_ok (print_help c) = drawn_ok c"
  by (cases "client_state c") (simp_all add: print_help_def Let_def)

lemma drawn_ok_commands [simp]:
  "drawn_ok (cl_login n c) = drawn_ok c" "drawn_ok (cl_logout c) = drawn_ok c"
  "drawn_ok (cl_join n c) = drawn_ok c" "drawn_ok (cl_private n c) = drawn_ok c"
  "drawn_ok (cl_create_chat n c) = drawn_ok c" "drawn_ok (cl_push n c) = drawn_ok c"
  "drawn_ok (cl_chats c) = drawn_ok c"
  by (simp_all add: cl_login_def cl_logout_def cl_join_def cl_private_def cl_create_chat_def cl_push_def cl_chats_def)

lemma drawn_ok_input: "drawn_ok c \<Longrightarrow> input_handler t c = Some c' \<Longrightarrow> drawn_ok c'"
  by (auto simp: input_handler_def Let_def split: if_split_asm)

lemma drawn_ok_key:
  assumes "drawn_ok c" "tui_key k c = Some c'"
  shows "drawn_ok c'"
proof (cases k)
  case Key_resize
  with assms show ?thesis by (simp add: tui_key_def drawn_ok_redraw)
next
  case Key_enter
  with assms show ?thesis
    by (auto simp: tui_key_def choose_chat_def bind_eq_Some_conv dest: drawn_ok_input split: if_split_asm)
qed (use assms in \<open>auto simp: tui_key_def back_to_menu_def now_choice_up_def now_choice_down_def
       dest!: drawn_ok_print_chats split: if_split_asm\<close>)

text \<open>Answers.\<close>

definition windows_ok :: "client \<Rightarrow> bool" where
  "windows_ok c \<longleftrightarrow> interface_ok c \<and> drawn_ok c"

lemma cut_at_length: "f \<in> set (cut_at k sep st) \<Longrightarrow> length f \<le> length st"
proof (induction k sep st rule: cut_at.induct)
  case (2 k sep st)
  have "length (takeWhile (\<lambda>c. c \<noteq> sep) st) \<le> length st" "length (tl (dropWhile (\<lambda>c. c \<noteq> sep) st)) \<le> length st"
    using length_takeWhile_le [of "\<lambda>c. c \<noteq> sep" st] length_dropWhile_le [of "\<lambda>c. c \<noteq> sep" st] by auto
  with 2 show ?case by (fastforce split: if_split_asm)
qed simp

lemma length_split_all: "length (split_all st) \<le> length st + 1"
  by (induction st) auto

lemma windows_ok_output [simp]:
  "windows_ok (shown segs c) = windows_ok c" "windows_ok (c\<lparr>client_state := st\<rparr>) = windows_ok c"
  "windows_ok (enter_chat st n c) = windows_ok c" "windows_ok (c\<lparr>last_update_id := i\<rparr>) = windows_ok c"
  "windows_ok (request cmd a c) = windows_ok c"
  by (simp_all add: windows_ok_def) (simp_all add: interface_ok_def chosen_ok_def rows_def enter_chat_def)

lemma windows_ok_update_chats:
  assumes "windows_ok c" "length chats < 2 ^ 63" "update_chats chats c = Some c'"
  shows "windows_ok c'"
proof -
  have "interface_ok c'" using update_chats_choice_ok [OF _ assms(2), of c] assms(1,3) by (auto simp: windows_ok_def)
  with drawn_ok_update_chats [OF assms(3)] assms(1) show ?thesis by (simp add: windows_ok_def)
qed

lemma windows_ok_answer:
  assumes "windows_ok c" "length answer < 2 ^ 31" "answer_handler answer c = Some c'"
  shows "windows_ok c'"
proof -
  let ?ps = "string_parser answer 3 [] BAR"
  define args where "args = (if length ?ps = 2 then '''' else ?ps ! 2)"
  have ps: "?ps = cut_at 2 BAR answer" using string_parser_numeral(2) [OF assms(2), of "[]"] by simp
  have args: "length args < 2 ^ 31" if "length ?ps \<ge> 2"
  proof (cases "length ?ps = 2")
    case False
    then have "?ps ! 2 \<in> set ?ps" using that by (intro nth_mem) linarith
    from cut_at_length [OF this [unfolded ps]] show ?thesis using assms(2) False unfolding ps args_def by simp
  qed (simp add: args_def)
  have chats: "windows_ok c''" if "rec_chats args c = Some c''" "length ?ps \<ge> 2" for c''
    using that args length_split_all [of args] windows_ok_update_chats [OF assms(1), of "split_all args"] assms(1)
    by (auto simp: rec_chats_def print_chats_info split: if_split_asm)
  have msgs: "windows_ok c''" if "rec_get_msg args c = Some c''" for c''
    using that assms(1) by (auto simp: rec_get_msg_def print_messages Let_def split: if_split_asm)
  have long: "length ?ps \<ge> 2" using assms(3) by (simp add: answer_handler_def Let_def split: if_split_asm)
  then have "\<not> length ?ps < 2" by simp
  then have "answer_handler answer c =
    (if ?ps ! 1 = ''ERROR'' then Some (print_err (''Error: '' @ args) c)
     else if ?ps ! 0 = ''login'' then Some (rec_login c) else if ?ps ! 0 = ''private'' then Some (rec_private args c)
     else if ?ps ! 0 = ''create'' then Some (rec_create_chat args c) else if ?ps ! 0 = ''join'' then Some (rec_join args c)
     else if ?ps ! 0 = ''get_msg'' then rec_get_msg args c else if ?ps ! 0 = ''chats'' then rec_chats args c else Some c)"
    by (simp only: answer_handler_def Let_def args_def if_False)
  moreover have "windows_ok (print_err t c)" "windows_ok (rec_login c)" "windows_ok (rec_private args c)"
     "windows_ok (rec_create_chat args c)" "windows_ok (rec_join args c)" for t
    using assms(1) by (simp_all add: rec_login_def rec_private_def rec_create_chat_def rec_join_def)
  ultimately show ?thesis using assms(1,3) chats [OF _ long] msgs by (metis option.inject)
qed

lemma windows_ok_step:
  assumes "windows_ok c" "client_step e c = Some c'" "\<forall>answer. e = Answered answer \<longrightarrow> length answer < 2 ^ 31"
  shows "windows_ok c'"
proof (cases e)
  case (Pressed k)
  with assms show ?thesis using interface_ok_key drawn_ok_key by (auto simp: windows_ok_def)
next
  case (Answered answer)
  with assms show ?thesis using windows_ok_answer [of c answer c'] by (auto simp: receive_answer_def split: if_split_asm)
next
  case Updated
  with assms(1,2) show ?thesis by (auto simp: updater_round_def update_chat_def cl_chats_def Let_def split: if_split_asm)
qed

section \<open>Properties\<close>

text \<open>
  C12: what the windows show. In every session, whatever the order of keys, answers and updates, the
  window of output shows the remembered output and the window of chats shows the remembered list
  with a mark at the chosen chat, whose index is inside the list.
\<close>

theorem session_screen:
  assumes "client_run es (print_help (client_init pipe_name)) = Some c" "\<forall>answer. Answered answer \<in> set es \<longrightarrow> length answer < 2 ^ 31"
  shows "output_drawn c = map (map_prod c_str id) (output_text c) \<and>
    chats_text c = concat (map (\<lambda>i. chat_row (int i = now_choice c) (chat_list c ! i)) [0..<length (chat_list c)]) \<and>
    (chat_list c \<noteq> [] \<longrightarrow> 0 \<le> now_choice c \<and> now_choice c < int (length (chat_list c)))"
proof -
  have "windows_ok c" if "client_run es c0 = Some c" "windows_ok c0" for c0
    using that assms(2)
  proof (induction es arbitrary: c0)
    case (Cons e es)
    then obtain c1 where "client_step e c0 = Some c1" "client_run es c1 = Some c" by (auto simp: bind_eq_Some_conv)
    with Cons show ?case using windows_ok_step [of c0 e c1] by auto
  qed simp
  moreover have "windows_ok (client_init pipe_name)"
    by (simp add: windows_ok_def interface_ok_def chosen_ok_def rows_def drawn_ok_def client_init_def)
  then have "windows_ok (print_help (client_init pipe_name))" by (simp add: windows_ok_def)
  ultimately have "windows_ok c" using assms(1) by blast
  then show ?thesis by (auto simp: windows_ok_def interface_ok_def chosen_ok_def drawn_ok_def rows_def)
qed

theorem session_screen_witness:
  "\<exists>c. client_run [Answered ''chats|OK|GROUP|os|ann|hi'', Pressed Key_resize] (print_help (client_init ''/tmp/p'')) = Some c \<and>
     output_drawn c = map (map_prod c_str id) (output_text c) \<and> now_choice c = 0 \<and> length (chat_list c) = 1 \<and> length (chats_text c) = 7"
proof -
  let ?es = "[Answered ''chats|OK|GROUP|os|ann|hi'', Pressed Key_resize]"
  have len: "\<forall>answer. Answered answer \<in> set ?es \<longrightarrow> length answer < 2 ^ 31" by simp
  have "(case client_run ?es (print_help (client_init ''/tmp/p'')) of None \<Rightarrow> False | Some c \<Rightarrow> now_choice c = 0 \<and> length (chat_list c) = 1)"
    by code_simp
  then obtain c where c: "client_run ?es (print_help (client_init ''/tmp/p'')) = Some c" "now_choice c = 0" "length (chat_list c) = 1"
    by (cases "client_run ?es (print_help (client_init ''/tmp/p''))") fastforce+
  from session_screen [OF c(1) len] c(2,3) show ?thesis by (intro exI [of _ c] conjI c(1)) (simp_all add: chat_row_def)
qed



end
