(* ===== verification/Messenger.thy ===== *)
theory Messenger
  imports MessengerServer MessengerClient
begin

text \<open>
  Client and server of the messenger together. What a client writes to the request pipe the server
  can serve; and a client that polls a chat shows every message exactly once and in order, whatever
  else the server does between the polls. A last part is about a race in which it does not.
\<close>

section \<open>Lemmas: a request on the wire\<close>

lemma cut_at_join_more:
  "fs \<noteq> [] \<Longrightarrow> \<forall>f \<in> set fs. sep \<notin> set f \<Longrightarrow> cut_at (length fs - 1 + j) sep (join sep fs) = fs"
proof (induction fs rule: induct_list012)
  case (2 f)
  then show ?case by (cases j) auto
next
  case (3 f g fs)
  then show ?case using cut_at_append [of sep f "length fs + j" "join sep (g # fs)"] by simp
qed auto

definition request_line :: "string \<Rightarrow> string \<Rightarrow> client \<Rightarrow> string" where
  "request_line cmd args c = join BAR ([cmd, response_pipe c, if client_state c = NotLogin then ''__NONE'' else client_login c] @
     (if args = '''' then [] else [args]))"

lemma requests_request [simp]: "requests (request cmd args c) = requests c @ [request_line cmd args c @ [NEWLINE]]"
  by (cases "args = ''''") (simp_all add: request_def request_line_def Let_def)

definition plain :: "client \<Rightarrow> bool" where
  "plain c \<longleftrightarrow> BAR \<notin> set (client_login c) \<and> BAR \<notin> set (response_pipe c)"

lemma request_line_fields:
  assumes "plain c" "BAR \<notin> set cmd"
  shows "req_fields 4 (request_line cmd args c) =
    [cmd, response_pipe c, if client_state c = NotLogin then ''__NONE'' else client_login c] @ (if args = '''' then [] else [args])"
proof -
  define name where "name = (if client_state c = NotLogin then ''__NONE'' else client_login c)"
  let ?fs = "[cmd, response_pipe c, name]"
  have bars: "\<forall>f \<in> set ?fs. BAR \<notin> set f" using assms by (auto simp: plain_def name_def)
  have "length ?fs - 1 + 1 = 3" "length (?fs @ [args]) - 1 = 3" "4 - 1 = (3 :: nat)" by simp_all
  note n = this
  have "cut_at 3 BAR (join BAR ?fs) = ?fs"
    using cut_at_join_more [of ?fs BAR 1] bars unfolding n by blast
  moreover have "cut_at 3 BAR (join BAR (?fs @ [args])) = ?fs @ [args]"
    using cut_at_join [of "?fs @ [args]" BAR] bars unfolding n by simp
  ultimately show ?thesis
    unfolding req_fields_def request_line_def name_def [symmetric] n by (cases "args = ''''") simp_all
qed

text \<open>A request that the server survives, whatever its state.\<close>

definition servable :: "string \<Rightarrow> bool" where
  "servable x \<longleftrightarrow> (length x < 2 ^ 31 \<longrightarrow> (\<forall>now s. request_handler x now s \<noteq> None))"

lemma request_servable:
  assumes "plain c" "BAR \<notin> set cmd" "cmd \<in> {''push_msg'', ''get_msg''} \<longrightarrow> \<not> bad_message_args args"
  shows "servable (request_line cmd args c)"
  unfolding servable_def
proof (intro impI allI)
  fix now s
  assume len: "length (request_line cmd args c) < 2 ^ 31"
  define p where "p = response_pipe c"
  define l where "l = (if client_state c = NotLogin then ''__NONE'' else client_login c)"
  have f: "req_fields 4 (request_line cmd args c) = [cmd, p, l] \<and> args = '''' \<or> req_fields 4 (request_line cmd args c) = [cmd, p, l, args]"
    using request_line_fields [OF assms(1,2), of args] unfolding p_def l_def by (cases "args = ''''") auto
  then have "length args < 2 ^ 31" using fields_short [of args 4 "request_line cmd args c"] len by fastforce
  then show "request_handler (request_line cmd args c) now s \<noteq> None"
    using assms(3) user_command_None [of args cmd p _ now s]
    by (auto simp: request_handler_fields [OF len f] simp del: not_None_eq split: option.split)
qed

lemma message_args_ok: "m \<in> {CMD_ARG_GROUP, CMD_ARG_PRIVATE} \<Longrightarrow> \<not> bad_message_args (m @ BAR # a @ BAR # b)"
proof -
  assume m: "m \<in> {CMD_ARG_GROUP, CMD_ARG_PRIVATE}"
  have bar: "BAR \<notin> set m" using m by auto
  have "req_fields 3 (m @ BAR # a @ BAR # b) = m # cut_at 1 BAR (a @ BAR # b)"
    using cut_at_append [OF bar, of 1 "a @ BAR # b"] by (simp add: req_fields_def numeral_2_eq_2)
  moreover have "length (cut_at 1 BAR (a @ BAR # b)) = 2" by simp
  ultimately show ?thesis using m by (simp add: bad_message_args_def)
qed

text \<open>What a step of a client adds to the request pipe.\<close>

definition sends :: "client \<Rightarrow> client \<Rightarrow> bool" where
  "sends c c' \<longleftrightarrow> plain c' \<and> (\<exists>xs. requests c' = requests c @ map (\<lambda>x. x @ [NEWLINE]) xs \<and> (\<forall>x \<in> set xs. servable x))"

lemma sends_same: "plain c \<Longrightarrow> requests c' = requests c \<Longrightarrow> client_login c' = client_login c \<Longrightarrow>
  response_pipe c' = response_pipe c \<Longrightarrow> sends c c'"
  by (auto simp: sends_def plain_def)

lemma sends_trans: "sends c c1 \<Longrightarrow> sends c1 c2 \<Longrightarrow> sends c c2"
  unfolding sends_def by (metis UnE append_assoc map_append set_append)

lemma sends_request:
  assumes "plain c" "BAR \<notin> set cmd" "cmd \<in> {''push_msg'', ''get_msg''} \<longrightarrow> \<not> bad_message_args args"
  shows "sends c (request cmd args c)"
  unfolding sends_def
proof
  show "plain (request cmd args c)" using assms(1) by (simp add: plain_def request_def Let_def)
  show "\<exists>xs. requests (request cmd args c) = requests c @ map (\<lambda>x. x @ [NEWLINE]) xs \<and> (\<forall>x \<in> set xs. servable x)"
    using request_servable [OF assms] by (intro exI [of _ "[request_line cmd args c]"]) simp
qed


lemma plain_simps [simp]:
  "plain (shown segs c) = plain c" "plain (clear_output c) = plain c" "plain (clear_chats c) = plain c"
  "plain (c\<lparr>client_state := st\<rparr>) = plain c" "plain (c\<lparr>input_text := t\<rparr>) = plain c"
  "plain (c\<lparr>now_window := w\<rparr>) = plain c" "plain (c\<lparr>last_update_id := i\<rparr>) = plain c" "plain (enter_chat st n c) = plain c"
  "plain (c\<lparr>now_choice := j\<rparr>) = plain c" "plain (c\<lparr>chat_list := l\<rparr>) = plain c" "plain (c\<lparr>chats_text := t'\<rparr>) = plain c"
  "plain (c\<lparr>output_drawn := d\<rparr>) = plain c"
  by (simp_all add: plain_def shown_def clear_output_def clear_chats_def enter_chat_def)

lemma requests_simps [simp]:
  "requests (shown segs c) = requests c" "requests (clear_output c) = requests c" "requests (clear_chats c) = requests c"
  "requests (enter_chat st n c) = requests c"
  by (simp_all add: shown_def clear_output_def clear_chats_def enter_chat_def)

text \<open>Steps that only change what the interface holds.\<close>

definition quiet :: "client \<Rightarrow> client \<Rightarrow> bool" where
  "quiet c c' \<longleftrightarrow> requests c' = requests c \<and> plain c' = plain c"

lemma quiet_simps [simp]:
  "quiet c c" "quiet c (shown segs c1) = quiet c c1" "quiet c (clear_output c1) = quiet c c1"
  "quiet c (clear_chats c1) = quiet c c1" "quiet c (c1\<lparr>client_state := st\<rparr>) = quiet c c1"
  "quiet c (c1\<lparr>input_text := t\<rparr>) = quiet c c1" "quiet c (c1\<lparr>now_window := w\<rparr>) = quiet c c1"
  "quiet c (c1\<lparr>last_update_id := i\<rparr>) = quiet c c1" "quiet c (enter_chat st n c1) = quiet c c1"
  "quiet c (c1\<lparr>now_choice := j\<rparr>) = quiet c c1" "quiet c (c1\<lparr>chat_list := l\<rparr>) = quiet c c1"
  "quiet c (c1\<lparr>chats_text := t'\<rparr>) = quiet c c1" "quiet c (c1\<lparr>output_drawn := d\<rparr>) = quiet c c1"
  by (simp_all add: quiet_def)

lemma quiet_help [simp]: "quiet c (print_help c1) = quiet c c1"
  by (cases "client_state c1") (simp_all add: print_help_def Let_def)

lemma quiet_add_chats [simp]: "quiet c (add_chats n chats i c1) = quiet c c1"
  by (induction n chats i c1 rule: add_chats.induct) (simp_all add: Let_def)

lemma quiet_drawn: "print_chats c1 = Some c' \<Longrightarrow> quiet c c' = quiet c c1"
  by (auto simp: print_chats_def quiet_def plain_def bind_eq_Some_conv split: if_split_asm)

lemma quiet_redraw: "redraw_windows c = Some c' \<Longrightarrow> quiet c c'"
  by (auto simp: redraw_windows_def fold_print quiet_drawn)

lemma quiet_update_chats: "update_chats chats c = Some c' \<Longrightarrow> quiet c c'"
  by (auto simp: update_chats_def Let_def quiet_drawn bind_eq_Some_conv split: if_split_asm)

lemma sends_quiet: "plain c \<Longrightarrow> sends c c1 \<Longrightarrow> quiet c1 c2 \<Longrightarrow> sends c c2"
  by (simp add: sends_def quiet_def)

lemma sends_refl: "plain c \<Longrightarrow> sends c c"
  by (simp add: sends_def)

lemma sends_message: "plain c \<Longrightarrow> cmd \<in> {''push_msg'', ''get_msg''} \<Longrightarrow> m \<in> {CMD_ARG_GROUP, CMD_ARG_PRIVATE} \<Longrightarrow>
  sends c (request cmd (m @ BAR # a @ BAR # b) c)"
  by (rule sends_request) (use message_args_ok in auto)

lemma sends_other: "plain c \<Longrightarrow> cmd \<in> {''login'', ''logout'', ''join'', ''private'', ''create'', ''chats''} \<Longrightarrow> sends c (request cmd args c)"
  by (rule sends_request) auto

lemma sends_cong: "sends c c1 \<Longrightarrow> requests c2 = requests c \<Longrightarrow> sends c2 c1"
  by (simp add: sends_def)

lemma sends_commands:
  assumes "plain c"
  shows "sends c (cl_login n c)" "sends c (cl_logout c)" "sends c (cl_join n c)" "sends c (cl_private n c)"
    "sends c (cl_create_chat n c)" "sends c (cl_push n c)" "sends c (cl_chats c)" "sends c (update_chat i c)"
proof -
  note [simp] = sends_other [OF assms] sends_refl [OF assms] assms
  have quiet: "sends c (shown segs c1)" if "sends c c1" for segs c1 using that by (simp add: sends_def)
  have quiet2: "sends c (c1\<lparr>client_state := st\<rparr>)" if "sends c c1" for st c1 using that by (simp add: sends_def)
  have "sends (c\<lparr>client_login := n\<rparr>) (request ''login'' n (c\<lparr>client_login := n\<rparr>))" if "BAR \<notin> set n"
    by (rule sends_other) (use that assms in \<open>simp_all add: plain_def\<close>)
  then have login: "sends c (request ''login'' n (c\<lparr>client_login := n\<rparr>))" if "BAR \<notin> set n"
    using that sends_cong by fastforce
  then show "sends c (cl_login n c)" by (auto simp: cl_login_def intro: quiet)
  have "sends c (shown segs ((request ''logout'' args c)\<lparr>client_state := st\<rparr>))" for segs args st
    by (intro quiet quiet2) simp
  then show "sends c (cl_logout c)" by (simp add: cl_logout_def quiet)
  show "sends c (cl_join n c)" by (auto simp: cl_join_def intro: quiet)
  show "sends c (cl_private n c)" by (auto simp: cl_private_def intro: quiet)
  show "sends c (cl_create_chat n c)" by (auto simp: cl_create_chat_def intro: quiet)
  show "sends c (cl_chats c)" by (simp add: cl_chats_def)
  show "sends c (update_chat i c)" using sends_message [OF assms, of "''get_msg''"] by (simp add: update_chat_def)
  have "sends (shown segs c) (request ''push_msg'' (m @ BAR # a @ BAR # b) (shown segs c))" if "m \<in> {CMD_ARG_GROUP, CMD_ARG_PRIVATE}" for segs m a b
    by (rule sends_message) (use that in auto)
  then have "sends c (request ''push_msg'' (m @ BAR # a @ BAR # b) (shown segs c))" if "m \<in> {CMD_ARG_GROUP, CMD_ARG_PRIVATE}" for segs m a b
    using that sends_cong by fastforce
  then show "sends c (cl_push n c)" using sends_message [OF assms, of "''push_msg''"]
    by (auto simp: cl_push_def Let_def intro: quiet)
qed

lemma sends_input:
  assumes "plain c" "input_handler t c = Some c'"
  shows "sends c c'"
proof -
  have "sends c (cl_logout (clear_chats (clear_output c)))"
    using sends_commands(2) [of "clear_chats (clear_output c)"] assms(1) by (simp add: sends_def)
  moreover have "sends c (print_help c)" "sends c (shown segs c)" for segs
    using sends_quiet [OF assms(1) sends_refl [OF assms(1)]] by simp_all
  ultimately show ?thesis
    using assms sends_commands [OF assms(1)] sends_refl
    by (auto simp: input_handler_def Let_def split: if_split_asm)
qed


lemma sends_key:
  assumes "plain c" "tui_key k c = Some c'"
  shows "sends c c'"
proof -
  note quiet = sends_quiet [OF assms(1) sends_refl [OF assms(1)]]
  have "sends c (choose_chat n b c)" for n b
    using sends_commands(3,4) [of "clear_output c" n] assms(1) by (simp add: choose_chat_def sends_def)
  moreover have "sends c (c1\<lparr>input_text := t\<rparr>)" if "sends c c1" for c1 t
    using that by (simp add: sends_def)
  moreover have "sends c (print_help c)" "sends c (back_to_menu c)" using quiet by (simp_all add: back_to_menu_def)
  moreover have "sends c c'" if "print_chats (c1\<lparr>chats_text := []\<rparr>) = Some c'"
    "c1 = c \<or> now_choice_down c = Some c1 \<or> now_choice_up c = Some c1" for c1
    by (rule quiet) (use that in \<open>auto simp: now_choice_down_def now_choice_up_def quiet_drawn split: if_split_asm\<close>)
  ultimately show ?thesis
    using assms sends_input [OF assms(1)] sends_refl quiet
    by (cases k) (auto simp: tui_key_def split: if_split_asm option.split_asm dest: quiet_redraw)
qed

lemma sends_updater: "plain c \<Longrightarrow> sends c (updater_round c)"
proof -
  assume plain: "plain c"
  have "sends c (cl_chats (update_chat i c))" for i
    using sends_trans [OF sends_commands(8) [OF plain] sends_commands(7)] sends_commands(8) [OF plain]
    by (auto simp: sends_def)
  with sends_commands(7) [OF plain] sends_refl [OF plain] show ?thesis by (simp add: updater_round_def)
qed

lemma sends_answer:
  assumes "plain c" "receive_answer a c = Some c'"
  shows "sends c c'"
proof -
  have "quiet c c'"
    using assms(2) quiet_update_chats
    by (auto simp: receive_answer_def answer_handler_def rec_login_def rec_join_def rec_private_def rec_create_chat_def
        rec_chats_def rec_get_msg_def print_messages print_chats_info Let_def split: if_split_asm)

  then show ?thesis by (rule sends_quiet [OF assms(1) sends_refl [OF assms(1)]])
qed

section \<open>Properties: requests\<close>

lemma sends_run:
  "plain c \<Longrightarrow> client_run es c = Some c' \<Longrightarrow> sends c c'"
proof (induction es arbitrary: c)
  case (Cons e es)
  obtain c1 where c1: "client_step e c = Some c1" "client_run es c1 = Some c'"
    using Cons.prems(2) by (auto simp: bind_eq_Some_conv)
  have "sends c c1"
    using c1(1) sends_key [OF Cons.prems(1)] sends_answer [OF Cons.prems(1)] sends_updater [OF Cons.prems(1)] by (cases e) auto
  moreover from this have "sends c1 c'" using Cons.IH [OF _ c1(2)] sends_def by blast
  ultimately show ?case by (rule sends_trans)
qed (simp add: sends_refl)



section \<open>Polling a chat\<close>

text \<open>
  One poll: the client asks for the messages behind the last one it knows, the server serves the
  request, the client handles the answer. Between polls the server serves other requests.
\<close>

definition poll :: "int \<Rightarrow> client \<Rightarrow> server \<Rightarrow> (client \<times> server) option" where
  "poll now c s =
    (let c1 = update_chat (last_update_id c) c in do {
       s1 \<leftarrow> serve_requests [(butlast (last (requests c1)), now)] s;
       c2 \<leftarrow> receive_answer (butlast (snd (last (pipes s1)))) c1;
       Some (c2, s1)
     })"

fun poll_rounds :: "(string \<times> int) list list \<Rightarrow> client \<Rightarrow> server \<Rightarrow> (client \<times> server) option" where
  "poll_rounds [] c s = Some (c, s)"
| "poll_rounds (rs # rss) c s = do { s1 \<leftarrow> serve_requests rs s; (c1, s2) \<leftarrow> poll 0 c s1; poll_rounds rss c1 s2 }"

definition seen_id :: "message list \<Rightarrow> 64 word" where
  "seen_id ms = (if ms = [] then 0 else msg_id (last ms))"

lemma seen_id_append: "seen_id (old @ new) = (if new = [] then seen_id old else seen_id new)"
  by (simp add: seen_id_def)

lemma collect_old: "\<forall>m \<in> set ms. msg_id m \<le> i \<Longrightarrow> collect i (ms @ ms') (a, l) = collect i ms' (a, l)"
  by (induction ms) (auto simp: not_less)

lemma collect_new_ones:
  "sorted_wrt (\<lambda>a b. msg_id a < msg_id b) ms \<Longrightarrow> \<forall>m \<in> set ms. i < msg_id m \<and> l < msg_id m \<Longrightarrow>
   collect i ms (a, l) = (a @ concat (map fields_of ms), if ms = [] then l else msg_id (last ms))"
proof (induction ms arbitrary: a l)
  case (Cons m ms)
  then have "collect i (m # ms) (a, l) = collect i ms (a @ fields_of m, msg_id m)"
    by (auto simp: max_def not_less dest: order.strict_implies_order)
  with Cons show ?case by auto
qed simp

lemma log_ok_less: "log_ok n ms \<Longrightarrow> sorted_wrt (\<lambda>a b. msg_id a < msg_id b) ms \<and> (\<forall>m \<in> set ms. 0 < msg_id m)"
  by (auto simp: log_ok_def word_less_nat_alt)

lemma collect_unseen:
  assumes "log_ok n (old @ new)"
  shows "collect (seen_id old) (old @ new) ('''', seen_id old) = (concat (map fields_of new), seen_id (old @ new))"
proof -
  have sorted: "sorted_wrt (\<lambda>a b. msg_id a < msg_id b) (old @ new)" "\<forall>m \<in> set new. 0 < msg_id m"
    using log_ok_less [OF assms] by auto
  have "\<forall>m \<in> set old. msg_id m \<le> seen_id old"
  proof (cases old rule: rev_cases)
    case (snoc xs x)
    with sorted(1) show ?thesis by (auto simp: seen_id_def sorted_wrt_append)
  qed (simp add: seen_id_def)
  moreover have "\<forall>m \<in> set new. seen_id old < msg_id m"
  proof (cases old rule: rev_cases)
    case (snoc xs x)
    with sorted(1) show ?thesis by (auto simp: seen_id_def sorted_wrt_append)
  qed (use sorted(2) in \<open>simp add: seen_id_def\<close>)
  ultimately show ?thesis
    using sorted collect_new_ones [of new "seen_id old" "seen_id old" "''''"]
    by (simp add: collect_old seen_id_append sorted_wrt_append) (simp add: seen_id_def)
qed

lemma seen_id_bounds:
  assumes "log_ok n ms"
  shows "unat (seen_id ms) \<le> n" "\<forall>m \<in> set ms. msg_id m \<le> seen_id ms"
  using assms by (cases ms rule: rev_cases; auto simp: log_ok_def seen_id_def sorted_wrt_append word_le_nat_alt less_imp_le)+

text \<open>The text of an answer, as fields.\<close>

definition pair_of :: "message \<Rightarrow> string \<times> string" where
  "pair_of m = (from_login m, msg_text m)"

lemma fields_join: "ms \<noteq> [] \<Longrightarrow> butlast (concat (map fields_of ms)) = join BAR (concat (map (\<lambda>(u, t). [u, t]) (map pair_of ms)))"
proof (induction ms rule: list_nonempty_induct)
  case (cons m ms)
  have "concat (map fields_of ms) \<noteq> []" using cons(1) by (cases ms) (auto simp: fields_of_def)
  then have "butlast (concat (map fields_of (m # ms))) = fields_of m @ butlast (concat (map fields_of ms))"
    unfolding list.map concat.simps butlast_append by (simp only: if_False)
  moreover have "concat (map (\<lambda>(u, t). [u, t]) (map pair_of ms)) \<noteq> []" using cons(1) by (cases ms) (auto simp: pair_of_def)
  then have "fields_of m @ join BAR (concat (map (\<lambda>(u, t). [u, t]) (map pair_of ms))) =
      join BAR (concat (map (\<lambda>(u, t). [u, t]) (map pair_of (m # ms))))"
    by (simp add: fields_of_def pair_of_def join_Cons)
  ultimately show ?case unfolding cons(2) by (rule trans)
qed (simp add: fields_of_def pair_of_def butlast_append)

definition bar_free :: "message \<Rightarrow> bool" where
  "bar_free m \<longleftrightarrow> BAR \<notin> set (from_login m) \<and> BAR \<notin> set (msg_text m)"

text \<open>What the client shows of messages.\<close>

definition shown_messages :: "message list \<Rightarrow> (string \<times> color) list" where
  "shown_messages ms = concat (map (\<lambda>m. [(from_login m, TUI_COLOR_BLUE), ('': '', TUI_COLOR_WHITE),
     (msg_text m @ [NEWLINE], TUI_COLOR_WHITE)]) ms)"

lemma shown_messages_simps [simp]:
  "shown_messages [] = []" "shown_messages (ms @ ms') = shown_messages ms @ shown_messages ms'"
  by (simp_all add: shown_messages_def)

lemma print_new_messages:
  assumes "ms \<noteq> []" "\<forall>m \<in> set ms. bar_free m"
  shows "print_end (butlast (concat (map fields_of ms))) PRINT_MESSAGE e c = Some (shown (shown_messages ms) c)"
proof -
  let ?fs = "concat (map (\<lambda>(u, t). [u, t]) (map pair_of ms))"
  have "?fs \<noteq> []" using assms(1) by (cases ms) (auto simp: pair_of_def)
  moreover have "\<forall>f \<in> set ?fs. BAR \<notin> set f" using assms(2) by (auto simp: pair_of_def bar_free_def)
  ultimately have "split_all (join BAR ?fs) = ?fs" by (rule split_all_join)
  then show ?thesis
    using show_messages [of "map pair_of ms"]
    by (simp add: fields_join [OF assms(1)] print_messages shown_messages_def pair_of_def comp_def)
qed


text \<open>A client in a group chat, known to the server, and what the server holds of the chat.\<close>

definition in_group :: "client \<Rightarrow> server \<Rightarrow> nat \<Rightarrow> bool" where
  "in_group c s g \<longleftrightarrow> plain c \<and> client_state c = InGroupChat \<and> BAR \<notin> set (client_chat c) \<and>
     find_group (client_chat c) s = Some g \<and> find_user (client_login c) s \<noteq> None"

lemma grows_find_group:
  assumes "grows s s'" "find_group name s = Some g"
  shows "find_group name s' = Some g"
  using assms unfolding grows_def find_group_def first_index_Some by (metis less_le_trans less_trans)

lemma grows_find_user:
  assumes "grows s s'" "find_user l s \<noteq> None"
  shows "find_user l s' \<noteq> None"
proof -
  obtain u where u: "u < length (users s)" "login (users s ! u) = l"
    using assms(2) find_user_Some by blast
  then have "u < length (users s')" "login (users s' ! u) = l" using assms(1) by (auto simp: grows_def)
  then show ?thesis unfolding find_user_None by force
qed

lemma grows_in_group: "grows s s' \<Longrightarrow> in_group c s g \<Longrightarrow> in_group c s' g"
  using grows_find_group grows_find_user by (auto simp: in_group_def)

lemma grows_messages:
  assumes "grows s s'" "g < length (group_chats s)"
  obtains new where "messages (group_chats s' ! g) = messages (group_chats s ! g) @ new"
  using assms unfolding grows_def prefix_def by blast

lemma no_bar_dec: "BAR \<notin> set (nat_to_dec n)"
  using nat_to_dec_digits [of BAR n] by (auto simp: isdigit_def)

lemma strtol_seen: "unat i < 2 ^ 63 \<Longrightarrow> word_of_int (strtol (nat_to_dec (unat i))) = (i :: 64 word)"
proof -
  have "strtol (nat_to_dec n) = int n" if "n < 2 ^ 63" for n
    using that by (simp add: strtol_nat_to_dec clamp_long_id)
  then show "unat i < 2 ^ 63 \<Longrightarrow> word_of_int (strtol (nat_to_dec (unat i))) = i" by simp
qed

definition log_size :: "message list \<Rightarrow> nat" where
  "log_size ms = length (concat (map fields_of ms))"

text \<open>The answer to a poll, handled by the client.\<close>

lemma receive_messages_answer:
  assumes "\<forall>m \<in> set ms. bar_free m" "log_size ms < 2 ^ 30" "n < 2 ^ 64"
  shows "receive_answer (''get_msg|OK|'' @ nat_to_dec n @ BAR # butlast (concat (map fields_of ms))) c =
    Some (shown (shown_messages ms) (c\<lparr>last_update_id := nat_to_dec n\<rparr>))"
proof -
  let ?body = "butlast (concat (map fields_of ms))"
  let ?args = "nat_to_dec n @ BAR # ?body"
  have dec: "length (nat_to_dec n) \<le> 20" using assms(3) by (intro length_nat_to_dec) auto
  then have len: "length (''get_msg|OK|'' @ ?args) < 2 ^ 31" "length ?args < 2 ^ 31"
    using assms(2) by (simp_all add: log_size_def)
  have "cut_at 2 BAR (''get_msg'' @ BAR # ''OK'' @ BAR # ?args) = [''get_msg'', ''OK'', ?args]"
    unfolding numeral_2_eq_2 by (subst cut_at_append, simp, subst cut_at_append, simp_all)
  moreover have "''get_msg|OK|'' @ ?args = ''get_msg'' @ BAR # ''OK'' @ BAR # ?args" by simp
  ultimately have parts: "string_parser (''get_msg|OK|'' @ ?args) 3 [] BAR = [''get_msg'', ''OK'', ?args]"
    using string_parser_numeral(2) [OF len(1), of "[]" BAR] by simp
  have "string_parser ?args 2 [] BAR = [nat_to_dec n, ?body]"
    using string_parser_numeral(1) [OF len(2), of "[]" BAR] cut_at_append [OF no_bar_dec, of 0] by simp
  then have rec: "rec_get_msg ?args c = (if ?body = '''' then Some (c\<lparr>last_update_id := nat_to_dec n\<rparr>)
      else print_end ?body PRINT_MESSAGE [NEWLINE] (c\<lparr>last_update_id := nat_to_dec n\<rparr>))"
    by (simp add: rec_get_msg_def)
  have body: "?body = '''' \<longleftrightarrow> ms = []" by (cases ms) (auto simp: fields_of_def butlast_append)
  have "receive_answer (''get_msg|OK|'' @ ?args) c = rec_get_msg ?args c"
    unfolding receive_answer_def answer_handler_def parts Let_def by simp
  with rec body show ?thesis using print_new_messages [OF _ assms(1)] by (cases "ms = []") auto
qed


definition client_size :: "client \<Rightarrow> nat" where
  "client_size c = length (response_pipe c) + length (client_login c) + length (client_chat c) + length (last_update_id c)"

lemma poll_request:
  assumes "in_group c s g" "client_size c < 2 ^ 30"
  shows "serve_requests [(request_line ''get_msg'' (''GROUP|'' @ client_chat c @ BAR # last_update_id c) c, now)] s =
    Some (send_messages (response_pipe c) (messages (group_chats s ! g)) (last_update_id c)
      (say (''get '' @ request_line ''get_msg'' (''GROUP|'' @ client_chat c @ BAR # last_update_id c) c) s))"
proof -
  define args where "args = ''GROUP|'' @ client_chat c @ BAR # last_update_id c"
  define x where "x = request_line ''get_msg'' args c"
  note g = assms(1) [unfolded in_group_def]
  obtain u where u: "find_user (client_login c) s = Some u" using g by blast
  have "args \<noteq> ''''" by (simp add: args_def)
  then have f: "req_fields 4 x = [''get_msg'', response_pipe c, client_login c] \<and> args = '''' \<or>
      req_fields 4 x = [''get_msg'', response_pipe c, client_login c, args]"
    using request_line_fields [of c "''get_msg''" args] g by (simp add: x_def)
  have len: "length x < 2 ^ 31" "length args < 2 ^ 31"
    using assms(2) g by (simp_all add: x_def request_line_def args_def client_size_def)
  have three: "req_fields 3 args = [''GROUP'', client_chat c, last_update_id c]"
  proof -
    have "args = ''GROUP'' @ BAR # client_chat c @ BAR # last_update_id c" by (simp add: args_def)
    moreover have "cut_at 2 BAR (''GROUP'' @ BAR # client_chat c @ BAR # last_update_id c) =
        [''GROUP'', client_chat c, last_update_id c]"
      unfolding numeral_2_eq_2 using g by (subst cut_at_append, simp, subst cut_at_append, simp_all)
    ultimately show ?thesis by (simp add: req_fields_def)
  qed
  have "find_user (client_login c) (say l s) = find_user (client_login c) s" "find_group n (say l s) = find_group n s" for l n
    by (simp_all add: find_user_def find_group_def)
  then show ?thesis unfolding args_def [symmetric] x_def [symmetric]
    using u g by (simp add: request_handler_fields [OF len(1) f] user_command_def Let_def three_fields [OF len(2)] three srv_get_msg_def)
qed

lemma poll_keeps_chats:
  assumes "in_group c s g" "client_size c < 2 ^ 30" "poll 0 c s = Some (c', s')"
  shows "group_chats s' = group_chats s"
proof -
  have "update_chat (last_update_id c) c = request ''get_msg'' (''GROUP|'' @ client_chat c @ BAR # last_update_id c) c"
    using assms(1) by (simp add: update_chat_def in_group_def)
  then show ?thesis
    using assms(3) poll_request [OF assms(1,2), of 0]
    by (auto simp: poll_def Let_def bind_eq_Some_conv send_messages_def split: prod.splits)
qed

lemma poll_step:
  assumes "in_group c s g" "client_size c < 2 ^ 30" "server_inv s" "unat (message_counter_id s) < 2 ^ 63"
    and "messages (group_chats s ! g) = old @ new" "last_update_id c = nat_to_dec (unat (seen_id old))"
    and "\<forall>m \<in> set new. bar_free m" "log_size new < 2 ^ 30"
  shows "\<exists>c' s'. poll now c s = Some (c', s') \<and> grows s s' \<and> server_inv s' \<and> group_chats s' = group_chats s \<and>
    message_counter_id s' = message_counter_id s \<and> in_group c' s' g \<and>
    last_update_id c' = nat_to_dec (unat (seen_id (old @ new))) \<and> response_pipe c' = response_pipe c \<and>
    client_login c' = client_login c \<and> client_chat c' = client_chat c \<and>
    output_text c' = output_text c @ shown_messages new"
proof -
  let ?args = "''GROUP|'' @ client_chat c @ BAR # last_update_id c"
  define x where "x = request_line ''get_msg'' ?args c"
  define c1 where "c1 = update_chat (last_update_id c) c"
  note g = assms(1) [unfolded in_group_def]
  have c1: "c1 = request ''get_msg'' ?args c" using g by (simp add: c1_def update_chat_def)
  have req: "butlast (last (requests c1)) = x" by (simp add: c1 x_def)
  have glen: "g < length (group_chats s)" using g find_group_Some by blast
  have log: "log_ok (unat (message_counter_id s)) (old @ new)"
    using inv_parts(3) [OF assms(3) glen] assms(5) by (simp add: group_ok_def)
  then have "unat (seen_id old) < 2 ^ 63"
  proof (cases old rule: rev_cases)
    case (snoc xs m)
    with log have "unat (msg_id m) \<le> unat (message_counter_id s)" by (simp add: log_ok_def)
    with assms(4) snoc show ?thesis by (simp add: seen_id_def)
  qed (simp add: seen_id_def)
  then have id: "word_of_int (strtol (last_update_id c)) = seen_id old" by (simp add: assms(6) strtol_seen)
  let ?a = "nat_to_dec (unat (seen_id (old @ new))) @ BAR # butlast (concat (map fields_of new))"
  define s' where "s' = response (response_pipe c) ''get_msg'' STATUS_OK ?a (say (''get '' @ x) s)"
  have "serve_requests [(x, now)] s = Some s'"
    using poll_request [OF assms(1,2), of now] collect_unseen [OF log]
    by (simp add: x_def s'_def send_messages_def id assms(5) Let_def)
  moreover have "butlast (snd (last (pipes s'))) = ''get_msg|OK|'' @ ?a"
    by (simp add: s'_def response_pipe butlast_append)
  moreover have "receive_answer (''get_msg|OK|'' @ ?a) c1 =
      Some (shown (shown_messages new) (c1\<lparr>last_update_id := nat_to_dec (unat (seen_id (old @ new)))\<rparr>))"
    by (rule receive_messages_answer [OF assms(7,8)]) (use unsigned_less [of "seen_id (old @ new)"] in simp)
  ultimately have poll: "poll now c s =
      Some (shown (shown_messages new) (c1\<lparr>last_update_id := nat_to_dec (unat (seen_id (old @ new)))\<rparr>), s')"
    unfolding poll_def Let_def c1_def [symmetric] req by simp
  have "grows s s'" "server_inv s'" "group_chats s' = group_chats s" "message_counter_id s' = message_counter_id s"
    using assms(3) by (simp_all add: s'_def)
  moreover from this have "in_group c s' g" using grows_in_group assms(1) by blast
  ultimately show ?thesis using poll
    by (simp add: c1 request_def Let_def shown_def in_group_def plain_def)
qed


text \<open>
  The rounds are fair game as long as the server serves the other requests, has room for messages,
  and the messages of the chat have no separator in them and fit an answer.
\<close>

fun rounds_ok :: "nat \<Rightarrow> (string \<times> int) list list \<Rightarrow> client \<Rightarrow> server \<Rightarrow> bool" where
  "rounds_ok g [] c s = True"
| "rounds_ok g (rs # rss) c s =
     (unat (message_counter_id s) + length rs < 2 ^ 63 \<and>
      (case serve_requests rs s of
         None \<Rightarrow> False
       | Some s1 \<Rightarrow> (\<forall>m \<in> set (messages (group_chats s1 ! g)). bar_free m) \<and> log_size (messages (group_chats s1 ! g)) < 2 ^ 30 \<and>
           (case poll 0 c s1 of None \<Rightarrow> True | Some (c1, s2) \<Rightarrow> rounds_ok g rss c1 s2)))"

lemma log_size_append: "log_size (ms @ ms') = log_size ms + log_size ms'"
  by (simp add: log_size_def)

lemma poll_rounds_spec:
  "in_group c s g \<Longrightarrow> length (response_pipe c) + length (client_login c) + length (client_chat c) < 2 ^ 29 \<Longrightarrow>
   server_inv s \<Longrightarrow> messages (group_chats s ! g) = old @ old' \<Longrightarrow> last_update_id c = nat_to_dec (unat (seen_id old)) \<Longrightarrow>
   rounds_ok g rss c s \<Longrightarrow>
   \<exists>c' s' new. poll_rounds rss c s = Some (c', s') \<and> grows s s' \<and>
     output_text c' = output_text c @ shown_messages new \<and> prefix (old @ new) (messages (group_chats s' ! g)) \<and>
     (rss \<noteq> [] \<longrightarrow> messages (group_chats s' ! g) = old @ new)"
proof (induction rss arbitrary: c s old old')
  case (Cons rs rss)
  have glen: "g < length (group_chats s)" using Cons.prems(1) find_group_Some by (auto simp: in_group_def)
  obtain s1 where s1: "serve_requests rs s = Some s1" "\<forall>m \<in> set (messages (group_chats s1 ! g)). bar_free m"
      "log_size (messages (group_chats s1 ! g)) < 2 ^ 30" "unat (message_counter_id s) + length rs < 2 ^ 63"
      "\<And>c1 s2. poll 0 c s1 = Some (c1, s2) \<Longrightarrow> rounds_ok g rss c1 s2"
    using Cons.prems(6) by (auto split: option.splits)
  have s1': "server_inv s1" "grows s s1" "unat (message_counter_id s1) < 2 ^ 63"
    using serve_requests_spec [OF s1(1) Cons.prems(3)] s1(4) by auto
  obtain more where "messages (group_chats s1 ! g) = messages (group_chats s ! g) @ more"
    using grows_messages [OF s1'(2) glen] by blast
  then have split: "messages (group_chats s1 ! g) = old @ (old' @ more)" using Cons.prems(4) by simp
  have "length (last_update_id c) \<le> 20"
    unfolding Cons.prems(5) using unsigned_less [of "seen_id old"] by (intro length_nat_to_dec) (auto intro: less_trans)
  then have size: "client_size c < 2 ^ 30" using Cons.prems(2) by (simp add: client_size_def)
  obtain c1 s2 where poll: "poll 0 c s1 = Some (c1, s2)" "grows s1 s2" "server_inv s2" "group_chats s2 = group_chats s1"
      "in_group c1 s2 g" "last_update_id c1 = nat_to_dec (unat (seen_id (old @ (old' @ more))))"
      "response_pipe c1 = response_pipe c" "client_login c1 = client_login c" "client_chat c1 = client_chat c"
      "output_text c1 = output_text c @ shown_messages (old' @ more)"
    using poll_step [OF grows_in_group [OF s1'(2) Cons.prems(1)] size s1'(1,3) split Cons.prems(5), of 0] s1(2,3) split
    by (auto simp: log_size_append)
  obtain c' s' new where rest: "poll_rounds rss c1 s2 = Some (c', s')" "grows s2 s'"
      "output_text c' = output_text c1 @ shown_messages new" "prefix ((old @ (old' @ more)) @ new) (messages (group_chats s' ! g))"
      "rss \<noteq> [] \<longrightarrow> messages (group_chats s' ! g) = (old @ (old' @ more)) @ new"
    using Cons.IH [OF poll(5) _ poll(3) _ poll(6) s1(5) [OF poll(1)], of "[]"] Cons.prems(2) poll(4,7,8,9) split by auto
  show ?case
  proof (cases "rss = []")
    case True
    with rest(1,3) poll(1,2,4,10) s1(1) s1'(2) split show ?thesis
      by (intro exI [of _ c1] exI [of _ s2] exI [of _ "old' @ more"]) (auto intro: grows_trans)
  next
    case False
    with rest poll(1,2,10) s1(1) s1'(2) show ?thesis
      by (intro exI [of _ c'] exI [of _ s'] exI [of _ "(old' @ more) @ new"]) (auto intro: grows_trans)
  qed
qed (auto simp: prefix_def intro: exI [of _ "[]"])

section \<open>Properties: messages\<close>

text \<open>
  C4: every message once and in order. A client that has entered a group chat polls it again and
  again; between the polls the server serves arbitrary requests. After the last poll the client has
  shown exactly the messages of the chat, each once, in the order in which they were stored, with
  their senders.
\<close>

theorem polling_shows_all_once:
  assumes "in_group c s g" "length (response_pipe c) + length (client_login c) + length (client_chat c) < 2 ^ 29"
    and "server_inv s" "last_update_id c = ''0''" "rounds_ok g rss c s" "rss \<noteq> []"
  shows "\<exists>c' s'. poll_rounds rss c s = Some (c', s') \<and>
    output_text c' = output_text c @ shown_messages (messages (group_chats s' ! g))"
proof -
  have "nat_to_dec 0 = ''0''" by code_simp
  then have "last_update_id c = nat_to_dec (unat (seen_id []))" by (simp add: assms(4) seen_id_def)
  from poll_rounds_spec [OF assms(1-3) _ this assms(5), of "messages (group_chats s ! g)"] assms(6)
  show ?thesis by auto
qed

text \<open>A client in the group \<open>os\<close> of the concrete server.\<close>

definition demo_client :: client where
  "demo_client = (client_init ''/tmp/p'')\<lparr>client_state := InGroupChat, client_login := ''ann'', client_chat := ''os''\<rparr>"

lemma demo_client_in_group: "in_group demo_client demo_server 0"
  by (simp add: in_group_def plain_def demo_client_def demo_server_def client_init_def find_group_def find_user_def)

lemma demo_push:
  obtains s' where "serve_requests [(''push_msg|/tmp/c|cat|GROUP|os|x'', 0)] demo_server = Some s'"
    "messages (group_chats s' ! 0) =
      [\<lparr>from_login = ''SYSTEM'', msg_text = ''hello'', timestamp = 0, msg_id = 1\<rparr>,
       \<lparr>from_login = ''cat'', msg_text = ''x'', timestamp = 0, msg_id = 3\<rparr>]"
proof -
  let ?r = "''push_msg|/tmp/c|cat|GROUP|os|x''"
  define s where "s = say (''get '' @ ?r) demo_server"
  have len: "length ?r < 2 ^ 31" "length ''GROUP|os|x'' < 2 ^ 31" by simp_all
  have args: "req_fields 3 ''GROUP|os|x'' = [''GROUP'', ''os'', ''x'']" by (simp add: req_fields_def numeral_2_eq_2)
  have "find_user ''cat'' s = Some 2" "find_group ''os'' s = Some 0" "login_of s 2 = ''cat''"
    by (simp_all add: s_def find_user_def find_group_def demo_server_def say_def login_of_def)
  then have "\<exists>s'. request_handler ?r 0 s = Some s' \<and> messages (group_chats s' ! 0) =
      [\<lparr>from_login = ''SYSTEM'', msg_text = ''hello'', timestamp = 0, msg_id = 1\<rparr>,
       \<lparr>from_login = ''cat'', msg_text = ''x'', timestamp = 0, msg_id = 3\<rparr>]"
    using demo_fields(1)
    by (simp add: request_handler_fields [OF len(1), of _ _ _ "''GROUP|os|x''"] user_command_def Let_def three_fields [OF len(2)] args
        srv_put_msg_def new_message_def) (simp add: s_def demo_server_def say_def)
  with that show ?thesis by (auto simp: s_def)
qed


theorem polling_shows_all_once_witness:
  "\<exists>c' s'. poll_rounds [[(''push_msg|/tmp/c|cat|GROUP|os|x'', 0)]] demo_client demo_server = Some (c', s') \<and>
     map fst (output_text c') = [''SYSTEM'', '': '', ''hello'' @ [NEWLINE], ''cat'', '': '', ''x'' @ [NEWLINE]]"
proof -
  let ?rss = "[[(''push_msg|/tmp/c|cat|GROUP|os|x'', 0 :: int)]]"
  obtain s' where s': "serve_requests (hd ?rss) demo_server = Some s'"
      "messages (group_chats s' ! 0) =
      [\<lparr>from_login = ''SYSTEM'', msg_text = ''hello'', timestamp = 0, msg_id = 1\<rparr>,
       \<lparr>from_login = ''cat'', msg_text = ''x'', timestamp = 0, msg_id = 3\<rparr>]" using demo_push by auto
  have "unat (message_counter_id demo_server) + length (hd ?rss) < 2 ^ 64" by (simp add: demo_server_def)
  then have "grows demo_server s'" using serve_requests_spec [OF s'(1) demo_server_inv] by simp
  then have in_s': "in_group demo_client s' 0" using grows_in_group demo_client_in_group by blast
  have size: "client_size demo_client < 2 ^ 30" by (simp add: demo_client_def client_init_def client_size_def)
  have "rounds_ok 0 ?rss demo_client demo_server"
    using s' by (simp add: bar_free_def log_size_def fields_of_def demo_server_def split: option.split)
  moreover have "last_update_id demo_client = ''0''" "output_text demo_client = []"
      "length (response_pipe demo_client) + length (client_login demo_client) + length (client_chat demo_client) < 2 ^ 29"
    by (simp_all add: demo_client_def client_init_def)
  ultimately obtain c2 s2 where run: "poll_rounds ?rss demo_client demo_server = Some (c2, s2)"
      "output_text c2 = shown_messages (messages (group_chats s2 ! 0))"
    using polling_shows_all_once [OF demo_client_in_group _ demo_server_inv, of ?rss] by auto
  moreover have "group_chats s2 = group_chats s'"
    using run(1) s'(1) poll_keeps_chats [OF in_s' size] by (auto simp: bind_eq_Some_conv)
  ultimately show ?thesis using s'(2) by (auto simp: shown_messages_def)
qed

section \<open>A race\<close>

text \<open>
  All requests behind the first \<open>n\<close> ones are served in order, then the client handles the answers in
  order: the two pipes of a client between two of its rounds.
\<close>

fun receive_answers :: "string list \<Rightarrow> client \<Rightarrow> client option" where
  "receive_answers [] c = Some c"
| "receive_answers (a # as) c = do { c1 \<leftarrow> receive_answer a c; receive_answers as c1 }"

definition exchange :: "nat \<Rightarrow> client \<Rightarrow> server \<Rightarrow> (client \<times> server) option" where
  "exchange n c s = do {
     s1 \<leftarrow> serve_requests (map (\<lambda>r. (butlast r, 0)) (drop n (requests c))) s;
     c1 \<leftarrow> receive_answers (map (\<lambda>(p, a). butlast a) (drop (length (pipes s)) (pipes s1))) c;
     Some (c1, s1)
   }"

lemma serve_requests_append: "serve_requests (rs @ rs') s = serve_requests rs s \<bind> serve_requests rs'"
  by (induction rs s rule: serve_requests.induct) (auto split: bind_splits)

text \<open>A member of a group enters it again.\<close>

lemma join_request:
  assumes "plain c" "client_state c \<noteq> NotLogin" "find_user (client_login c) s = Some u"
    and "find_group name s = Some h" "u \<in> set (chat_users (group_chats s ! h))" "name \<noteq> ''''"
    and "length (response_pipe c) + length (client_login c) + length name < 2 ^ 30"
  shows "serve_requests [(request_line ''join'' name c, now)] s =
    Some (response (response_pipe c) ''join'' STATUS_OK name (say (''get '' @ request_line ''join'' name c) s))"
proof -
  define x where "x = request_line ''join'' name c"
  have f: "req_fields 4 x = [''join'', response_pipe c, client_login c] \<and> name = '''' \<or>
      req_fields 4 x = [''join'', response_pipe c, client_login c, name]"
    using request_line_fields [of c "''join''" name] assms(1,2,6) by (simp add: x_def)
  have len: "length x < 2 ^ 31" using assms(2,6,7) by (simp add: x_def request_line_def)
  have "find_user (client_login c) (say l s) = Some u" "find_group name (say l s) = Some h" for l
    using assms(3,4) by (simp_all add: find_user_def find_group_def)
  then show ?thesis unfolding x_def [symmetric]
    using assms(5) by (simp add: request_handler_fields [OF len f] user_command_def srv_join_def Let_def)
qed

lemma receive_join_answer:
  assumes "length name < 2 ^ 30"
  shows "receive_answer (''join|OK|'' @ name) c = Some (rec_join name c)"
proof -
  have len: "length (''join|OK|'' @ name) < 2 ^ 31" using assms by simp
  have "cut_at 2 BAR (''join'' @ BAR # ''OK'' @ BAR # name) = [''join'', ''OK'', name]"
    unfolding numeral_2_eq_2 by (subst cut_at_append, simp, subst cut_at_append, simp_all)
  moreover have "''join|OK|'' @ name = ''join'' @ BAR # ''OK'' @ BAR # name" by simp
  ultimately have "string_parser (''join|OK|'' @ name) 3 [] BAR = [''join'', ''OK'', name]"
    using string_parser_numeral(2) [OF len, of "[]" BAR] by simp
  then show ?thesis by (simp add: receive_answer_def answer_handler_def Let_def)
qed

lemma serve_nothing_new:
  assumes "in_group c s g" "client_size c < 2 ^ 30" "last_update_id c = nat_to_dec (unat i)" "unat i < 2 ^ 63"
    and "\<forall>m \<in> set (messages (group_chats s ! g)). msg_id m \<le> i"
  shows "serve_requests [(request_line ''get_msg'' (''GROUP|'' @ client_chat c @ BAR # last_update_id c) c, now)] s =
    Some (response (response_pipe c) ''get_msg'' STATUS_OK (last_update_id c @ [BAR])
      (say (''get '' @ request_line ''get_msg'' (''GROUP|'' @ client_chat c @ BAR # last_update_id c) c) s))"
  using poll_request [OF assms(1,2), of now] collect_old [OF assms(5), of "[]"] strtol_seen [OF assms(4)]
  by (simp add: send_messages_def assms(3))

lemma receive_nothing_new:
  "receive_answer (''get_msg|OK|'' @ nat_to_dec (unat (i :: 64 word)) @ [BAR]) c = Some (c\<lparr>last_update_id := nat_to_dec (unat i)\<rparr>)"
proof -
  have "unat i < 2 ^ 64" using unsigned_less [of i] by simp
  then show ?thesis using receive_messages_answer [of "[]" "unat i" c] by (simp add: log_size_def)
qed

text \<open>A poll of a chat without newer messages changes nothing but the id that is known, and the log of the server.\<close>

lemma poll_nothing_new:
  assumes "in_group c s g" "client_size c < 2 ^ 30" "last_update_id c = nat_to_dec (unat i)" "unat i < 2 ^ 63"
    and "\<forall>m \<in> set (messages (group_chats s ! g)). msg_id m \<le> i"
  shows "\<exists>s'. exchange (length (requests c)) (update_chat (last_update_id c) c) s =
      Some ((update_chat (last_update_id c) c)\<lparr>last_update_id := nat_to_dec (unat i)\<rparr>, s') \<and> group_chats s' = group_chats s"
proof -
  define gl where "gl = request_line ''get_msg'' (''GROUP|'' @ client_chat c @ BAR # last_update_id c) c"
  define c' where "c' = update_chat (last_update_id c) c"
  note g = assms(1) [unfolded in_group_def]
  have c': "requests c' = requests c @ [gl @ [NEWLINE]]"
    using g by (simp add: c'_def update_chat_def gl_def request_line_def request_def Let_def)
  have "exchange (length (requests c)) c' s = Some (c'\<lparr>last_update_id := nat_to_dec (unat i)\<rparr>,
      response (response_pipe c) ''get_msg'' STATUS_OK (nat_to_dec (unat i) @ [BAR]) (say (''get '' @ gl) s))"
    using serve_nothing_new [OF assms, of 0, folded gl_def] receive_nothing_new [of i c'] c'
    by (simp add: exchange_def response_pipe butlast_append assms(3))
  then show ?thesis by (simp add: c'_def)
qed

text \<open>
  C7: an answer that comes late. A client in an up-to-date group chat chooses, in the list of chats,
  another group of which the user is a member; before the answer comes, the updating thread asks once
  more for messages of the old chat. The answer to that is taken for one about the new chat: its last
  id becomes the id known of the new chat. The client then shows nothing of the new chat, in this and
  in the next poll, although all its messages are unread.
\<close>

theorem late_answer_hides_messages:
  assumes "in_group c s g" "client_size c + length name < 2 ^ 29" "server_inv s" "unat (message_counter_id s) < 2 ^ 63"
    and "last_update_id c = nat_to_dec (unat (seen_id (messages (group_chats s ! g))))"
    and "find_group name s = Some h" "the (find_user (client_login c) s) \<in> set (chat_users (group_chats s ! h))"
    and "name \<noteq> ''''" "BAR \<notin> set name"
    and "\<forall>m \<in> set (messages (group_chats s ! h)). msg_id m \<le> seen_id (messages (group_chats s ! g))"
  shows "\<exists>c1 s1 c2 s2. exchange (length (requests c)) (update_chat (last_update_id c) (choose_chat name True c)) s = Some (c1, s1) \<and>
    client_state c1 = InGroupChat \<and> client_chat c1 = name \<and>
    exchange (length (requests c1)) (update_chat (last_update_id c1) c1) s1 = Some (c2, s2) \<and>
    output_text c2 = [(''Group chat '' @ name @ [NEWLINE], TUI_COLOR_MAGENTA)] \<and> group_chats s2 = group_chats s"
proof -
  define i where "i = seen_id (messages (group_chats s ! g))"
  define jl where "jl = request_line ''join'' name c"
  define gl where "gl = request_line ''get_msg'' (''GROUP|'' @ client_chat c @ BAR # last_update_id c) c"
  define sj where "sj = response (response_pipe c) ''join'' STATUS_OK name (say (''get '' @ jl) s)"
  define s1 where "s1 = response (response_pipe c) ''get_msg'' STATUS_OK (nat_to_dec (unat i) @ [BAR]) (say (''get '' @ gl) sj)"
  define c0 where "c0 = update_chat (last_update_id c) (choose_chat name True c)"
  define c1 where "c1 = (rec_join name c0)\<lparr>last_update_id := nat_to_dec (unat i)\<rparr>"
  note g = assms(1) [unfolded in_group_def]
  obtain u where u: "find_user (client_login c) s = Some u" using g by blast
  have glen: "g < length (group_chats s)" using g find_group_Some by blast
  have log: "log_ok (unat (message_counter_id s)) (messages (group_chats s ! g))"
    using inv_parts(3) [OF assms(3) glen] by (simp add: group_ok_def)
  have i: "unat i < 2 ^ 63" "\<forall>m \<in> set (messages (group_chats s ! g)). msg_id m \<le> i"
    using seen_id_bounds [OF log] assms(4) by (auto simp: i_def)
  have sizes: "client_size c < 2 ^ 30" "length (response_pipe c) + length (client_login c) + length name < 2 ^ 30" "length name < 2 ^ 30"
    using assms(2) by (simp_all add: client_size_def)
  have id: "last_update_id c = nat_to_dec (unat i)" by (simp add: assms(5) i_def)
  have "grows s sj" by (simp add: sj_def)
  then have gj: "in_group c sj g" "in_group c s1 g" using grows_in_group [OF _ assms(1)] by (auto simp: s1_def)
  have serve: "serve_requests [(jl, 0)] s = Some sj" "serve_requests [(gl, 0)] sj = Some s1"
    using join_request [OF _ _ u assms(6) _ assms(8) sizes(2), of 0] g u assms(7)
      serve_nothing_new [OF gj(1) sizes(1) id i(1), of 0] i(2)
    by (simp_all add: jl_def gl_def sj_def s1_def id)
  have c0: "requests c0 = requests c @ [jl @ [NEWLINE], gl @ [NEWLINE]]"
    using g by (simp add: c0_def choose_chat_def cl_join_def update_chat_def jl_def gl_def request_line_def request_def Let_def clear_output_def)
  have "receive_answers [''join|OK|'' @ name, ''get_msg|OK|'' @ nat_to_dec (unat i) @ [BAR]] c0 = Some c1"
    using receive_join_answer [OF sizes(3)] receive_nothing_new [of i] by (simp add: c1_def)
  moreover have "map (\<lambda>(p, a). butlast a) (drop (length (pipes s)) (pipes s1)) =
      [''join|OK|'' @ name, ''get_msg|OK|'' @ nat_to_dec (unat i) @ [BAR]]"
    using assms(8) by (simp add: s1_def sj_def response_pipe butlast_append)
  ultimately have first: "exchange (length (requests c)) c0 s = Some (c1, s1)"
    using serve serve_requests_append [of "[(jl, 0)]" "[(gl, 0)]" s] by (simp add: exchange_def c0)
  have c1: "response_pipe c1 = response_pipe c" "client_login c1 = client_login c" "client_state c1 = InGroupChat" "client_chat c1 = name"
      "last_update_id c1 = nat_to_dec (unat i)" "output_text c1 = [(''Group chat '' @ name @ [NEWLINE], TUI_COLOR_MAGENTA)]"
    using g by (simp_all add: c1_def c0_def rec_join_def enter_chat_def shown_def choose_chat_def cl_join_def update_chat_def
        request_def Let_def clear_output_def)
  have "find_group name s1 = Some h" using assms(6) by (simp add: s1_def sj_def find_group_def)
  then have "in_group c1 s1 h" "client_size c1 < 2 ^ 30" "\<forall>m \<in> set (messages (group_chats s1 ! h)). msg_id m \<le> i"
    using g gj(2) c1 assms(2,9,10) length_nat_to_dec [of "unat i" 20] i(1)
    by (auto simp: in_group_def plain_def client_size_def s1_def sj_def i_def)
  then obtain s2 where "exchange (length (requests c1)) (update_chat (last_update_id c1) c1) s1 =
      Some ((update_chat (last_update_id c1) c1)\<lparr>last_update_id := nat_to_dec (unat i)\<rparr>, s2)" "group_chats s2 = group_chats s1"
    using poll_nothing_new [OF _ _ c1(5) i(1)] by blast
  moreover have "output_text (update_chat (last_update_id c1) c1) = output_text c1"
    by (simp add: update_chat_def request_def Let_def)
  ultimately show ?thesis using first c1 unfolding c0_def by (simp add: s1_def sj_def)
qed

text \<open>Two groups; the client is in the newer one and chooses the older one, which holds one message.\<close>

definition two_groups :: server where
  "two_groups = demo_server\<lparr>group_chats := group_chats demo_server @
     [\<lparr>messages = [\<lparr>from_login = ''SYSTEM'', msg_text = ''hi'', timestamp = 0, msg_id = 3\<rparr>],
        chat_name = ''db'', owner_name = ''bob'', chat_users = [1, 0]\<rparr>], message_counter_id := 3\<rparr>"

theorem late_answer_hides_messages_witness:
  "\<exists>c1 s1 c2 s2. exchange 0 (update_chat ''3'' (choose_chat ''os'' True (demo_client\<lparr>client_chat := ''db'', last_update_id := ''3''\<rparr>)))
       two_groups = Some (c1, s1) \<and>
     exchange (length (requests c1)) (update_chat (last_update_id c1) c1) s1 = Some (c2, s2) \<and>
     map fst (output_text c2) = [''Group chat os'' @ [NEWLINE]] \<and>
     map msg_text (messages (group_chats s2 ! 0)) = [''hello'']"
proof -
  let ?c = "demo_client\<lparr>client_chat := ''db'', last_update_id := ''3''\<rparr>"
  have id: "nat_to_dec (unat (seen_id (messages (group_chats two_groups ! 1)))) = ''3''"
  proof -
    have "nat_to_dec 3 = ''3''" by code_simp
    then show ?thesis by (simp add: two_groups_def demo_server_def seen_id_def)
  qed
  have inv: "server_inv two_groups"
    by (simp add: two_groups_def server_inv_def demo_server_def group_ok_def private_ok_def log_ok_def doubleton_eq_iff)
  have gr: "in_group ?c two_groups 1"
    by (simp add: in_group_def plain_def demo_client_def client_init_def two_groups_def demo_server_def find_group_def find_user_def)
  have os: "find_group ''os'' two_groups = Some 0" "find_user ''ann'' two_groups = Some 0"
    by (simp_all add: find_group_def find_user_def two_groups_def demo_server_def)
  have old: "\<forall>m \<in> set (messages (group_chats two_groups ! 0)). msg_id m \<le> seen_id (messages (group_chats two_groups ! 1))"
    by (simp add: two_groups_def demo_server_def seen_id_def)
  have rest: "unat (message_counter_id two_groups) < 2 ^ 63" "client_size ?c + length ''os'' < 2 ^ 29"
      "client_login ?c = ''ann''" "last_update_id ?c = ''3''" "requests ?c = []"
      "the (Some 0) \<in> set (chat_users (group_chats two_groups ! 0))"
    by (simp_all add: two_groups_def demo_server_def demo_client_def client_init_def client_size_def)
  obtain c1 s1 c2 s2 where "exchange (length (requests ?c)) (update_chat (last_update_id ?c) (choose_chat ''os'' True ?c)) two_groups = Some (c1, s1)"
      "exchange (length (requests c1)) (update_chat (last_update_id c1) c1) s1 = Some (c2, s2)"
      "output_text c2 = [(''Group chat '' @ ''os'' @ [NEWLINE], TUI_COLOR_MAGENTA)]" "group_chats s2 = group_chats two_groups"
    using late_answer_hides_messages [OF gr rest(2) inv rest(1) _ os(1) _ _ _ old] rest(3,4,6) os(2) id by auto
  then show ?thesis
    using rest(4,5) by (intro exI [of _ c1] exI [of _ s1] exI [of _ c2] exI [of _ s2]) (simp add: two_groups_def demo_server_def)
qed

end
