(* ===== verification/ParallelAverage.thy ===== *)
theory ParallelAverage
  imports Complex_Main HexCodec CString Schedules "HOL-Library.Multiset"
begin

text \<open>
  Lab 3: the mean of the 128-bit numbers of a file, computed by threads: \<^verbatim>\<open>lab3/main.c\<close> and the
  options of \<^verbatim>\<open>lab3/args_parsing.c\<close>. The threads take chunks of whole records from one file under a
  mutex and keep a running mean each; the main thread weights the means. The threads are a step
  relation, so a theorem about its runs holds for every schedule. The rounding of \<open>long double\<close> is a
  parameter \<open>ld\<close>.
\<close>

section \<open>Options\<close>

abbreviation DEFAULT_MAX_THREADS :: int where "DEFAULT_MAX_THREADS \<equiv> 4"
abbreviation DEFAULT_MAX_MEMORY :: int where "DEFAULT_MAX_MEMORY \<equiv> 512"

datatype arg_error = Incorrect_key | Incorrect_value | Threads_not_positive | Memory_not_positive | Incorrect_number

record options =
  filename :: string
  max_threads :: int
  max_memory_opt :: int
  warned :: bool         \<comment> \<open>the warning about little memory was printed\<close>

text \<open>
  \<open>args_parsing\<close> on \<open>argv\<close>, with the initial values of \<open>main\<close>. The test for the warning is one of
  \<open>size_t\<close>: \<open>MAX_128_HEX_BYTES + sizeof(__int128)\<close> is 48.
\<close>

definition args_parsing :: "string list \<Rightarrow> int \<Rightarrow> int \<Rightarrow> arg_error + options" where
  "args_parsing argv threads0 memory0 =
    (let argc = length argv in
     if argc = 2 then Inr \<lparr>filename = argv ! 1, max_threads = threads0, max_memory_opt = memory0, warned = False\<rparr>
     else if argc = 4 \<or> argc = 6 then
       if argv ! 1 \<noteq> ''-t'' \<and> argv ! 1 \<noteq> ''-m'' \<or> argc = 6 \<and> argv ! 3 \<noteq> ''-t'' \<and> argv ! 3 \<noteq> ''-m''
       then Inl Incorrect_key
       else
         let arg_t = (if argc = 6 \<and> argv ! 3 = ''-t'' then 4 else if argv ! 1 = ''-t'' then 2 else 0);
             arg_m = (if argc = 6 \<and> argv ! 3 \<noteq> ''-t'' then 4 else if argv ! 1 \<noteq> ''-t'' then 2 else 0);
             file = (if argc = 6 then argv ! 5 else argv ! 3);
             threads = (if arg_t \<noteq> 0 then strtol (argv ! arg_t) else threads0);
             memory = (if arg_m \<noteq> 0 then strtol (argv ! arg_m) else memory0)
         in if arg_t \<noteq> 0 \<and> threads = 0 then Inl Incorrect_value
            else if threads \<le> 0 then Inl Threads_not_positive
            else if arg_m \<noteq> 0 \<and> memory = 0 then Inl Incorrect_value
            else if memory \<le> 0 then Inl Memory_not_positive
            else Inr \<lparr>filename = file, max_threads = threads, max_memory_opt = memory,
                   warned = memory mod 2 ^ 64 < 48 * threads mod 2 ^ 64\<rparr>
     else Inl Incorrect_number)"

section \<open>Threads\<close>

record nw_args =
  max_memory :: nat
  res :: real
  nw_count :: nat

text \<open>A number joins the running mean.\<close>

definition work_number :: "(real \<Rightarrow> real) \<Rightarrow> u128 \<Rightarrow> nw_args \<Rightarrow> nw_args" where
  "work_number ld tmp nw =
    (let n = nw_count nw + 1 in
     nw\<lparr>nw_count := n,
        res := ld (ld (res nw * ld (1 - ld (1 / ld (real n)))) + ld (ld (real (unat tmp)) / ld (real n)))\<rparr>)"

text \<open>
  \<open>k\<close> rounds of the loop over a buffer, from round \<open>i\<close>. The offset is a product of two \<open>int\<close>s; its
  overflow is undefined.
\<close>

fun work_loop :: "(real \<Rightarrow> real) \<Rightarrow> nat \<Rightarrow> nat \<Rightarrow> string \<Rightarrow> nw_args \<Rightarrow> nw_args option" where
  "work_loop ld 0 i char_buf nw = Some nw"
| "work_loop ld (Suc k) i char_buf nw = do {
     tmp \<leftarrow> (if is_int (int ((MAX_128_HEX_BYTES + 1) * i)) then hex_to_int128 (drop ((MAX_128_HEX_BYTES + 1) * i) char_buf)
            else None);
     work_loop ld k (Suc i) char_buf (work_number ld tmp nw)
   }"

text \<open>\<open>fread\<close> returns a \<open>size_t\<close>, which is stored in an \<open>unsigned int\<close>.\<close>

definition read_count :: "string \<Rightarrow> nat" where
  "read_count char_buf = length char_buf mod 2 ^ 32"

datatype worker_pc = Reading | Working string | Finished

record worker =
  nw :: nw_args
  pc :: worker_pc

record average =
  number_file :: string      \<comment> \<open>what is left to read\<close>
  workers :: "worker list"

text \<open>
  A thread reads a chunk under the mutex, or works on the chunk it has read; the latter touches its
  own data only. \<open>malloc\<close> has given the thread its buffer.
\<close>

inductive average_step :: "(real \<Rightarrow> real) \<Rightarrow> average \<Rightarrow> average \<Rightarrow> bool" for ld where
  read: "average_step ld s (s\<lparr>number_file := drop m (number_file s),
      workers := (workers s)[i := (workers s ! i)\<lparr>pc := Working (take m (number_file s))\<rparr>]\<rparr>)"
  if "i < length (workers s)" "pc (workers s ! i) = Reading" "m = max_memory (nw (workers s ! i))"
| work: "average_step ld s (s\<lparr>workers := (workers s)[i := \<lparr>nw = n,
      pc = (if read_count buf < max_memory n then Finished else Reading)\<rparr>]\<rparr>)"
  if "i < length (workers s)" "pc (workers s ! i) = Working buf"
    "work_loop ld (read_count buf div (MAX_128_HEX_BYTES + 1)) 0 buf (nw (workers s ! i)) = Some n"

definition average_start :: "nat \<Rightarrow> nat \<Rightarrow> string \<Rightarrow> average" where
  "average_start threads thread_memory file = \<lparr>number_file = file,
     workers = replicate threads \<lparr>nw = \<lparr>max_memory = thread_memory, res = 0, nw_count = 0\<rparr>, pc = Reading\<rparr>\<rparr>"

text \<open>The weighted mean; without numbers it is \<open>0 / 0\<close>, no number.\<close>

definition average_result :: "(real \<Rightarrow> real) \<Rightarrow> worker list \<Rightarrow> real option" where
  "average_result ld ws =
    (let total = sum_list (map (\<lambda>w. nw_count (nw w)) ws) in
     if total = 0 then None
     else Some (foldl (\<lambda>result w. ld (result + ld (res (nw w) * ld (ld (real (nw_count (nw w))) / ld (real total))))) 0 ws))"

text \<open>What \<open>main\<close> does before the threads run. The contents of files are a parameter.\<close>

datatype outcome = Usage arg_error | Open_error | Not_enough_memory | Started average bool

definition average_main :: "(string \<Rightarrow> string option) \<Rightarrow> string list \<Rightarrow> outcome" where
  "average_main fopen argv =
    (case args_parsing argv DEFAULT_MAX_THREADS DEFAULT_MAX_MEMORY of
       Inl e \<Rightarrow> Usage e
     | Inr opts \<Rightarrow>
        (case fopen (filename opts) of
           None \<Rightarrow> Open_error
         | Some file \<Rightarrow>
             let q = max_memory_opt opts div max_threads opts;
                 thread_memory = q - q mod (int MAX_128_HEX_BYTES + 1)
             in if thread_memory = 0 then Not_enough_memory
                else Started (average_start (nat (max_threads opts)) (nat thread_memory) file) (warned opts)))"

section \<open>Lemmas: rounding\<close>

text \<open>
  The standard model of floating point: a rounded value is off by a factor between \<open>1 - e\<close> and
  \<open>1 + e\<close>, and counts are exact. The mantissa of \<open>long double\<close> has 64 bits; the values here are zero
  or between \<open>2 ^ -64\<close> and \<open>2 ^ 129\<close>, far from overflow and underflow.
\<close>

definition rounding :: "real \<Rightarrow> (real \<Rightarrow> real) \<Rightarrow> bool" where
  "rounding e ld \<longleftrightarrow> 0 \<le> e \<and> e \<le> 1 \<and> (\<forall>x \<ge> 0. (1 - e) * x \<le> ld x \<and> ld x \<le> (1 + e) * x) \<and>
     (\<forall>n < 2 ^ 63. ld (real n) = real n)"

definition near :: "real \<Rightarrow> nat \<Rightarrow> real \<Rightarrow> real \<Rightarrow> bool" where
  "near e k x y \<longleftrightarrow> (1 - e) ^ k * y \<le> x \<and> x \<le> (1 + e) ^ k * y"

lemma near_same [simp]: "near e 0 x x"
  by (simp add: near_def)

lemma near_nonneg: "0 \<le> e \<Longrightarrow> e \<le> 1 \<Longrightarrow> 0 \<le> y \<Longrightarrow> near e k x y \<Longrightarrow> 0 \<le> x"
  unfolding near_def by (meson diff_ge_0_iff_ge mult_nonneg_nonneg order_trans zero_le_power)

lemma near_mono:
  assumes "0 \<le> e" "e \<le> 1" "0 \<le> y" "near e j x y" "j \<le> k"
  shows "near e k x y"
proof -
  have "(1 - e) ^ k \<le> (1 - e) ^ j" "(1 + e) ^ j \<le> (1 + e) ^ k"
    using assms(1,2,5) by (simp_all add: power_decreasing power_increasing)
  then have "(1 - e) ^ k * y \<le> (1 - e) ^ j * y" "(1 + e) ^ j * y \<le> (1 + e) ^ k * y"
    using assms(3) by (simp_all add: mult_right_mono)
  with assms(4) show ?thesis by (simp add: near_def)
qed

lemma near_round:
  assumes "rounding e ld" "0 \<le> y" "near e k x y"
  shows "near e (Suc k) (ld x) y"
proof -
  have e: "0 \<le> e" "e \<le> 1" using assms(1) by (simp_all add: rounding_def)
  then have "0 \<le> x" using near_nonneg assms(2,3) by blast
  then have "(1 - e) * x \<le> ld x" "ld x \<le> (1 + e) * x" using assms(1) by (simp_all add: rounding_def)
  moreover have "(1 - e) * ((1 - e) ^ k * y) \<le> (1 - e) * x" "(1 + e) * x \<le> (1 + e) * ((1 + e) ^ k * y)"
    using e assms(3) by (simp_all add: near_def mult_left_mono)
  ultimately show ?thesis by (simp add: near_def algebra_simps)
qed

lemma near_add: "near e k x a \<Longrightarrow> near e k y b \<Longrightarrow> near e k (x + y) (a + b)"
  by (simp add: near_def distrib_left add_mono)

lemma near_mult:
  assumes "0 \<le> e" "e \<le> 1" "0 \<le> a" "0 \<le> b" "near e j x a" "near e k y b"
  shows "near e (j + k) (x * y) (a * b)"
proof -
  have "0 \<le> x" "0 \<le> y" using near_nonneg [OF assms(1,2)] assms by blast+
  moreover have "0 \<le> (1 - e) ^ j * a" "0 \<le> (1 - e) ^ k * b" using assms by simp_all
  ultimately have "((1 - e) ^ j * a) * ((1 - e) ^ k * b) \<le> x * y" "x * y \<le> ((1 + e) ^ j * a) * ((1 + e) ^ k * b)"
    using assms(5,6) by (auto simp: near_def intro!: mult_mono)
  then show ?thesis by (simp add: near_def power_add algebra_simps)
qed

lemma rounding_exact: "rounding e ld \<Longrightarrow> n < 2 ^ 63 \<Longrightarrow> ld (real n) = real n"
  by (simp add: rounding_def)

text \<open>The weight of the old mean loses little: the subtraction cancels nothing.\<close>

lemma near_weight:
  assumes "rounding e ld" "0 < n" "n < 2 ^ 63"
  shows "near e 2 (ld (1 - ld (1 / ld (real n)))) (1 - 1 / real n)"
proof (cases "n = 1")
  case True
  have "ld 1 = 1" "ld 0 = 0" using rounding_exact [OF assms(1), of 1] rounding_exact [OF assms(1), of 0] by simp_all
  then show ?thesis using True by (simp add: near_def)
next
  case False
  then have n: "2 \<le> real n" using assms(2) by linarith
  have e: "0 \<le> e" using assms(1) by (simp add: rounding_def)
  have ld: "ld (real n) = real n" using assms(1,3) by (simp add: rounding_def)
  define u where "u = ld (1 / real n)"
  have u: "(1 - e) * (1 / real n) \<le> u" "u \<le> (1 + e) * (1 / real n)"
    using near_round [OF assms(1), of "1 / real n" 0 "1 / real n"] by (simp_all add: u_def near_def)
  define a where "a = 1 / real n"
  have "1 / real n \<le> 1 - 1 / real n" using n by (simp add: field_simps)
  then have "e * a \<le> e * (1 - a)" using e unfolding a_def by (rule mult_left_mono)
  then have "near e 1 (1 - u) (1 - 1 / real n)"
    using u unfolding a_def [symmetric] by (simp add: near_def algebra_simps)
  moreover have "0 \<le> 1 - 1 / real n" using n by simp
  ultimately show ?thesis using near_round [OF assms(1)] unfolding u_def ld numeral_2_eq_2 One_nat_def by blast
qed

definition mean :: "nat list \<Rightarrow> real" where
  "mean vs = real (sum_list vs) / real (length vs)"

lemma mean_nonneg [simp]: "0 \<le> mean vs"
  by (simp add: mean_def)

lemma mean_snoc:
  "mean (vs @ [v]) = mean vs * (1 - 1 / real (length vs + 1)) + real v / real (length vs + 1)"
proof (cases "length vs = 0")
  case False
  define L where "L = real (length vs)"
  have "0 < L" using False by (simp add: L_def)
  then have "1 - 1 / (L + 1) = L / (L + 1)" by (simp add: field_simps)
  then have "mean vs * (1 - 1 / (L + 1)) = real (sum_list vs) / (L + 1)"
    using \<open>0 < L\<close> by (simp add: mean_def flip: L_def)
  then show ?thesis by (simp add: mean_def L_def add_divide_distrib add.commute)
qed (simp add: mean_def)

lemma work_number_mean:
  assumes "rounding e ld" "nw_count w = length vs" "near e (4 * length vs) (res w) (mean vs)" "length vs + 1 < 2 ^ 63"
  shows "near e (4 * length (vs @ [unat tmp])) (res (work_number ld tmp w)) (mean (vs @ [unat tmp]))"
proof -
  have e: "0 \<le> e" "e \<le> 1" using assms(1) by (simp_all add: rounding_def)
  define n where "n = length vs + 1"
  have n: "0 < n" "n < 2 ^ 63" "1 \<le> real n" using assms(4) by (simp_all add: n_def)
  define v where "v = real (unat tmp)"
  have v: "0 \<le> v" unfolding v_def by (rule of_nat_0_le_iff)
  have ld: "ld (real n) = real n" using assms(1) n(2) by (simp add: rounding_def)
  have "near e (4 * length vs + 2) (res w * ld (1 - ld (1 / ld (real n)))) (mean vs * (1 - 1 / real n))"
    using near_mult [OF e _ _ assms(3) near_weight [OF assms(1) n(1,2)]] n(3) by simp
  then have a: "near e (Suc (4 * length vs + 2)) (ld (res w * ld (1 - ld (1 / ld (real n))))) (mean vs * (1 - 1 / real n))"
    using near_round [OF assms(1)] n(3) by simp
  have "near e (Suc 0) (ld v) v" using near_round [OF assms(1) v near_same] .
  then have "near e (Suc 0 + 0) (ld v * (1 / real n)) (v * (1 / real n))"
    by (intro near_mult [OF e]) (simp_all add: v)
  then have "near e 2 (ld (ld v / ld (real n))) (v / real n)"
    using near_round [OF assms(1), of "v / real n" "Suc 0"] v by (simp add: ld numeral_2_eq_2)
  then have b: "near e (Suc (4 * length vs + 2)) (ld (ld v / ld (real n))) (v / real n)"
    by (rule near_mono [OF e, rotated]) (simp_all add: v)
  have len: "Suc (Suc (4 * length vs + 2)) = 4 * length (vs @ [unat tmp])" by simp
  have nonneg: "0 \<le> mean vs * (1 - 1 / real n) + v / real n" using n(3) v by simp
  show ?thesis
    using near_round [OF assms(1) nonneg near_add [OF a b]] unfolding v_def len
    by (simp add: work_number_def Let_def assms(2) mean_snoc n_def)
qed

section \<open>Lemmas: records and chunks\<close>

text \<open>The numbers of a file: its complete records of 32 digits and a separator.\<close>

fun numbers :: "string \<Rightarrow> nat list" where
  "numbers f = (if length f < 33 then [] else hex_value (take 32 f) # numbers (drop 33 f))"

declare numbers.simps [simp del]

lemma numbers_short [simp]: "length f < 33 \<Longrightarrow> numbers f = []"
  by (subst numbers.simps) simp

lemma numbers_long: "33 \<le> length f \<Longrightarrow> numbers f = hex_value (take 32 f) # numbers (drop 33 f)"
  by (subst numbers.simps) simp

lemma length_numbers: "length (numbers f) = length f div 33"
proof (induction f rule: numbers.induct)
  case (1 f)
  then show ?case by (cases "length f < 33") (simp_all add: numbers_long le_div_geq)
qed

lemma numbers_split: "numbers f = numbers (take (33 * k) f) @ numbers (drop (33 * k) f)"
proof (induction k arbitrary: f)
  case (Suc k)
  show ?case
  proof (cases "length f < 33")
    case False
    then have "numbers (take (33 * Suc k) f) = hex_value (take 32 f) # numbers (take (33 * k) (drop 33 f))"
      by (subst numbers_long) (simp_all add: drop_take)
    with False Suc.IH [of "drop 33 f"] show ?thesis by (simp add: numbers_long add.commute)
  qed simp
qed simp

lemma numbers_bound: "v \<in> set (numbers f) \<Longrightarrow> v < 2 ^ 128"
proof (induction f rule: numbers.induct)
  case (1 f)
  have "(16 :: nat) ^ length (take 32 f) \<le> 16 ^ 32" by (intro power_increasing) simp_all
  then have "hex_value (take 32 f) < 2 ^ 128" using hex_value_bound [of "take 32 f"] by simp
  with 1 show ?case by (cases "length f < 33") (auto simp: numbers_long)
qed

lemma work_loop_numbers:
  "length buf < 2 ^ 31 \<Longrightarrow> work_loop ld (length (drop (33 * i) buf) div 33) i buf w =
    Some (fold (\<lambda>v. work_number ld (of_nat v)) (numbers (drop (33 * i) buf)) w)"
proof (induction "length (drop (33 * i) buf) div 33" arbitrary: i w)
  case 0
  then have "length (drop (33 * i) buf) < 33" by (metis div_eq_0_iff zero_neq_numeral)
  then show ?case using 0 by simp
next
  case (Suc k)
  then have long: "33 \<le> length (drop (33 * i) buf)" by (metis div_eq_0_iff leI nat.distinct(1))
  have next': "drop 33 (drop (33 * i) buf) = drop (33 * Suc i) buf" by (simp add: add.commute)
  have k: "k = length (drop (33 * Suc i) buf) div 33"
    using Suc.hyps(2) long by (simp add: le_div_geq flip: next')
  have "is_int (int (33 * i))" using long Suc.prems by (simp add: is_int_def)
  then show ?case
    using Suc.hyps(1) [OF k Suc.prems] long
    unfolding Suc.hyps(2) [symmetric] numbers_long [OF long] next' by (simp add: k hex_to_int128_spec)
qed

lemma work_chunk:
  assumes "length buf < 2 ^ 31"
  shows "work_loop ld (read_count buf div (MAX_128_HEX_BYTES + 1)) 0 buf w =
    Some (fold (\<lambda>v. work_number ld (of_nat v)) (numbers buf) w)"
  using assms work_loop_numbers [of buf ld 0 w] by (simp add: read_count_def)

definition mean_ok :: "real \<Rightarrow> nw_args \<Rightarrow> nat list \<Rightarrow> bool" where
  "mean_ok e w vs \<longleftrightarrow> nw_count w = length vs \<and> near e (4 * length vs) (res w) (mean vs)"

lemma fold_mean_ok:
  "rounding e ld \<Longrightarrow> mean_ok e w vs \<Longrightarrow> \<forall>v \<in> set ns. v < 2 ^ 128 \<Longrightarrow> length vs + length ns < 2 ^ 63 \<Longrightarrow>
   mean_ok e (fold (\<lambda>v. work_number ld (of_nat v)) ns w) (vs @ ns)"
proof (induction ns arbitrary: w vs)
  case (Cons n ns)
  have n: "unat (of_nat n :: u128) = n" using Cons.prems(3) by (simp add: unat_of_nat)
  have "mean_ok e (work_number ld (of_nat n) w) (vs @ [n])"
    using work_number_mean [OF Cons.prems(1), of w vs "of_nat n"] Cons.prems(2,4) n
    by (simp add: mean_ok_def) (simp add: work_number_def Let_def)
  from Cons.IH [OF Cons.prems(1) this] Cons.prems(3,4) show ?case by simp
qed simp

lemma fold_max_memory [simp]: "max_memory (fold (\<lambda>v. work_number ld (of_nat v)) ns w) = max_memory w"
  by (induction ns arbitrary: w) (simp_all add: work_number_def Let_def)

section \<open>The invariant\<close>

text \<open>
  Every number is counted by one thread, waits in the buffer of one, or is still in the file. A
  thread that has seen a short chunk has seen the end of the file.
\<close>

definition pending :: "worker \<Rightarrow> nat list" where
  "pending w = (case pc w of Working buf \<Rightarrow> numbers buf | _ \<Rightarrow> [])"

definition worker_ok :: "real \<Rightarrow> nat \<Rightarrow> string \<Rightarrow> worker \<Rightarrow> nat list \<Rightarrow> bool" where
  "worker_ok e m file w vs \<longleftrightarrow> mean_ok e (nw w) vs \<and> max_memory (nw w) = m \<and>
     (case pc w of Reading \<Rightarrow> True | Working buf \<Rightarrow> length buf \<le> m \<and> (length buf < m \<longrightarrow> file = []) | Finished \<Rightarrow> file = [])"

definition average_inv :: "real \<Rightarrow> string \<Rightarrow> nat \<Rightarrow> average \<Rightarrow> nat list list \<Rightarrow> bool" where
  "average_inv e f m s vss \<longleftrightarrow> length vss = length (workers s) \<and>
     (\<forall>i < length (workers s). worker_ok e m (number_file s) (workers s ! i) (vss ! i)) \<and>
     mset (concat vss) + mset (concat (map pending (workers s))) + mset (numbers (number_file s)) = mset (numbers f)"

lemma mset_concat_update:
  "i < length xss \<Longrightarrow> mset (concat (xss[i := ys])) + mset (xss ! i) = mset (concat xss) + mset ys"
proof (induction xss arbitrary: i)
  case (Cons xs xss)
  then show ?case by (cases i) (auto simp: add.assoc)
qed simp

lemma worker_ok_file: "worker_ok e m file w vs \<Longrightarrow> worker_ok e m (drop k file) w vs"
  by (auto simp: worker_ok_def split: worker_pc.splits)

lemma inv_read:
  assumes "average_inv e f m s vss" "i < length (workers s)" "pc (workers s ! i) = Reading" "33 dvd m"
  shows "average_inv e f m (s\<lparr>number_file := drop m (number_file s),
      workers := (workers s)[i := (workers s ! i)\<lparr>pc := Working (take m (number_file s))\<rparr>]\<rparr>) vss"
proof -
  let ?w = "(workers s ! i)\<lparr>pc := Working (take m (number_file s))\<rparr>"
  obtain k where k: "m = 33 * k" using assms(4) by (elim dvdE)
  have "worker_ok e m (drop m (number_file s)) ((workers s)[i := ?w] ! j) (vss ! j)" if "j < length (workers s)" for j
  proof (cases "j = i")
    case True
    then show ?thesis using assms(1,2) by (auto simp: average_inv_def worker_ok_def)
  next
    case False
    then show ?thesis using assms(1) that worker_ok_file by (auto simp: average_inv_def)
  qed
  moreover have "mset (concat (map pending ((workers s)[i := ?w]))) =
      mset (concat (map pending (workers s))) + mset (numbers (take m (number_file s)))"
    using mset_concat_update [of i "map pending (workers s)" "pending ?w"] assms(2,3)
    by (simp add: map_update pending_def)
  moreover have "mset (numbers (number_file s)) = mset (numbers (take m (number_file s))) + mset (numbers (drop m (number_file s)))"
    using numbers_split [of "number_file s" k] unfolding k by (metis mset_append)
  ultimately show ?thesis using assms(1) by (simp add: average_inv_def add_ac)
qed

lemma inv_work:
  assumes "average_inv e f m s vss" "i < length (workers s)" "pc (workers s ! i) = Working buf"
    and "rounding e ld" "m < 2 ^ 31" "length (numbers f) < 2 ^ 63"
  defines "n \<equiv> fold (\<lambda>v. work_number ld (of_nat v)) (numbers buf) (nw (workers s ! i))"
  shows "average_inv e f m (s\<lparr>workers := (workers s)[i := \<lparr>nw = n,
      pc = (if read_count buf < max_memory n then Finished else Reading)\<rparr>]\<rparr>) (vss[i := vss ! i @ numbers buf])"
proof -
  let ?w = "\<lparr>nw = n, pc = (if read_count buf < max_memory n then Finished else Reading)\<rparr>"
  have len: "length vss = length (workers s)" using assms(1) by (simp add: average_inv_def)
  have ok: "worker_ok e m (number_file s) (workers s ! i) (vss ! i)" using assms(1,2) by (simp add: average_inv_def)
  have buf: "length buf \<le> m" "read_count buf = length buf" "length buf < m \<longrightarrow> number_file s = []"
    using ok assms(3,5) by (simp_all add: worker_ok_def read_count_def)
  have p: "mset (concat (map pending ((workers s)[i := ?w]))) + mset (numbers buf) = mset (concat (map pending (workers s)))"
    using mset_concat_update [of i "map pending (workers s)" "pending ?w"] assms(2,3)
    by (simp add: map_update pending_def)
  have v: "mset (concat (vss[i := vss ! i @ numbers buf])) = mset (concat vss) + mset (numbers buf)"
    using mset_concat_update [of i vss "vss ! i @ numbers buf"] assms(2) len by simp
  have total: "mset (concat (vss[i := vss ! i @ numbers buf])) + mset (concat (map pending ((workers s)[i := ?w]))) +
      mset (numbers (number_file s)) = mset (numbers f)"
    using assms(1) p unfolding v average_inv_def by (metis (no_types, lifting) add.assoc add.commute)
  have "mset (vss ! i @ numbers buf) \<subseteq># mset (concat (vss[i := vss ! i @ numbers buf]))"
    using mset_concat_update [of i "vss[i := vss ! i @ numbers buf]" "[]"] assms(2) len
    by (simp) (metis mset_append mset_subset_eq_add_right)
  then have "mset (vss ! i @ numbers buf) \<subseteq># mset (numbers f)"
    using total by (metis mset_subset_eq_add_left subset_mset.order_trans)
  then have short: "length (vss ! i @ numbers buf) \<le> length (numbers f)"
    using size_mset_mono [of "mset (vss ! i @ numbers buf)" "mset (numbers f)"] by simp
  have "mean_ok e n (vss ! i @ numbers buf)"
    unfolding n_def using ok short assms(6) numbers_bound
    by (intro fold_mean_ok [OF assms(4)]) (auto simp: worker_ok_def)
  then have "worker_ok e m (number_file s) ?w (vss ! i @ numbers buf)"
    using ok buf by (simp add: worker_ok_def n_def)
  then have "worker_ok e m (number_file s) ((workers s)[i := ?w] ! j) (vss[i := vss ! i @ numbers buf] ! j)" if "j < length (workers s)" for j
    using assms(1,2) that len by (cases "j = i") (simp_all add: average_inv_def)
  with total len show ?thesis by (simp add: average_inv_def)
qed

lemma inv_step:
  assumes "average_step ld s s'" "average_inv e f m s vss" "rounding e ld" "33 dvd m" "m < 2 ^ 31" "length (numbers f) < 2 ^ 63"
  shows "\<exists>vss'. average_inv e f m s' vss'"
  using assms(1)
proof cases
  case (read i m')
  then have "m' = m" using assms(2) by (simp add: average_inv_def worker_ok_def)
  with read inv_read [OF assms(2) read(2,3) assms(4)] show ?thesis by auto
next
  case (work i buf n)
  have "length buf < 2 ^ 31" using assms(2,5) work(2,3) by (fastforce simp: average_inv_def worker_ok_def)
  then have "n = fold (\<lambda>v. work_number ld (of_nat v)) (numbers buf) (nw (workers s ! i))"
    using work(4) work_chunk [of buf ld "nw (workers s ! i)"] by simp
  then show ?thesis using inv_work [OF assms(2) work(2,3) assms(3,5,6)] work(1) by auto
qed

lemma inv_start: "average_inv e f m (average_start threads m f) (replicate threads [])"
proof -
  have "mean_ok e \<lparr>max_memory = m, res = 0, nw_count = 0\<rparr> []" by (simp add: mean_ok_def mean_def)
  then show ?thesis by (simp add: average_inv_def average_start_def worker_ok_def pending_def)
qed

lemma step_shape:
  assumes "average_step ld s s'"
  shows "length (workers s') = length (workers s)"
  using assms by cases auto

interpretation shape: schedule "average_step ld" "\<lambda>s. length (workers s) = k" for ld k
  by unfold_locales (simp add: step_shape)

section \<open>Lemmas: progress and result\<close>

lemma inv_progress:
  assumes "average_inv e f m s vss" "m < 2 ^ 31" "\<exists>w \<in> set (workers s). pc w \<noteq> Finished"
  shows "\<exists>s'. average_step ld s s'"
proof -
  obtain i where i: "i < length (workers s)" "pc (workers s ! i) \<noteq> Finished"
    using assms(3) by (auto simp: in_set_conv_nth)
  then have ok: "worker_ok e m (number_file s) (workers s ! i) (vss ! i)" using assms(1) by (simp add: average_inv_def)
  show ?thesis
  proof (cases "pc (workers s ! i)")
    case Reading
    then show ?thesis using i(1) average_step.read by blast
  next
    case (Working buf)
    then have "length buf < 2 ^ 31" using ok assms(2) by (simp add: worker_ok_def)
    then show ?thesis using average_step.work [OF i(1) Working work_chunk] by blast
  qed (use i in simp)
qed

text \<open>What a schedule can still do: chunks to read, and per thread what is left to do.\<close>

definition worker_rank :: "nat \<Rightarrow> worker \<Rightarrow> nat" where
  "worker_rank m w = (case pc w of Reading \<Rightarrow> 2 | Working buf \<Rightarrow> if length buf < m then 1 else 3 | Finished \<Rightarrow> 0)"

definition average_rank :: "nat \<Rightarrow> average \<Rightarrow> nat" where
  "average_rank m s = 4 * length (number_file s) + sum_list (map (worker_rank m) (workers s))"

lemma sum_list_update_rank:
  "i < length ws \<Longrightarrow> sum_list (map g (ws[i := w])) + g (ws ! i) = sum_list (map g ws) + (g w :: nat)"
proof (induction ws arbitrary: i)
  case (Cons x ws)
  then show ?case by (cases i) (auto simp: add.assoc)
qed simp

lemma rank_step:
  assumes "average_step ld s s'" "average_inv e f m s vss" "0 < m" "m < 2 ^ 31"
  shows "average_rank m s' < average_rank m s"
  using assms(1)
proof cases
  case (read i m')
  have m: "m' = m" using assms(2) read by (simp add: average_inv_def worker_ok_def)
  let ?w = "(workers s ! i)\<lparr>pc := Working (take m (number_file s))\<rparr>"
  have "sum_list (map (worker_rank m) ((workers s)[i := ?w])) + 2 =
      sum_list (map (worker_rank m) (workers s)) + (if length (number_file s) < m then 1 else 3)"
    using sum_list_update_rank [OF read(2), of "worker_rank m" ?w] read(3) by (auto simp: worker_rank_def)
  then show ?thesis unfolding read(1) m average_rank_def using assms(3)
    by (cases "length (number_file s) < m") auto
next
  case (work i buf n)
  have buf: "length buf \<le> m" "max_memory (nw (workers s ! i)) = m"
    using assms(2) work(2,3) by (fastforce simp: average_inv_def worker_ok_def)+
  then have "read_count buf = length buf" using assms(4) by (simp add: read_count_def)
  moreover have "max_memory n = m"
    using work(4) work_chunk [of buf ld "nw (workers s ! i)"] buf assms(4) by auto
  ultimately show ?thesis
    using sum_list_update_rank [OF work(2), of "worker_rank m" "\<lparr>nw = n, pc = (if read_count buf < max_memory n then Finished else Reading)\<rparr>"]
    unfolding work(1) average_rank_def by (auto simp: worker_rank_def work(3) split: if_splits)
qed

text \<open>Under every schedule.\<close>

definition average_safe :: "real \<Rightarrow> (real \<Rightarrow> real) \<Rightarrow> string \<Rightarrow> nat \<Rightarrow> average \<Rightarrow> bool" where
  "average_safe e ld f m s \<longleftrightarrow> (\<exists>vss. average_inv e f m s vss) \<and> rounding e ld \<and> 33 dvd m \<and> m < 2 ^ 31 \<and> length (numbers f) < 2 ^ 63"

lemma average_safe_start:
  "rounding e ld \<Longrightarrow> 33 dvd m \<Longrightarrow> m < 2 ^ 31 \<Longrightarrow> length (numbers f) < 2 ^ 63 \<Longrightarrow> average_safe e ld f m (average_start threads m f)"
  unfolding average_safe_def using inv_start by blast

lemma average_safe_step: "average_step ld s s' \<Longrightarrow> average_safe e ld f m s \<Longrightarrow> average_safe e ld f m s'"
  using inv_step by (auto simp: average_safe_def)

interpretation chunks: schedule "average_step ld" "average_safe e ld f m" for ld e f m
  by unfold_locales (rule average_safe_step)

interpretation threads: bounded_schedule "average_step ld" "\<lambda>s. average_safe e ld f m s \<and> 0 < m" "average_rank m" for ld e f m
  by unfold_locales (auto simp: average_safe_def intro: rank_step dest: inv_step)

text \<open>Weighted means of the threads.\<close>

lemma near_weighted:
  assumes "rounding e ld" "length vs \<le> n" "0 < n" "n < 2 ^ 63" "mean_ok e w vs"
  shows "near e (4 * n + 2) (ld (res w * ld (ld (real (nw_count w)) / ld (real n)))) (real (sum_list vs) / real n)"
proof -
  have e: "0 \<le> e" "e \<le> 1" using assms(1) by (simp_all add: rounding_def)
  have ld: "ld (real n) = real n" "ld (real (length vs)) = real (length vs)"
    using assms(2,4) by (simp_all add: rounding_exact [OF assms(1)])
  let ?q = "real (length vs) / real n"
  have q: "near e (Suc 0) (ld ?q) ?q" using near_round [OF assms(1)] by simp
  have r: "near e (4 * length vs) (res w) (mean vs)" "nw_count w = length vs" using assms(5) by (simp_all add: mean_ok_def)
  have "near e (4 * length vs + Suc 0) (res w * ld ?q) (mean vs * ?q)"
    by (rule near_mult [OF e _ _ r(1) q]) simp_all
  then have "near e (Suc (4 * length vs + Suc 0)) (ld (res w * ld ?q)) (mean vs * ?q)"
    by (intro near_round [OF assms(1)]) simp_all
  note a = this
  have same: "mean vs * ?q = real (sum_list vs) / real n" by (cases "vs = []") (simp_all add: mean_def)
  have "near e (Suc (4 * length vs + Suc 0)) (ld (res w * ld ?q)) (real (sum_list vs) / real n)" using a unfolding same .
  then have "near e (4 * n + 2) (ld (res w * ld ?q)) (real (sum_list vs) / real n)"
    by (rule near_mono [OF e, rotated]) (use assms(2) in simp_all)
  then show ?thesis by (simp add: ld r(2))
qed

lemma near_weighted_sum:
  assumes "rounding e ld" "0 < n" "n < 2 ^ 63"
  shows "list_all2 (\<lambda>w vs. mean_ok e (nw w) vs \<and> length vs \<le> n) ws vss \<Longrightarrow> near e (4 * n + 2 + k) x y \<Longrightarrow> 0 \<le> y \<Longrightarrow>
    near e (4 * n + 2 + k + length ws)
      (foldl (\<lambda>result w. ld (result + ld (res (nw w) * ld (ld (real (nw_count (nw w))) / ld (real n))))) x ws)
      (y + real (sum_list (concat vss)) / real n)"
proof (induction ws vss arbitrary: x y k rule: list_all2_induct)
  case (Cons w ws vs vss)
  have e: "0 \<le> e" "e \<le> 1" using assms(1) by (simp_all add: rounding_def)
  let ?t = "ld (res (nw w) * ld (ld (real (nw_count (nw w))) / ld (real n)))"
  have "near e (4 * n + 2) ?t (real (sum_list vs) / real n)"
    using near_weighted [OF assms(1)] Cons.hyps(1) assms(2,3) by blast
  then have "near e (4 * n + 2 + k) ?t (real (sum_list vs) / real n)"
    by (rule near_mono [OF e, rotated]) simp_all
  from near_round [OF assms(1) _ near_add [OF Cons.prems(1) this]] Cons.prems(2)
  have "near e (4 * n + 2 + Suc k) (ld (x + ?t)) (y + real (sum_list vs) / real n)" by simp
  from Cons.IH [OF this] Cons.prems(2) show ?case by (simp add: add_divide_distrib add.assoc)
qed simp

lemma inv_result:
  assumes "average_inv e f m s vss" "\<forall>w \<in> set (workers s). pc w = Finished" "workers s \<noteq> []"
    and "rounding e ld" "length (numbers f) < 2 ^ 63" "numbers f \<noteq> []"
  shows "\<exists>r. average_result ld (workers s) = Some r \<and>
    near e (4 * length (numbers f) + 2 + length (workers s)) r (mean (numbers f))"
proof -
  have ws: "\<forall>i < length (workers s). worker_ok e m (number_file s) (workers s ! i) (vss ! i)" "length vss = length (workers s)"
    using assms(1) by (simp_all add: average_inv_def)
  have "pc (workers s ! 0) = Finished" using assms(2,3) by simp
  then have "number_file s = []" using ws(1) assms(3) by (auto simp: worker_ok_def)
  moreover have "concat (map pending (workers s)) = []" using assms(2) by (simp add: pending_def)
  ultimately have all: "mset (concat vss) = mset (numbers f)"
    using assms(1) unfolding average_inv_def by (metis add.right_neutral length_numbers div_0 length_0_conv mset_zero_iff)
  then have sums: "sum_list (concat vss) = sum_list (numbers f)" "length (concat vss) = length (numbers f)"
    by (metis sum_mset_sum_list, metis size_mset)
  have count: "sum_list (map (\<lambda>w. nw_count (nw w)) (workers s)) = length (numbers f)"
  proof -
    have "map (\<lambda>w. nw_count (nw w)) (workers s) = map length vss"
      using ws by (intro nth_equalityI) (simp_all add: worker_ok_def mean_ok_def)
    then show ?thesis using sums(2) by (simp add: length_concat)
  qed
  have short: "length vs \<le> length (numbers f)" if "vs \<in> set vss" for vs
    using that sums(2) member_le_sum_list [of "length vs" "map length vss"] by (simp add: length_concat)
  have "list_all2 (\<lambda>w vs. mean_ok e (nw w) vs \<and> length vs \<le> length (numbers f)) (workers s) vss"
    unfolding list_all2_conv_all_nth using ws short by (simp add: worker_ok_def)
  from near_weighted_sum [OF assms(4) _ assms(5) this, of 0 0 0] assms(6)
  show ?thesis by (simp add: average_result_def count mean_def sums(1) near_def)
qed

lemma args_parsing_Inr:
  assumes "args_parsing argv DEFAULT_MAX_THREADS DEFAULT_MAX_MEMORY = Inr opts"
  shows "0 < max_threads opts" "0 < max_memory_opt opts"
    "48 * max_threads opts < 2 ^ 64 \<Longrightarrow> warned opts \<longleftrightarrow> max_memory_opt opts < 48 * max_threads opts"
proof -
  have long: "strtol t < 2 ^ 63" for t   proof -
    have "clamp_long n < 2 ^ 63" for n by (simp add: clamp_long_def min_less_iff_disj)
    then show ?thesis unfolding strtol_def Let_def by (simp split: list.split)
  qed
  have "0 < max_threads opts \<and> 0 < max_memory_opt opts \<and> max_memory_opt opts < 2 ^ 63 \<and>
      warned opts = (max_memory_opt opts mod 2 ^ 64 < 48 * max_threads opts mod 2 ^ 64)"
    using assms long by (auto simp: args_parsing_def Let_def split: if_split_asm)
  then show "0 < max_threads opts" "0 < max_memory_opt opts"
    "48 * max_threads opts < 2 ^ 64 \<Longrightarrow> warned opts \<longleftrightarrow> max_memory_opt opts < 48 * max_threads opts" by auto
qed

lemma thread_memory_room:
  assumes "0 < threads" "0 < memory"
  defines "q \<equiv> memory div threads"
  shows "(33 dvd m \<and> 0 < m \<and> 33 * threads \<le> memory \<and> int m * threads \<le> memory \<and> memory < (int m + 33) * threads) \<longleftrightarrow>
    q - q mod 33 \<noteq> 0 \<and> m = nat (q - q mod 33)"
proof -
  have le: "k * threads \<le> memory \<longleftrightarrow> k \<le> q" for k
  proof
    assume "k * threads \<le> memory"
    then show "k \<le> q" using zdiv_mono1 [of "k * threads" memory threads] assms(1) by (simp add: q_def)
  next
    assume "k \<le> q"
    then have "k * threads \<le> q * threads" using assms(1) by (simp add: mult_right_mono)
    then show "k * threads \<le> memory"
      using div_mult_mod_eq [of memory threads] pos_mod_sign [OF assms(1), of memory] unfolding q_def by linarith
  qed
  have a: "memory < (int m + 33) * threads \<longleftrightarrow> q < int m + 33" using le [of "int m + 33"] by linarith
  have b: "33 * threads \<le> memory \<longleftrightarrow> 33 \<le> q" using le [of 33] by simp
  have c: "33 dvd m \<longleftrightarrow> (33 :: int) dvd int m" by presburger
  have "0 \<le> q" using assms(1,2) unfolding q_def by (simp add: pos_imp_zdiv_nonneg_iff)
  then have eq: "(33 dvd M \<and> 0 < M \<and> 33 \<le> q \<and> M \<le> q \<and> q < M + 33) \<longleftrightarrow> q - q mod 33 \<noteq> 0 \<and> M = q - q mod 33"
    if "0 \<le> M" for M
  proof -
    have q: "q - q mod 33 = 33 * (q div 33)" by (rule minus_mod_eq_mult_div)
    have bounds: "33 * (q div 33) \<le> q" "q < 33 * (q div 33) + 33" by presburger+
    show ?thesis
    proof
      assume l: "33 dvd M \<and> 0 < M \<and> 33 \<le> q \<and> M \<le> q \<and> q < M + 33"
      then obtain j where "M = 33 * j" by (elim conjE dvdE)
      moreover from this l bounds have "j = q div 33" by linarith
      ultimately show "q - q mod 33 \<noteq> 0 \<and> M = q - q mod 33" using l unfolding q by simp
    next
      assume "q - q mod 33 \<noteq> 0 \<and> M = q - q mod 33"
      then show "33 dvd M \<and> 0 < M \<and> 33 \<le> q \<and> M \<le> q \<and> q < M + 33" using that bounds unfolding q by auto
    qed
  qed
  have "0 \<le> q - q mod 33" using \<open>0 \<le> q\<close> by presburger
  then have m: "m = nat (q - q mod 33) \<longleftrightarrow> int m = q - q mod 33" by linarith
  show ?thesis unfolding le [of "int m"] a b c m using eq [of "int m"] by simp
qed

section \<open>Properties\<close>

text \<open>
  C16: the mean, whatever the schedule, for buffers below 2 GiB. The threads take turns in any order until none can go on.
  Then all are finished, and if the file has \<open>n > 0\<close> complete records, the weighted mean that is
  printed differs from the mean of their values by a factor of at most \<open>4 n + 2\<close> roundings and one
  per thread; with exact arithmetic (\<open>e = 0\<close>) it is the mean. Characters behind the last complete
  record, such as a last number without its separator, do not count; a file without a complete
  record has no result.
\<close>

theorem average_any_schedule:
  assumes "(average_step ld)\<^sup>*\<^sup>* (average_start threads m f) s" "\<nexists>s'. average_step ld s s'"
    and "rounding e ld" "0 < threads" "33 dvd m" "m < 2 ^ 31" "length f < 2 ^ 63"
  shows "(\<forall>w \<in> set (workers s). pc w = Finished) \<and>
    (numbers f = [] \<longrightarrow> average_result ld (workers s) = None) \<and>
    (numbers f \<noteq> [] \<longrightarrow> (\<exists>r. average_result ld (workers s) = Some r \<and>
       (1 - e) ^ (4 * length (numbers f) + 2 + threads) * mean (numbers f) \<le> r \<and>
       r \<le> (1 + e) ^ (4 * length (numbers f) + 2 + threads) * mean (numbers f)))"
proof -
  have short: "length (numbers f) < 2 ^ 63" using assms(7) by (simp add: length_numbers)
  obtain vss where inv: "average_inv e f m s vss" using chunks.run_inv [OF assms(1) average_safe_start [OF assms(3,5,6) short]]
    by (auto simp: average_safe_def)
  have fin: "\<forall>w \<in> set (workers s). pc w = Finished" using inv_progress [OF inv assms(6)] assms(2) by blast
  have len: "length (workers s) = threads" using shape.run_inv [OF assms(1), of threads] by (simp add: average_start_def)
  have "average_result ld (workers s) = None" if "numbers f = []"
  proof -
    have "nw_count (nw w) = 0" if "w \<in> set (workers s)" for w
      using inv \<open>numbers f = []\<close> that by (fastforce simp: average_inv_def worker_ok_def mean_ok_def in_set_conv_nth concat_eq_Nil_conv)
    then have "map (\<lambda>w. nw_count (nw w)) (workers s) = map (\<lambda>w. 0) (workers s)" by simp
    then show ?thesis by (simp add: average_result_def sum_list_eq_0_iff)
  qed
  moreover have "workers s \<noteq> []" using len assms(4) by auto
  ultimately show ?thesis using fin inv_result [OF inv fin _ assms(3) short] len by (auto simp: near_def)
qed

text \<open>
  C17: the threads end. A schedule has at most four steps per character of the file and two per
  thread, and as long as a thread is not finished some thread can go on: no thread waits for ever
  and none faults.
\<close>

theorem average_terminates:
  assumes "(average_step ld ^^ k) (average_start threads m f) s"
    and "rounding e ld" "33 dvd m" "0 < m" "m < 2 ^ 31" "length f < 2 ^ 63"
  shows "k \<le> 4 * length f + 2 * threads \<and>
    ((\<exists>w \<in> set (workers s). pc w \<noteq> Finished) \<longrightarrow> (\<exists>s'. average_step ld s s'))"
proof -
  have short: "length (numbers f) < 2 ^ 63" using assms(6) by (simp add: length_numbers)
  have start: "average_safe e ld f m (average_start threads m f) \<and> 0 < m" using average_safe_start [OF assms(2,3,5) short] assms(4) by blast
  have "average_rank m s + k \<le> average_rank m (average_start threads m f)" by (rule threads.run_rank [OF assms(1) start])
  moreover have "\<exists>vss. average_inv e f m s vss"
    using threads.run_inv [OF relpowp_imp_rtranclp [OF assms(1)] start] by (simp add: average_safe_def)
  moreover have "average_rank m (average_start threads m f) = 4 * length f + 2 * threads"
    by (simp add: average_rank_def average_start_def worker_rank_def sum_list_replicate mult.commute)
  ultimately show ?thesis using inv_progress assms(5) by fastforce
qed

text \<open>
  What the options lead to. The threads are started exactly if the options are accepted, the
  file opens, and every thread has room for one record, \<open>33 * max_threads \<le> max_memory\<close>; each then
  gets a positive multiple of 33 bytes and all together at most \<open>max_memory\<close>. The threads and the
  memory are positive then. The warning appears below 48 bytes per thread, not below the 33 that
  its text names.
\<close>

theorem average_main_started:
  "(average_main fopen argv = Started s w \<longleftrightarrow>
    (\<exists>opts f m. args_parsing argv DEFAULT_MAX_THREADS DEFAULT_MAX_MEMORY = Inr opts \<and> fopen (filename opts) = Some f \<and>
       33 * max_threads opts \<le> max_memory_opt opts \<and> w = warned opts \<and> s = average_start (nat (max_threads opts)) m f \<and>
       33 dvd m \<and> 0 < m \<and> int m * max_threads opts \<le> max_memory_opt opts \<and>
       max_memory_opt opts < (int m + 33) * max_threads opts)) \<and>
   (\<forall>opts. args_parsing argv DEFAULT_MAX_THREADS DEFAULT_MAX_MEMORY = Inr opts \<longrightarrow>
     0 < max_threads opts \<and> 0 < max_memory_opt opts \<and>
     (48 * max_threads opts < 2 ^ 64 \<longrightarrow> (warned opts \<longleftrightarrow> max_memory_opt opts < 48 * max_threads opts)))"
proof -
  have opts: "0 < max_threads opts \<and> 0 < max_memory_opt opts \<and>
     (48 * max_threads opts < 2 ^ 64 \<longrightarrow> (warned opts \<longleftrightarrow> max_memory_opt opts < 48 * max_threads opts))"
    if "args_parsing argv DEFAULT_MAX_THREADS DEFAULT_MAX_MEMORY = Inr opts" for opts
    using args_parsing_Inr [OF that] by auto
  have "average_main fopen argv = Started s w \<longleftrightarrow>
    (\<exists>opts f m. args_parsing argv DEFAULT_MAX_THREADS DEFAULT_MAX_MEMORY = Inr opts \<and> fopen (filename opts) = Some f \<and>
       33 * max_threads opts \<le> max_memory_opt opts \<and> w = warned opts \<and> s = average_start (nat (max_threads opts)) m f \<and>
       33 dvd m \<and> 0 < m \<and> int m * max_threads opts \<le> max_memory_opt opts \<and>
       max_memory_opt opts < (int m + 33) * max_threads opts)"
  proof (cases "args_parsing argv DEFAULT_MAX_THREADS DEFAULT_MAX_MEMORY")
    case (Inr opts)
    let ?q = "max_memory_opt opts div max_threads opts"
    have room: "(33 dvd m \<and> 0 < m \<and> 33 * max_threads opts \<le> max_memory_opt opts \<and> int m * max_threads opts \<le> max_memory_opt opts \<and>
        max_memory_opt opts < (int m + 33) * max_threads opts) \<longleftrightarrow> ?q - ?q mod 33 \<noteq> 0 \<and> m = nat (?q - ?q mod 33)" for m
      using thread_memory_room [of "max_threads opts" "max_memory_opt opts" m] opts [OF Inr] by simp
    show ?thesis
    proof (cases "fopen (filename opts)")
      case (Some f)
      have "average_main fopen argv = Started s w \<longleftrightarrow>
          (\<exists>m. (?q - ?q mod 33 \<noteq> 0 \<and> m = nat (?q - ?q mod 33)) \<and> w = warned opts \<and> s = average_start (nat (max_threads opts)) m f)"
        by (auto simp: average_main_def Inr Some Let_def)
      then show ?thesis unfolding room [symmetric] by (auto simp: Inr Some)
    qed (simp add: average_main_def Inr)
  qed (simp add: average_main_def)
  with opts show ?thesis by blast
qed

section \<open>Two threads and one number\<close>

definition one_number :: string where
  "one_number = replicate 31 (CHR ''0'') @ ''2 ''"

lemma one_number_facts: "numbers one_number = [2]" "length one_number = 33"
  by code_simp+

lemma rounding_exact_arithmetic: "rounding 0 (\<lambda>x. x)"
  by (simp add: rounding_def)

theorem average_any_schedule_witness:
  "\<exists>s. (average_step (\<lambda>x. x))\<^sup>*\<^sup>* (average_start 2 66 one_number) s \<and> average_result (\<lambda>x. x) (workers s) = Some 2"
proof -
  have "\<exists>s. (average_step (\<lambda>x. x))\<^sup>*\<^sup>* (average_start 2 66 one_number) s \<and> (\<nexists>s'. average_step (\<lambda>x. x) s s')"
    using threads.run_ends [of 0 "\<lambda>x. x" one_number 66] average_safe_start [OF rounding_exact_arithmetic] by (simp add: one_number_facts)
  then obtain s where s: "(average_step (\<lambda>x. x))\<^sup>*\<^sup>* (average_start 2 66 one_number) s" "\<nexists>s'. average_step (\<lambda>x. x) s s'" by blast
  then show ?thesis
    using average_any_schedule [OF s rounding_exact_arithmetic] by (auto simp: one_number_facts mean_def)
qed

theorem average_terminates_witness:
  "\<exists>s. average_step (\<lambda>x. x) (average_start 2 66 one_number) s \<and> \<not> (average_step (\<lambda>x. x) ^^ 137) (average_start 2 66 one_number) s"
proof -
  have "\<exists>s. average_step (\<lambda>x. x) (average_start 2 66 one_number) s"
    using average_terminates [of 0 "\<lambda>x. x" 2 66 one_number "average_start 2 66 one_number" 0] rounding_exact_arithmetic
    by (simp add: one_number_facts average_start_def)
  moreover have "\<not> (average_step (\<lambda>x. x) ^^ 137) (average_start 2 66 one_number) s" for s
    using average_terminates [of 137 "\<lambda>x. x" 2 66 one_number s 0] rounding_exact_arithmetic
    by (auto simp: one_number_facts)
  ultimately show ?thesis by blast
qed

theorem average_main_started_witness:
  "\<exists>s. average_main (\<lambda>_. Some one_number) [''prog'', ''-t'', ''2'', ''-m'', ''66'', ''numbers''] = Started s True"
proof -
  have "args_parsing [''prog'', ''-t'', ''2'', ''-m'', ''66'', ''numbers''] DEFAULT_MAX_THREADS DEFAULT_MAX_MEMORY =
      Inr \<lparr>filename = ''numbers'', max_threads = 2, max_memory_opt = 66, warned = True\<rparr>" by code_simp
  then show ?thesis
    using average_main_started [of "\<lambda>_. Some one_number" "[''prog'', ''-t'', ''2'', ''-m'', ''66'', ''numbers'']"
        "average_start 2 33 one_number" True]
    by auto
qed

end
