(* ===== verification/GenerateHex.thy ===== *)
theory GenerateHex
  imports ParallelAverage
begin

text \<open>
  Lab 3: the generator of test files, \<^verbatim>\<open>lab3/generate_hex128.c\<close>. It writes random numbers in the
  format that the averaging program reads, and their running mean. The rounding of \<open>long double\<close>,
  \<open>strtold\<close>, the draws of \<open>drand48\<close> and whether the file can be created are parameters. A conversion
  of a floating-point number that does not fit the integer type is undefined, so a fault.
\<close>

section \<open>The program\<close>

definition trunc :: "real \<Rightarrow> int" where
  "trunc x = (if 0 \<le> x then \<lfloor>x\<rfloor> else \<lceil>x\<rceil>)"

definition to_int128 :: "real \<Rightarrow> int option" where
  "to_int128 x = (if - (2 ^ 127) \<le> trunc x \<and> trunc x < 2 ^ 127 then Some (trunc x) else None)"

definition to_uint128 :: "real \<Rightarrow> u128 option" where
  "to_uint128 x = (if 0 \<le> trunc x \<and> trunc x < 2 ^ 128 then Some (word_of_int (trunc x)) else None)"

text \<open>The signed product is converted to \<open>unsigned\<close> by the addition.\<close>

definition random_number :: "(real \<Rightarrow> real) \<Rightarrow> u128 \<Rightarrow> u128 \<Rightarrow> real \<Rightarrow> u128 option" where
  "random_number ld mn mx a =
    map_option (\<lambda>t. word_of_int t + mn) (to_int128 (ld (a * ld (real (unat (mx - mn))))))"

text \<open>
  \<open>k\<close> rounds from round \<open>i\<close>; \<open>f\<close> is the file so far. \<open>bs\<close> is the size of the array \<open>st\<close>, which the
  code declares with \<open>MAX_128_HEX_BYTES + 1\<close> elements.
\<close>

fun gen_loop :: "(real \<Rightarrow> real) \<Rightarrow> nat \<Rightarrow> u128 \<Rightarrow> u128 \<Rightarrow> (nat \<Rightarrow> real) \<Rightarrow> nat \<Rightarrow> nat \<Rightarrow> string \<Rightarrow> real \<Rightarrow> (string \<times> real) option" where
  "gen_loop ld bs mn mx draws 0 i f avg = Some (f, avg)"
| "gen_loop ld bs mn mx draws (Suc k) i f avg = do {
     n \<leftarrow> random_number ld mn mx (draws i);
     st \<leftarrow> int128_to_hex n (replicate bs None);
     digits \<leftarrow> those (take MAX_128_HEX_BYTES st);
     gen_loop ld bs mn mx draws k (Suc i) (f @ digits @ '' '')
       (ld (ld (avg * ld (1 - ld (1 / ld (real i)))) + ld (ld (real (unat n)) / ld (real i))))
   }"

text \<open>
  \<open>main\<close> up to the end of the file of numbers: the exit status of a wrong call, or the file and the mean. A file
  that cannot be created is a null pointer for \<open>fclose\<close>.
\<close>

definition generate_main :: "(real \<Rightarrow> real) \<Rightarrow> (string \<Rightarrow> real) \<Rightarrow> bool \<Rightarrow> nat \<Rightarrow> (nat \<Rightarrow> real) \<Rightarrow> string list \<Rightarrow> (int + string \<times> real) option" where
  "generate_main ld strtold created bs draws argv =
    (if length argv < 3 \<or> length argv > 5 then Some (Inl (-1))
     else do {
       mn \<leftarrow> (if length argv > 3 then to_uint128 (strtold (argv ! 3)) else Some 0);
       mx \<leftarrow> (if length argv = 5 then to_uint128 (strtold (argv ! 4)) else Some (-1));
       r \<leftarrow> (if created then gen_loop ld bs mn mx draws (nat (strtol (argv ! 2))) 1 [] 0 else None);
       Some (Inr r)
     })"

text \<open>
  The whole program: the file of numbers, and the name and the text of a second file about it. The name
  is made by appending to the first argument in place; \<open>room\<close> is how many bytes may be stored behind the
  end of that argument, which is none by the standard. \<open>lf\<close> prints a number with \<open>%Lf\<close>.
\<close>

definition info_text :: "(real \<Rightarrow> string) \<Rightarrow> int \<Rightarrow> real \<Rightarrow> string" where
  "info_text lf number avg = ''Number: '' @ int_to_str number @ [CHR 0x0A] @ ''Average: '' @ lf avg @ [CHR 0x0A]"

definition generate_program :: "(real \<Rightarrow> real) \<Rightarrow> (string \<Rightarrow> real) \<Rightarrow> (real \<Rightarrow> string) \<Rightarrow> bool \<Rightarrow> bool \<Rightarrow> nat \<Rightarrow> nat \<Rightarrow> (nat \<Rightarrow> real) \<Rightarrow>
    string list \<Rightarrow> (int + string \<times> string \<times> string) option" where
  "generate_program ld strtold lf created created_info room bs draws argv =
    (case generate_main ld strtold created bs draws argv of
       None \<Rightarrow> None
     | Some (Inl rc) \<Rightarrow> Some (Inl rc)
     | Some (Inr (f, avg)) \<Rightarrow>
         let st = info_text lf (strtol (argv ! 2)) avg; name = argv ! 1 @ ''_info'' in
         if 1024 \<le> length st \<or> room < length ''_info'' \<or> \<not> created_info then None else Some (Inr (f, name, st)))"

section \<open>Lemmas\<close>

text \<open>By the standard every call with valid arguments faults when it makes the second name.\<close>

lemma generate_program_overrun: "3 \<le> length argv \<Longrightarrow> length argv \<le> 5 \<Longrightarrow> generate_program ld strtold lf created created_info 0 bs draws argv = None"
  by (auto simp: generate_program_def generate_main_def bind_eq_Some_conv Let_def split: option.split)

lemma generate_program_info:
  assumes "generate_main ld strtold True bs draws argv = Some (Inr (f, avg))" "length (lf avg) < 900" "5 \<le> room"
    and "length (int_to_str (strtol (argv ! 2))) \<le> 20"
  shows "generate_program ld strtold lf True True room bs draws argv = Some (Inr (f, argv ! 1 @ ''_info'', info_text lf (strtol (argv ! 2)) avg))"
  using assms by (simp add: generate_program_def info_text_def Let_def)

lemma those_map_Some [simp]: "those (map Some xs) = Some xs"
  by (induction xs) auto

lemma int128_to_hex_written:
  assumes "34 \<le> bs"
  shows "\<exists>st. int128_to_hex n (replicate bs None) = Some st \<and> take 32 st = map Some (hex_digits n)"
proof -
  obtain st' where st': "to_hex_loop 32 1 n (replicate bs None) = Some st'" "length st' = bs"
      "take 32 st' = map Some (hex_digits n)"
    using to_hex_loop_32 [of "replicate bs None" n] assms by auto
  have "mem_set st' 33 (CHR 0x00) = Some (st'[33 := Some (CHR 0x00)])" using st'(2) assms by (simp add: mem_set_in_range)
  then show ?thesis using st'(1,3) by (simp add: int128_to_hex_def del: to_hex_loop.simps)
qed

lemma random_number_value:
  assumes "rounding e ld" "0 \<le> a" "a < 1" "D = real (unat (mx - mn))"
    and "(1 + e) ^ 2 * D < 2 ^ 127" "real (unat mn) + (1 + e) ^ 2 * D < 2 ^ 128"
  shows "\<exists>n. random_number ld mn mx a = Some n \<and> unat mn \<le> unat n \<and> real (unat n) \<le> real (unat mn) + (1 + e) ^ 2 * D"
proof -
  have e: "0 \<le> e" "e \<le> 1" using assms(1) by (simp_all add: rounding_def)
  have D: "0 \<le> D" unfolding assms(4) by (rule of_nat_0_le_iff)
  define x where "x = ld (a * ld D)"
  have "near e 1 (ld D) D" using near_round [OF assms(1) D near_same] by simp
  then have "near e (0 + 1) (a * ld D) (a * D)" using near_mult [OF e assms(2) D near_same] by blast
  then have "near e 2 x (a * D)" using near_round [OF assms(1)] assms(2) D by (simp add: x_def numeral_2_eq_2)
  moreover have "(1 + e) ^ 2 * (a * D) \<le> (1 + e) ^ 2 * D"
    using assms(2,3) D by (intro mult_left_mono mult_left_le_one_le) simp_all
  ultimately have x: "0 \<le> x" "x \<le> (1 + e) ^ 2 * D"
    using near_nonneg [OF e, of "a * D" 2 x] assms(2) D by (auto simp: near_def)
  define t where "t = nat \<lfloor>x\<rfloor>"
  have t: "\<lfloor>x\<rfloor> = int t" "real t \<le> (1 + e) ^ 2 * D" using x by (simp_all add: t_def) linarith
  have "real t < 2 ^ 127" using t(2) assms(5) by linarith
  then have "real t < real (2 ^ 127)" by simp
  then have t127: "t < 2 ^ 127" by (simp only: of_nat_less_iff)
  then have "int t < 2 ^ 127" by (metis of_nat_less_iff of_nat_numeral of_nat_power)
  then have rn: "random_number ld mn mx a = Some (of_nat t + mn)"
    unfolding random_number_def assms(4) [symmetric] x_def [symmetric]
    using x(1) t(1) by (simp add: to_int128_def trunc_def)
  have "real t + real (unat mn) < real (2 ^ 128)" using t(2) assms(6) by simp
  then have "real (t + unat mn) < real (2 ^ 128)" by (simp only: of_nat_add)
  then have "t + unat mn < 2 ^ 128" by (simp only: of_nat_less_iff)
  then have n: "unat (of_nat t + mn) = t + unat mn"
    using t127 by (simp add: unat_word_ariths unat_of_nat)
  have "real (unat (of_nat t + mn)) = real t + real (unat mn)" unfolding n by (rule of_nat_add)
  with rn n t(2) show ?thesis by (intro exI [of _ "of_nat t + mn"]) linarith
qed

definition records :: "u128 list \<Rightarrow> string" where
  "records ns = concat (map (\<lambda>n. hex_digits n @ '' '') ns)"

lemma numbers_records: "numbers (records ns) = map unat ns"
proof (induction ns)
  case Nil
  then show ?case by (simp add: records_def)
next
  case (Cons n ns)
  have r: "records (n # ns) = hex_digits n @ '' '' @ records ns" by (simp add: records_def)
  show ?case
    unfolding r using Cons by (subst numbers_long) (simp_all add: hex_digits_facts hex_value_digits)
qed

lemma gen_loop_records:
  assumes "rounding e ld" "34 \<le> bs" "\<forall>i. 0 \<le> draws i \<and> draws i < 1" "D = real (unat (mx - mn))"
    and "(1 + e) ^ 2 * D < 2 ^ 127" "real (unat mn) + (1 + e) ^ 2 * D < 2 ^ 128"
  shows "nw_count w = i \<Longrightarrow> \<exists>ns. gen_loop ld bs mn mx draws k (Suc i) f (res w) =
      Some (f @ records ns, res (fold (\<lambda>v. work_number ld (of_nat v)) (map unat ns) w)) \<and> length ns = k \<and>
    (\<forall>n \<in> set ns. unat mn \<le> unat n \<and> real (unat n) \<le> real (unat mn) + (1 + e) ^ 2 * D)"
proof (induction k arbitrary: i f w)
  case 0
  then show ?case by (intro exI [of _ "[]"]) (simp add: records_def)
next
  case (Suc k)
  obtain n where n: "random_number ld mn mx (draws (Suc i)) = Some n" "unat mn \<le> unat n"
      "real (unat n) \<le> real (unat mn) + (1 + e) ^ 2 * D"
    using random_number_value [OF assms(1) _ _ assms(4-6)] assms(3) by blast
  obtain st where st: "int128_to_hex n (replicate bs None) = Some st" "take 32 st = map Some (hex_digits n)"
    using int128_to_hex_written [OF assms(2)] by blast
  let ?w = "work_number ld n w"
  have w: "nw_count ?w = Suc i" using Suc.prems by (simp add: work_number_def Let_def)
  have res: "ld (ld (res w * ld (1 - ld (1 / ld (real (Suc i))))) + ld (ld (real (unat n)) / ld (real (Suc i)))) = res ?w"
    by (simp add: work_number_def Let_def Suc.prems)
  obtain ns where ns: "gen_loop ld bs mn mx draws k (Suc (Suc i)) (f @ hex_digits n @ '' '') (res ?w) =
      Some ((f @ hex_digits n @ '' '') @ records ns, res (fold (\<lambda>v. work_number ld (of_nat v)) (map unat ns) ?w))"
      "length ns = k" "\<forall>n \<in> set ns. unat mn \<le> unat n \<and> real (unat n) \<le> real (unat mn) + (1 + e) ^ 2 * D"
    using Suc.IH [OF w, of "f @ hex_digits n @ '' ''"] by blast
  have "gen_loop ld bs mn mx draws (Suc k) (Suc i) f (res w) =
      gen_loop ld bs mn mx draws k (Suc (Suc i)) (f @ hex_digits n @ '' '') (res ?w)"
    unfolding gen_loop.simps n(1) Option.bind.bind_lunit st(1) st(2) those_map_Some res ..
  then show ?case using ns n(2,3) by (intro exI [of _ "n # ns"]) (simp add: records_def)
qed

section \<open>Properties\<close>

text \<open>
  C25: what the generator writes can be read. If the array has room for the terminator, the draws
  are between 0 and 1, and the range is less than half of all 128-bit numbers (and not within a
  rounding of it), then for every \<open>number\<close> the generator comes to the end, the averaging program
  reads exactly \<open>number\<close> numbers from its file, all within the range up to rounding, and the mean that
  the generator reports is theirs up to four roundings per number. With the array as the code
  declares it, the first number faults.
\<close>

theorem generate_read_back:
  assumes "length argv = 5" "to_uint128 (strtold (argv ! 3)) = Some mn" "to_uint128 (strtold (argv ! 4)) = Some mx"
    and "rounding e ld" "\<forall>i. 0 \<le> draws i \<and> draws i < 1" "D = real (unat (mx - mn))"
    and "(1 + e) ^ 2 * D < 2 ^ 127" "real (unat mn) + (1 + e) ^ 2 * D < 2 ^ 128"
  shows "(34 \<le> bs \<and> strtol (argv ! 2) < 2 ^ 62 \<longrightarrow> (\<exists>f avg. generate_main ld strtold True bs draws argv = Some (Inr (f, avg)) \<and>
      length (numbers f) = nat (strtol (argv ! 2)) \<and> length f = 33 * length (numbers f) \<and>
      (\<forall>v \<in> set (numbers f). unat mn \<le> v \<and> real v \<le> real (unat mn) + (1 + e) ^ 2 * D) \<and>
      (1 - e) ^ (4 * length (numbers f)) * mean (numbers f) \<le> avg \<and>
      avg \<le> (1 + e) ^ (4 * length (numbers f)) * mean (numbers f))) \<and>
    (bs = MAX_128_HEX_BYTES + 1 \<and> 0 < strtol (argv ! 2) \<longrightarrow> generate_main ld strtold True bs draws argv = None)"
proof (intro conjI impI)
  let ?k = "nat (strtol (argv ! 2))" and ?w = "\<lparr>max_memory = 0, res = 0, nw_count = 0\<rparr>"
  have main: "generate_main ld strtold True bs draws argv = map_option Inr (gen_loop ld bs mn mx draws ?k 1 [] 0)"
    using assms(1-3) by (simp add: generate_main_def split: Option.bind_split)
  {
    assume a: "34 \<le> bs \<and> strtol (argv ! 2) < 2 ^ 62"
    obtain ns where ns: "gen_loop ld bs mn mx draws ?k (Suc 0) [] (res ?w) =
        Some ([] @ records ns, res (fold (\<lambda>v. work_number ld (of_nat v)) (map unat ns) ?w))" "length ns = ?k"
        "\<forall>n \<in> set ns. unat mn \<le> unat n \<and> real (unat n) \<le> real (unat mn) + (1 + e) ^ 2 * D"
      using gen_loop_records [OF assms(4) _ assms(5-8), of bs ?w 0 ?k "[]"] a by auto
    have nums: "numbers (records ns) = map unat ns" by (rule numbers_records)
    have "mean_ok e ?w []" by (simp add: mean_ok_def mean_def)
    moreover have "v < 2 ^ 128" if "v \<in> set (map unat ns)" for v using numbers_bound [of v "records ns"] that unfolding nums by blast
    moreover have "?k < 2 ^ 63" using a by auto
    ultimately have "mean_ok e (fold (\<lambda>v. work_number ld (of_nat v)) (map unat ns) ?w) ([] @ map unat ns)"
      using ns(2) by (intro fold_mean_ok [OF assms(4)]) simp_all
    then have "near e (4 * length (map unat ns)) (res (fold (\<lambda>v. work_number ld (of_nat v)) (map unat ns) ?w)) (mean (map unat ns))"
      by (simp add: mean_ok_def)
    moreover have "length (records ns) = 33 * length ns"
      by (induction ns) (simp_all add: records_def hex_digits_facts)
    ultimately show "\<exists>f avg. generate_main ld strtold True bs draws argv = Some (Inr (f, avg)) \<and>
      length (numbers f) = ?k \<and> length f = 33 * length (numbers f) \<and>
      (\<forall>v \<in> set (numbers f). unat mn \<le> v \<and> real v \<le> real (unat mn) + (1 + e) ^ 2 * D) \<and>
      (1 - e) ^ (4 * length (numbers f)) * mean (numbers f) \<le> avg \<and>
      avg \<le> (1 + e) ^ (4 * length (numbers f)) * mean (numbers f)"
      using ns nums unfolding main near_def
      by (intro exI [of _ "records ns"] exI [of _ "res (fold (\<lambda>v. work_number ld (of_nat v)) (map unat ns) ?w)"]) (auto simp del: of_nat_unat)
  }
  assume b: "bs = MAX_128_HEX_BYTES + 1 \<and> 0 < strtol (argv ! 2)"
  have "int128_to_hex n (replicate 33 None) = None" for n
  proof -
    obtain st' where "to_hex_loop 32 1 n (replicate 33 None) = Some st'" "length st' = 33"
      using to_hex_loop_32 [of "replicate 33 None" n] by auto
    then show ?thesis by (simp add: int128_to_hex_def mem_set_out_of_range del: to_hex_loop.simps)
  qed
  moreover from b obtain k where "?k = Suc k" by (metis gr0_conv_Suc zero_less_nat_eq)
  ultimately show "generate_main ld strtold True bs draws argv = None"
    unfolding main using b by (simp split: Option.bind_split)
qed

text \<open>
  Half of the default range faults: without bounds on the command line, a draw that is above one half
  by more than two roundings gives a product that does not fit the signed type it is converted to.
\<close>

theorem generate_default_range:
  assumes "rounding e ld" "0 \<le> a" "2 ^ 127 \<le> (1 - e) ^ 2 * (a * (2 ^ 128 - 1))"
  shows "random_number ld 0 (-1) a = None"
proof -
  have e: "0 \<le> e" "e \<le> 1" using assms(1) by (simp_all add: rounding_def)
  define D where "D = real (unat (-1 - 0 :: u128))"
  have "unat (-1 - 0 :: u128) = 2 ^ 128 - 1" by (simp add: unsigned_minus_1_eq_mask mask_eq_exp_minus_1)
  then have D: "D = 2 ^ 128 - 1" unfolding D_def by simp
  have "near e 1 (ld D) D" using near_round [OF assms(1) _ near_same, of D] by (simp add: D)
  then have "near e (0 + 1) (a * ld D) (a * D)" using near_mult [OF e assms(2) _ near_same] by (simp add: D)
  then have "near e 2 (ld (a * ld D)) (a * D)" using near_round [OF assms(1), of "a * D" 1] assms(2) by (simp add: D numeral_2_eq_2)
  then have "2 ^ 127 \<le> ld (a * ld D)" using assms(3) by (auto simp: near_def D)
  moreover from this have "(2 :: int) ^ 127 \<le> \<lfloor>ld (a * ld D)\<rfloor>" by (simp add: le_floor_iff)
  ultimately show ?thesis
    unfolding random_number_def D_def [symmetric] by (simp add: to_int128_def trunc_def)
qed

theorem generate_read_back_witness:
  "\<exists>f avg. generate_main (\<lambda>x. x) (\<lambda>s. if s = ''10'' then 10 else 0) True 34 (\<lambda>_. 1 / 2) [''prog'', ''file'', ''2'', ''0'', ''10''] =
      Some (Inr (f, avg)) \<and> length (numbers f) = 2 \<and> avg = mean (numbers f)"
proof -
  have n: "strtol ''2'' = 2" by code_simp
  have ten: "to_uint128 10 = Some 10" "to_uint128 0 = Some 0" by (simp_all add: to_uint128_def trunc_def)
  let ?argv = "[''prog'', ''file'', ''2'', ''0'', ''10'']" and ?strtold = "\<lambda>s. if s = ''10'' then 10 else 0 :: real"
  have "length ?argv = 5" "to_uint128 (?strtold (?argv ! 3)) = Some 0" "to_uint128 (?strtold (?argv ! 4)) = Some 10"
    "\<forall>i :: nat. 0 \<le> (1 / 2 :: real) \<and> (1 / 2 :: real) < 1" "10 = real (unat (10 - 0 :: u128))"
    "(1 + 0) ^ 2 * 10 < (2 ^ 127 :: real)" "real (unat (0 :: u128)) + (1 + 0) ^ 2 * 10 < 2 ^ 128"
    by (simp_all add: ten)
  note c = generate_read_back [OF this(1-3) rounding_exact_arithmetic this(4-7), of 34, THEN conjunct1, THEN mp]
  have two: "strtol (?argv ! 2) = 2" using n by simp
  have "34 \<le> (34 :: nat) \<and> strtol (?argv ! 2) < 2 ^ 62" unfolding two by simp
  from c [OF this] obtain f avg where "generate_main (\<lambda>x. x) ?strtold True 34 (\<lambda>_. 1 / 2) ?argv = Some (Inr (f, avg))"
      "length (numbers f) = nat (strtol (?argv ! 2))" "(1 - 0) ^ (4 * length (numbers f)) * mean (numbers f) \<le> avg"
      "avg \<le> (1 + 0) ^ (4 * length (numbers f)) * mean (numbers f)"
    by blast
  moreover from this(3,4) have "avg = mean (numbers f)" by simp
  ultimately show ?thesis using two by auto
qed

end
