(* ===== verification/SharedFilter.thy ===== *)
theory SharedFilter
  imports LineFilter Schedules
begin

text \<open>
  Lab 4: the line filter over shared memory, \<^verbatim>\<open>lab4/main.c\<close> and \<^verbatim>\<open>lab4/child.c\<close>. The parent copies a
  line into a shared area and sends a signal; the child's signal handler copies it out, prints it if
  it starts with an upper-case letter and signals an error otherwise.

  Both processes lock a mutex around their copying, but each its own: the parent writes a copy of its
  mutex into the file and the child reads a copy of that. So the copies exclude nothing and the bytes
  of both processes interleave, as they do in the step relation here. A signal that comes while
  another one is pending is lost, and one that comes before the child has installed its handler kills
  it. Stores behind the shared area have no step: there the parent is stuck. No schedule goes on forever
  (\<open>shared_rank\<close> counts the steps that are left).
\<close>

section \<open>The parent\<close>

abbreviation MESSAGES_FILESIZE :: nat where "MESSAGES_FILESIZE \<equiv> 1024"
abbreviation EOF_CHAR :: char where "EOF_CHAR \<equiv> CHR 0xFF"
abbreviation NUL :: char where "NUL \<equiv> CHR 0x00"

datatype action = Store nat char | Signal

definition send_chunk :: "string \<Rightarrow> nat \<Rightarrow> nat \<Rightarrow> action list" where
  "send_chunk st l r = map (\<lambda>i. Store i (st ! i)) [l..<r + 1] @ [Signal]"

text \<open>All chunks of a line of \<open>st_len\<close> characters and its terminator.\<close>

definition send_line :: "string \<Rightarrow> nat \<Rightarrow> action list" where
  "send_line st st_len = concat (map (\<lambda>j.
     let to = (if (j + 1) * MESSAGES_FILESIZE > st_len then st_len else (j + 1) * MESSAGES_FILESIZE)
     in send_chunk st (j * MESSAGES_FILESIZE) to) [0..<(st_len + MESSAGES_FILESIZE) div MESSAGES_FILESIZE])"

text \<open>What \<open>loop\<close> does until the input ends, and its result.\<close>

function send_loop :: "(nat \<Rightarrow> bool) \<Rightarrow> string option \<Rightarrow> nat \<Rightarrow> source \<Rightarrow> (action list \<times> int) option" where
  "send_loop ok st ln src =
    (case scan_string4 ok st ln src of
       None \<Rightarrow> None
     | Some r \<Rightarrow>
         if ret r \<noteq> 0 \<and> ret r \<noteq> EOF then Some ([], errno r)
         else (case str r of
             None \<Rightarrow> None
           | Some s \<Rightarrow>
               let acts = send_line (take (len r) s @ [if ret r = EOF then EOF_CHAR else NL]) (len r) in
               if ret r = EOF then Some (acts, errno r)
               else map_option (\<lambda>(acts', rc). (acts @ acts', rc)) (send_loop ok (str r) (len r) (rest r))))"
  by pat_completeness auto
termination
  by (relation "measure (\<lambda>(ok, st, ln, src). length (bytes src))")
    (auto simp: scan_string4_def dest: scan_with_progress)

declare send_loop.simps [simp del]

text \<open>The first line is the name of the file for the child's output; system calls succeed.\<close>

definition send_main :: "(nat \<Rightarrow> bool) \<Rightarrow> source \<Rightarrow> (action list \<times> int) option" where
  "send_main ok src = do {
     r \<leftarrow> scan_string4 ok None 0 src;
     if ret r \<noteq> 0 then Some ([], if errno r \<noteq> 0 then errno r else -1) else send_loop ok None 0 (rest r)
   }"

section \<open>The child\<close>

record reader =
  READ_ST :: "char mem option"
  LEN_READ_ST :: nat
  MAX_READ_LEN :: nat
  answers :: string       \<comment> \<open>its standard output\<close>
  rejected :: nat         \<comment> \<open>error messages, each with a signal to the parent\<close>

definition reader_init :: reader where
  "reader_init = \<lparr>READ_ST = None, LEN_READ_ST = 0, MAX_READ_LEN = 1, answers = [], rejected = 0\<rparr>"

definition read_begin :: "reader \<Rightarrow> reader" where
  "read_begin c = (if READ_ST c = None then c\<lparr>READ_ST := Some (replicate (MAX_READ_LEN c) None)\<rparr> else c)"

text \<open>A byte is appended; the buffer doubles when it is full.\<close>

definition read_byte :: "char \<Rightarrow> reader \<Rightarrow> reader option" where
  "read_byte ch c = do {
     m \<leftarrow> READ_ST c;
     m' \<leftarrow> mem_set m (LEN_READ_ST c) ch;
     let n = LEN_READ_ST c + 1;
     if n \<ge> MAX_READ_LEN c then
       (if int (MAX_READ_LEN c * 2) > INT_MAX then None
        else Some (c\<lparr>READ_ST := Some (mem_realloc m' (MAX_READ_LEN c * 2)), MAX_READ_LEN := MAX_READ_LEN c * 2, LEN_READ_ST := n\<rparr>))
     else Some (c\<lparr>READ_ST := Some m', LEN_READ_ST := n\<rparr>)
   }"

text \<open>The C string at the start of an array; reading an unwritten cell or behind the end faults.\<close>

fun cells_str :: "char mem \<Rightarrow> string option" where
  "cells_str (Some ch # m) = (if ch = NUL then Some [] else map_option (Cons ch) (cells_str m))"
| "cells_str _ = None"

text \<open>The end of the handler: \<open>i\<close> is the index in the shared area, \<open>ch\<close> the character there.\<close>

definition read_end :: "char \<Rightarrow> nat \<Rightarrow> reader \<Rightarrow> reader option" where
  "read_end ch i c =
    (if (ch = NL \<or> ch = EOF_CHAR) \<and> i \<noteq> 0 then do {
       m \<leftarrow> READ_ST c;
       m' \<leftarrow> mem_set m i NUL;
       first \<leftarrow> mem_get m' 0;
       c' \<leftarrow> (if is_upper first then map_option (\<lambda>s. c\<lparr>answers := answers c @ s @ [NL]\<rparr>) (cells_str m')
             else Some (c\<lparr>rejected := rejected c + 1\<rparr>));
       Some (c'\<lparr>READ_ST := Some m', LEN_READ_ST := 0\<rparr>)
     }
     else Some c)"

section \<open>Both processes\<close>

datatype child_pc = Starting | Waiting | Copying nat | Exited | Killed

record shared =
  area :: string           \<comment> \<open>the shared area\<close>
  todo :: "action list"    \<comment> \<open>what the parent has still to do\<close>
  pending :: bool          \<comment> \<open>a signal is pending\<close>
  cpc :: child_pc
  child :: reader

text \<open>
  \<open>polite\<close> is for the schedules in which the parent acts only when the child waits for a signal,
  which the code does nothing to ensure.
\<close>

inductive shared_step :: "bool \<Rightarrow> shared \<Rightarrow> shared \<Rightarrow> bool" for polite where
  ready: "shared_step polite s (s\<lparr>cpc := Waiting\<rparr>)" if "cpc s = Starting"
| store: "shared_step polite s (s\<lparr>area := (area s)[i := ch], todo := acts\<rparr>)"
  if "todo s = Store i ch # acts" "i < length (area s)" "polite \<longrightarrow> cpc s = Waiting \<and> \<not> pending s"
| signal: "shared_step polite s (s\<lparr>pending := True, todo := acts, cpc := (if cpc s = Starting then Killed else cpc s)\<rparr>)"
  if "todo s = Signal # acts" "polite \<longrightarrow> cpc s = Waiting \<and> \<not> pending s"
| handle: "shared_step polite s (s\<lparr>pending := False, cpc := Copying 0, child := read_begin (child s)\<rparr>)"
  if "cpc s = Waiting" "pending s"
| copy: "shared_step polite s (s\<lparr>cpc := Copying (i + 1), child := c\<rparr>)"
  if "cpc s = Copying i" "i < length (area s)" "area s ! i \<notin> {NUL, NL, EOF_CHAR}" "read_byte (area s ! i) (child s) = Some c"
| finish: "shared_step polite s (s\<lparr>cpc := (if area s ! i = EOF_CHAR then Exited else Waiting), child := c\<rparr>)"
  if "cpc s = Copying i" "i < length (area s)" "area s ! i \<in> {NUL, NL, EOF_CHAR}" "read_end (area s ! i) i (child s) = Some c"

inductive_cases shared_stepE: "shared_step polite s s'"

definition shared_start :: "string \<Rightarrow> action list \<Rightarrow> shared" where
  "shared_start a acts = \<lparr>area = a, todo = acts, pending = False, cpc = Starting, child = reader_init\<rparr>"

section \<open>Lemmas: the child copies a line\<close>

definition clean :: "string \<Rightarrow> bool" where
  "clean l \<longleftrightarrow> NUL \<notin> set l \<and> NL \<notin> set l \<and> EOF_CHAR \<notin> set l"

text \<open>The buffer holds the characters \<open>x\<close> and has room for one more.\<close>

definition holds :: "string \<Rightarrow> reader \<Rightarrow> bool" where
  "holds x c \<longleftrightarrow> LEN_READ_ST c = length x \<and> length x < MAX_READ_LEN c \<and> MAX_READ_LEN c \<le> 2048 \<and>
     (case READ_ST c of None \<Rightarrow> x = [] | Some m \<Rightarrow> length m = MAX_READ_LEN c \<and> take (length x) m = map Some x)"

lemma holds_init [simp]: "holds [] reader_init"
  by (simp add: holds_def reader_init_def)

lemma holds_begin: "holds [] c \<Longrightarrow> holds [] (read_begin c) \<and> READ_ST (read_begin c) \<noteq> None \<and> answers (read_begin c) = answers c"
  by (auto simp: holds_def read_begin_def split: option.splits)

lemma read_byte_holds:
  assumes "holds x c" "READ_ST c \<noteq> None" "length x < 1024"
  shows "\<exists>c'. read_byte ch c = Some c' \<and> holds (x @ [ch]) c' \<and> READ_ST c' \<noteq> None \<and> answers c' = answers c"
proof -
  obtain m where m: "READ_ST c = Some m" "length m = MAX_READ_LEN c" "take (length x) m = map Some x"
    using assms(1,2) by (auto simp: holds_def)
  have c: "LEN_READ_ST c = length x" "length x < length m" "length m \<le> 2048" using assms(1) m(2) by (simp_all add: holds_def)
  have x: "take (Suc (length x)) (m[length x := Some ch]) = map Some (x @ [ch])"
    using c(2) m(3) by (simp add: take_Suc_conv_app_nth take_update_cancel)
  show ?thesis
  proof (cases "length x + 1 < length m")
    case True
    then show ?thesis
      using c m x by (auto simp: read_byte_def mem_set_in_range holds_def Let_def)
  next
    case False
    then have "length m \<le> 1024" using assms(3) c(2) by linarith
    moreover have "take (Suc (length x)) (mem_realloc (m[length x := Some ch]) (length m * 2)) = map Some (x @ [ch])"
      using x c(2) by (subst take_mem_realloc) simp_all
    ultimately show ?thesis
      using c m False by (auto simp: read_byte_def mem_set_in_range holds_def Let_def)
  qed
qed

lemma cells_str_written: "NUL \<notin> set x \<Longrightarrow> cells_str (map Some x @ Some NUL # m) = Some x"
  by (induction x) auto

lemma read_end_holds:
  assumes "holds x c" "READ_ST c \<noteq> None" "NUL \<notin> set x" "ch = NL \<or> ch = EOF_CHAR"
  shows "\<exists>c'. read_end ch (length x) c = Some c' \<and> holds [] c' \<and>
    answers c' = answers c @ (if accepted x then x @ [NL] else [])"
proof (cases x)
  case Nil
  then show ?thesis using assms(1) by (simp add: read_end_def accepted_def)
next
  case (Cons y ys)
  obtain m where m: "READ_ST c = Some m" "length m = MAX_READ_LEN c" "take (length x) m = map Some x"
    using assms(1,2) by (auto simp: holds_def)
  have len: "length x < length m" "length m \<le> 2048" using assms(1) m(2) by (simp_all add: holds_def)
  define m' where "m' = m[length x := Some NUL]"
  have m': "m' = map Some x @ Some NUL # drop (Suc (length x)) m"
    unfolding m'_def using len(1) m(3) by (simp add: upd_conv_take_nth_drop)
  have first: "mem_get m' 0 = Some y" unfolding m' by (simp add: mem_get_def Cons)
  have str: "cells_str m' = Some x" unfolding m' by (rule cells_str_written [OF assms(3)])
  have set: "mem_set m (length x) NUL = Some m'" "length m' = length m" using len(1) by (simp_all add: mem_set_in_range m'_def)
  show ?thesis
    using assms(1,4) m(1,2) set first str len Cons
    by (cases "is_upper y") (auto simp: read_end_def holds_def accepted_def)
qed

lemma copy_bytes:
  "cpc s = Copying (length x) \<Longrightarrow> holds x (child s) \<Longrightarrow> READ_ST (child s) \<noteq> None \<Longrightarrow>
   drop (length x) (area s) = u @ t # post \<Longrightarrow> clean u \<Longrightarrow> length (area s) = MESSAGES_FILESIZE \<Longrightarrow>
   \<exists>c'. (shared_step p)\<^sup>*\<^sup>* s (s\<lparr>cpc := Copying (length (x @ u)), child := c'\<rparr>) \<and> holds (x @ u) c' \<and>
     READ_ST c' \<noteq> None \<and> answers c' = answers (child s)"
proof (induction u arbitrary: s x)
  case (Cons y u)
  have len: "length x < length (area s)" using Cons.prems(4) by (metis append_is_Nil_conv drop_eq_Nil2 leI list.distinct(1))
  have y: "area s ! length x = y" "drop (length (x @ [y])) (area s) = u @ t # post"
    using Cons.prems(4) len by (metis append_Cons hd_drop_conv_nth list.sel(1), metis append_Cons drop_Suc length_append_singleton list.sel(3) tl_drop)
  have "length x < 1024" using len Cons.prems(6) by simp
  then obtain c' where c': "read_byte y (child s) = Some c'" "holds (x @ [y]) c'" "READ_ST c' \<noteq> None" "answers c' = answers (child s)"
    using read_byte_holds [OF Cons.prems(2,3), of y] by blast
  let ?s1 = "s\<lparr>cpc := Copying (length x + 1), child := c'\<rparr>"
  have step: "shared_step p s ?s1"
    using shared_step.copy [OF Cons.prems(1) len, of c' p] y(1) c'(1) Cons.prems(5) by (auto simp: clean_def)
  obtain c2 where c2: "(shared_step p)\<^sup>*\<^sup>* ?s1 (?s1\<lparr>cpc := Copying (length ((x @ [y]) @ u)), child := c2\<rparr>)" "holds ((x @ [y]) @ u) c2"
      "READ_ST c2 \<noteq> None" "answers c2 = answers (child s)"
    using Cons.IH [of ?s1 "x @ [y]"] c' y(2) Cons.prems(5,6) by (auto simp: clean_def)
  then show ?case using converse_rtranclp_into_rtranclp [OF step c2(1)] by (intro exI [of _ c2]) simp
next
  case Nil
  have "s\<lparr>cpc := Copying (length (x @ [])), child := child s\<rparr> = s" using Nil(1) by (cases s) simp
  then have "(shared_step p)\<^sup>*\<^sup>* s (s\<lparr>cpc := Copying (length (x @ [])), child := child s\<rparr>)"
    by (metis rtranclp.rtrancl_refl)
  with Nil show ?case by (intro exI [of _ "child s"]) simp
qed

text \<open>A handler that has copied \<open>x\<close> finds \<open>u\<close> in the rest of the area: it handles the line \<open>x @ u\<close>.\<close>

lemma copy_line:
  assumes "cpc s = Copying (length x)" "holds x (child s)" "READ_ST (child s) \<noteq> None" "clean x" "clean u"
    and "drop (length x) (area s) = u @ t # post" "t = NL \<or> t = EOF_CHAR" "length (area s) = MESSAGES_FILESIZE"
  shows "\<exists>c'. (shared_step p)\<^sup>*\<^sup>* s (s\<lparr>cpc := (if t = EOF_CHAR then Exited else Waiting), child := c'\<rparr>) \<and> holds [] c' \<and>
    answers c' = answers (child s) @ (if accepted (x @ u) then x @ u @ [NL] else [])"
proof -
  obtain c1 where c1: "(shared_step p)\<^sup>*\<^sup>* s (s\<lparr>cpc := Copying (length (x @ u)), child := c1\<rparr>)" "holds (x @ u) c1"
     "READ_ST c1 \<noteq> None" "answers c1 = answers (child s)"
    using copy_bytes [OF assms(1-3,6,5,8)] by blast
  have "NUL \<notin> set (x @ u)" using assms(4,5) by (simp add: clean_def)
  from read_end_holds [OF c1(2,3) this assms(7)] obtain c' where c': "read_end t (length (x @ u)) c1 = Some c'" "holds [] c'"
    "answers c' = answers c1 @ (if accepted (x @ u) then (x @ u) @ [NL] else [])" by blast
  let ?s1 = "s\<lparr>cpc := Copying (length (x @ u)), child := c1\<rparr>"
  have "drop (length (x @ u)) (area s) = t # post" using assms(6) by (metis append_eq_conv_conj drop_drop length_append add.commute)
  then have t: "length (x @ u) < length (area s)" "area s ! length (x @ u) = t"
    by (metis drop_eq_Nil2 leI list.distinct(1), metis drop_eq_Nil2 hd_drop_conv_nth leI list.distinct(1) list.sel(1))
  have "shared_step p ?s1 (?s1\<lparr>cpc := (if area ?s1 ! length (x @ u) = EOF_CHAR then Exited else Waiting), child := c'\<rparr>)"
    by (rule shared_step.finish) (use t c'(1) assms(7) in auto)
  then have "(shared_step p)\<^sup>*\<^sup>* s (s\<lparr>cpc := (if t = EOF_CHAR then Exited else Waiting), child := c'\<rparr>)"
    using c1(1) t(2) by (simp add: rtranclp.rtrancl_into_rtrancl)
  with c' c1(4) show ?thesis by auto
qed

lemma handle_line:
  assumes "cpc s = Waiting" "pending s" "holds [] (child s)" "clean l"
    and "area s = l @ t # post" "t = NL \<or> t = EOF_CHAR" "length (area s) = MESSAGES_FILESIZE"
  shows "\<exists>c'. (shared_step p)\<^sup>*\<^sup>* s (s\<lparr>pending := False, cpc := (if t = EOF_CHAR then Exited else Waiting), child := c'\<rparr>) \<and>
    holds [] c' \<and> answers c' = answers (child s) @ (if accepted l then l @ [NL] else [])"
proof -
  let ?s1 = "s\<lparr>pending := False, cpc := Copying 0, child := read_begin (child s)\<rparr>"
  have step: "shared_step p s ?s1" using shared_step.handle assms(1,2) .
  obtain c' where c': "(shared_step p)\<^sup>*\<^sup>* ?s1 (?s1\<lparr>cpc := (if t = EOF_CHAR then Exited else Waiting), child := c'\<rparr>)" "holds [] c'"
    "answers c' = answers (child s) @ (if accepted l then l @ [NL] else [])"
    using copy_line [of ?s1 "[]" l t post p] holds_begin [OF assms(3)] assms(4-7) by (auto simp: clean_def)
  then show ?thesis using converse_rtranclp_into_rtranclp [OF step c'(1)] by (intro exI [of _ c']) simp
qed

section \<open>Lemmas: the parent sends a line\<close>

lemma store_chars:
  assumes "p \<longrightarrow> cpc s = Waiting \<and> \<not> pending s" "n \<le> length st" "n \<le> length (area s)"
  shows "todo s = map (\<lambda>i. Store i (st ! i)) [k..<n] @ acts \<Longrightarrow> k \<le> n \<Longrightarrow> take k (area s) = take k st \<Longrightarrow>
    (shared_step p)\<^sup>*\<^sup>* s (s\<lparr>area := take n st @ drop n (area s), todo := acts\<rparr>)"
  using assms
proof (induction "n - k" arbitrary: s k)
  case 0
  then have "k = n" by simp
  have "s\<lparr>area := take n st @ drop n (area s), todo := acts\<rparr> = s"
    using 0 \<open>k = n\<close> by (cases s) (simp, metis append_take_drop_id)
  then show ?case by (metis rtranclp.rtrancl_refl)
next
  case (Suc d)
  then have k: "k < n" "k < length (area s)" "k < length st" by auto
  let ?s1 = "s\<lparr>area := (area s)[k := st ! k], todo := map (\<lambda>i. Store i (st ! i)) [Suc k..<n] @ acts\<rparr>"
  have "todo s = Store k (st ! k) # map (\<lambda>i. Store i (st ! i)) [Suc k..<n] @ acts"
    using Suc.prems(1) k(1) by (simp add: upt_rec)
  from shared_step.store [OF this k(2) Suc.prems(4)] have step: "shared_step p s ?s1" .
  have "take (Suc k) ((area s)[k := st ! k]) = take (Suc k) st"
    using k Suc.prems(3) by (simp add: take_Suc_conv_app_nth take_update_cancel)
  then have "(shared_step p)\<^sup>*\<^sup>* ?s1 (?s1\<lparr>area := take n st @ drop n (area ?s1), todo := acts\<rparr>)"
    using Suc.hyps(2) Suc.prems k by (intro Suc.hyps(1)) auto
  with step have "(shared_step p)\<^sup>*\<^sup>* s (?s1\<lparr>area := take n st @ drop n (area ?s1), todo := acts\<rparr>)"
    by (rule converse_rtranclp_into_rtranclp)
  moreover have "drop n (area ?s1) = drop n (area s)" using k(1) by simp
  ultimately show ?case by simp
qed

text \<open>A line that fits the area is one chunk.\<close>

lemma send_short_line:
  assumes "length l < MESSAGES_FILESIZE"
  shows "send_line (l @ [t]) (length l) = map (\<lambda>i. Store i ((l @ [t]) ! i)) [0..<length (l @ [t])] @ [Signal]"
proof -
  have "(length l + MESSAGES_FILESIZE) div MESSAGES_FILESIZE = 1" using assms by simp
  then show ?thesis using assms by (simp add: send_line_def send_chunk_def Let_def)
qed

lemma send_one_line:
  assumes "p \<longrightarrow> cpc s = Waiting \<and> \<not> pending s" "cpc s \<noteq> Starting" "length l < MESSAGES_FILESIZE"
    and "length (area s) = MESSAGES_FILESIZE" "todo s = send_line (l @ [t]) (length l) @ acts"
  shows "(shared_step p)\<^sup>*\<^sup>* s (s\<lparr>area := (l @ [t]) @ drop (length (l @ [t])) (area s), pending := True, todo := acts\<rparr>)"
proof -
  let ?s1 = "s\<lparr>area := take (length (l @ [t])) (l @ [t]) @ drop (length (l @ [t])) (area s), todo := Signal # acts\<rparr>"
  have "(shared_step p)\<^sup>*\<^sup>* s ?s1"
    using assms by (intro store_chars [where k = 0]) (simp_all add: send_short_line)
  moreover have "shared_step p ?s1 (?s1\<lparr>pending := True, todo := acts, cpc := (if cpc ?s1 = Starting then Killed else cpc ?s1)\<rparr>)"
    by (rule shared_step.signal) (use assms(1) in simp_all)
  moreover have "?s1\<lparr>pending := True, todo := acts, cpc := (if cpc ?s1 = Starting then Killed else cpc ?s1)\<rparr> =
      s\<lparr>area := (l @ [t]) @ drop (length (l @ [t])) (area s), pending := True, todo := acts\<rparr>"
    using assms(2) by (cases s) simp
  ultimately show ?thesis by (metis rtranclp.rtrancl_into_rtrancl)
qed

text \<open>All lines; the last one ends with \<open>EOF\<close>.\<close>

fun send_lines :: "string list \<Rightarrow> action list" where
  "send_lines [] = []"
| "send_lines [l] = send_line (l @ [EOF_CHAR]) (length l)"
| "send_lines (l # ls) = send_line (l @ [NL]) (length l) @ send_lines ls"

lemma send_lines_Cons: "ls \<noteq> [] \<Longrightarrow> send_lines (l # ls) = send_line (l @ [NL]) (length l) @ send_lines ls"
  by (cases ls) auto

lemma pieces_nul: "NUL \<notin> set s \<Longrightarrow> pieces (\<lambda>c. c = NL \<or> c = NUL) s = text_lines s"
  by (induction s) auto

lemma send_loop_lines:
  assumes "\<forall>k. ok k"
  shows "length (bytes src) < 2 ^ 29 \<Longrightarrow> fin src = 0 \<Longrightarrow> NUL \<notin> set (bytes src) \<Longrightarrow>
    send_loop ok st ln src = Some (send_lines (text_lines (bytes src)), 0)"
proof (induction "length (bytes src)" arbitrary: st ln src rule: less_induct)
  case less
  let ?ps = "text_lines (bytes src)"
  have r: "scan_string4 ok st ln src = Some
      \<lparr>ret = (if tl ?ps \<noteq> [] then 0 else EOF), errno = 0, str = Some (hd ?ps), len = length (hd ?ps),
        rest = src\<lparr>bytes := drop (length (hd ?ps) + 1) (bytes src)\<rparr>\<rparr>"
    using r4.reads [OF assms less.prems(1,2)] pieces_nul [OF less.prems(3)] by (simp add: Let_def)
  show ?case
  proof (cases "tl ?ps")
    case Nil
    then have "?ps = [hd ?ps]" by (metis list.collapse pieces_nonempty)
    then have "send_lines ?ps = send_line (hd ?ps @ [EOF_CHAR]) (length (hd ?ps))" by (metis send_lines.simps(2))
    with Nil show ?thesis by (subst send_loop.simps) (simp add: r Let_def)
  next
    case (Cons q qs)
    obtain ds where ds: "drop (length (hd ?ps) + 1) (bytes src) = ds" "length ds < length (bytes src)"
        "?ps = hd ?ps # text_lines ds"
      using Cons pieces_line [of "\<lambda>c. c = NL" "bytes src"] by auto
    have "NUL \<notin> set ds" using less.prems(3) ds(1) by (metis in_set_dropD)
    then have "send_loop ok (Some (hd ?ps)) (length (hd ?ps)) (src\<lparr>bytes := ds\<rparr>) = Some (send_lines (text_lines ds), 0)"
      using less.hyps [of "src\<lparr>bytes := ds\<rparr>"] ds(2) less.prems by simp
    moreover have "send_lines ?ps = send_line (hd ?ps @ [NL]) (length (hd ?ps)) @ send_lines (text_lines ds)"
      by (subst ds(3)) (simp add: send_lines_Cons)
    ultimately show ?thesis using Cons ds(1) by (subst send_loop.simps) (simp add: r Let_def)
  qed
qed

text \<open>The first line of the input is the name of the output file, the lines follow.\<close>

lemma send_main_loop:
  assumes "\<forall>k. ok k" "length (bytes src) < 2 ^ 29" "fin src = 0" "NUL \<notin> set (bytes src)"
    and "bytes src = name @ NL # body" "NL \<notin> set name"
  shows "send_main ok src = send_loop ok None 0 (src\<lparr>bytes := body\<rparr>)"
proof -
  have "NL \<notin> set n \<Longrightarrow> text_lines (n @ NL # body) = n # text_lines body" for n by (induction n) auto
  then have lines: "text_lines (bytes src) = name # text_lines body" using assms(5,6) by simp
  have "drop (Suc (length name)) (bytes src) = body" by (simp add: assms(5))
  then show ?thesis
    using r4.reads [OF assms(1-3), of None 0] pieces_nul [OF assms(4)] lines by (simp add: send_main_def Let_def)
qed

section \<open>Lemmas: whole runs\<close>

definition short_line :: "string \<Rightarrow> bool" where
  "short_line l \<longleftrightarrow> clean l \<and> length l < MESSAGES_FILESIZE"

lemma pieces_chars: "l \<in> set (pieces ends s) \<Longrightarrow> c \<in> set l \<Longrightarrow> c \<in> set s \<and> \<not> ends c"
proof (induction s arbitrary: l)
  case (Cons x s)
  have "hd (pieces ends s) \<in> set (pieces ends s)" "set (tl (pieces ends s)) \<subseteq> set (pieces ends s)"
    by (cases "pieces ends s"; auto)+
  with Cons show ?case by (fastforce split: if_split_asm)
qed simp

lemma one_exchange:
  assumes "cpc s = Waiting" "\<not> pending s" "holds [] (child s)" "length (area s) = MESSAGES_FILESIZE"
    and "todo s = send_line (l @ [t]) (length l) @ acts" "short_line l" "t = NL \<or> t = EOF_CHAR"
  shows "\<exists>s'. (shared_step True)\<^sup>*\<^sup>* s s' \<and> cpc s' = (if t = EOF_CHAR then Exited else Waiting) \<and> \<not> pending s' \<and>
    holds [] (child s') \<and> length (area s') = MESSAGES_FILESIZE \<and> todo s' = acts \<and>
    answers (child s') = answers (child s) @ (if accepted l then l @ [NL] else [])"
proof -
  let ?s1 = "s\<lparr>area := (l @ [t]) @ drop (length (l @ [t])) (area s), pending := True, todo := acts\<rparr>"
  have l: "clean l" "length l < MESSAGES_FILESIZE" using assms(6) by (simp_all add: short_line_def)
  have sent: "(shared_step True)\<^sup>*\<^sup>* s ?s1" using send_one_line [OF _ _ l(2) assms(4,5)] assms(1,2) by simp
  obtain c' where c': "(shared_step True)\<^sup>*\<^sup>* ?s1 (?s1\<lparr>pending := False, cpc := (if t = EOF_CHAR then Exited else Waiting), child := c'\<rparr>)"
    "holds [] c'" "answers c' = answers (child s) @ (if accepted l then l @ [NL] else [])"
    using handle_line [of ?s1 l t "drop (length (l @ [t])) (area s)" True] assms l by auto
  show ?thesis using rtranclp_trans [OF sent c'(1)] c'(2,3) assms(4) l(2)
    by (intro exI [of _ "?s1\<lparr>pending := False, cpc := (if t = EOF_CHAR then Exited else Waiting), child := c'\<rparr>"]) simp
qed

lemma NL_not_EOF [simp]: "NL \<noteq> EOF_CHAR"
  by (simp add: NL_def)

lemma all_exchanges:
  "cpc s = Waiting \<Longrightarrow> \<not> pending s \<Longrightarrow> holds [] (child s) \<Longrightarrow> length (area s) = MESSAGES_FILESIZE \<Longrightarrow>
   todo s = send_lines ls \<Longrightarrow> ls \<noteq> [] \<Longrightarrow> \<forall>l \<in> set ls. short_line l \<Longrightarrow>
   \<exists>s'. (shared_step True)\<^sup>*\<^sup>* s s' \<and> cpc s' = Exited \<and> todo s' = [] \<and>
     answers (child s') = answers (child s) @ concat (map (\<lambda>l. l @ [NL]) (filter accepted ls))"
proof (induction ls arbitrary: s)
  case (Cons l ls)
  show ?case
  proof (cases "ls = []")
    case True
    then show ?thesis using one_exchange [OF Cons.prems(1-4), of l EOF_CHAR "[]"] Cons.prems(5,7) by auto
  next
    case False
    obtain s1 where s1: "(shared_step True)\<^sup>*\<^sup>* s s1" "cpc s1 = Waiting" "\<not> pending s1" "holds [] (child s1)"
      "length (area s1) = MESSAGES_FILESIZE" "todo s1 = send_lines ls"
      "answers (child s1) = answers (child s) @ (if accepted l then l @ [NL] else [])"
      using one_exchange [OF Cons.prems(1-4), of l NL "send_lines ls"] Cons.prems(5,7) False by (auto simp: send_lines_Cons)
    obtain s2 where "(shared_step True)\<^sup>*\<^sup>* s1 s2" "cpc s2 = Exited" "todo s2 = []"
      "answers (child s2) = answers (child s1) @ concat (map (\<lambda>l. l @ [NL]) (filter accepted ls))"
      using Cons.IH [OF s1(2-6) False] Cons.prems(7) by auto
    with s1(1,7) show ?thesis by (intro exI [of _ s2]) auto
  qed
qed simp

text \<open>Polite schedules leave no choice.\<close>

lemma polite_deterministic: "shared_step True s a \<Longrightarrow> shared_step True s b \<Longrightarrow> a = b"
  by (auto elim!: shared_stepE)

lemma polite_confluent:
  "(shared_step True)\<^sup>*\<^sup>* s a \<Longrightarrow> (shared_step True)\<^sup>*\<^sup>* s b \<Longrightarrow> \<nexists>b'. shared_step True b b' \<Longrightarrow> (shared_step True)\<^sup>*\<^sup>* a b"
proof (induction rule: rtranclp_induct)
  case (step y z)
  then show ?case using polite_deterministic by (metis converse_rtranclpE)
qed

text \<open>A child that is slow finds the last line only.\<close>

lemma last_line_only:
  "cpc s = Waiting \<Longrightarrow> holds [] (child s) \<Longrightarrow> length (area s) = MESSAGES_FILESIZE \<Longrightarrow> todo s = send_lines ls \<Longrightarrow>
   ls \<noteq> [] \<Longrightarrow> \<forall>l \<in> set ls. short_line l \<Longrightarrow>
   \<exists>s'. (shared_step False)\<^sup>*\<^sup>* s s' \<and> cpc s' = Exited \<and> todo s' = [] \<and>
     answers (child s') = answers (child s) @ (if accepted (last ls) then last ls @ [NL] else [])"
proof (induction ls arbitrary: s)
  case (Cons l ls)
  have l: "clean l" "length l < MESSAGES_FILESIZE" using Cons.prems(6) by (simp_all add: short_line_def)
  show ?case
  proof (cases "ls = []")
    case True
    let ?s1 = "s\<lparr>area := (l @ [EOF_CHAR]) @ drop (length (l @ [EOF_CHAR])) (area s), pending := True, todo := []\<rparr>"
    have sent: "(shared_step False)\<^sup>*\<^sup>* s ?s1"
      using send_one_line [of False s l EOF_CHAR "[]"] Cons.prems(1,3,4) l(2) True by simp
    obtain c' where c': "(shared_step False)\<^sup>*\<^sup>* ?s1 (?s1\<lparr>pending := False, cpc := Exited, child := c'\<rparr>)"
      "answers c' = answers (child s) @ (if accepted l then l @ [NL] else [])"
      using handle_line [of ?s1 l EOF_CHAR "drop (length (l @ [EOF_CHAR])) (area s)" False] Cons.prems(1-3) l by auto
    show ?thesis using rtranclp_trans [OF sent c'(1)] c'(2) True
      by (intro exI [of _ "?s1\<lparr>pending := False, cpc := Exited, child := c'\<rparr>"]) simp
  next
    case False
    let ?s1 = "s\<lparr>area := (l @ [NL]) @ drop (length (l @ [NL])) (area s), pending := True, todo := send_lines ls\<rparr>"
    have sent: "(shared_step False)\<^sup>*\<^sup>* s ?s1"
      using send_one_line [of False s l NL "send_lines ls"] Cons.prems(1,3,4) l(2) False by (simp add: send_lines_Cons)
    obtain s' where "(shared_step False)\<^sup>*\<^sup>* ?s1 s'" "cpc s' = Exited" "todo s' = []"
      "answers (child s') = answers (child s) @ (if accepted (last ls) then last ls @ [NL] else [])"
      using Cons.IH [of ?s1] Cons.prems(1-3,6) False l(2) by auto
    moreover from this(1) have "(shared_step False)\<^sup>*\<^sup>* s s'" using rtranclp_trans [OF sent] by blast
    ultimately show ?thesis using False by (intro exI [of _ s']) simp
  qed
qed simp

text \<open>The parent overwrites the area while the child copies.\<close>

lemma torn_line:
  assumes "cpc s = Waiting" "holds [] (child s)" "length (area s) = MESSAGES_FILESIZE" "todo s = send_lines [x # l1, y # l2]"
    and "short_line (x # l1)" "short_line (y # l2)" "is_upper x"
  shows "\<exists>s'. (shared_step False)\<^sup>*\<^sup>* s s' \<and> cpc s' = Exited \<and> todo s' = [] \<and> answers (child s') = answers (child s) @ x # l2 @ [NL]"
proof -
  let ?a1 = "((x # l1) @ [NL]) @ drop (length ((x # l1) @ [NL])) (area s)"
  let ?s1 = "s\<lparr>area := ?a1, pending := True, todo := send_lines [y # l2]\<rparr>"
  have len: "length (x # l1) < MESSAGES_FILESIZE" "length (y # l2) < MESSAGES_FILESIZE" "length ?a1 = MESSAGES_FILESIZE"
    using assms(3,5,6) by (auto simp: short_line_def)
  have 1: "(shared_step False)\<^sup>*\<^sup>* s ?s1"
    using send_one_line [of False s "x # l1" NL "send_lines [y # l2]"] assms(1,3,4) len(1) by simp
  let ?s2 = "?s1\<lparr>pending := False, cpc := Copying 0, child := read_begin (child s)\<rparr>"
  have "shared_step False ?s1 (?s1\<lparr>pending := False, cpc := Copying 0, child := read_begin (child ?s1)\<rparr>)"
    by (rule shared_step.handle) (use assms(1) in simp_all)
  then have 2: "shared_step False ?s1 ?s2" by simp
  obtain c where c: "read_byte x (read_begin (child s)) = Some c" "holds [x] c" "READ_ST c \<noteq> None" "answers c = answers (child s)"
    using read_byte_holds [of "[]" "read_begin (child s)" x] holds_begin [OF assms(2)] by auto
  let ?s3 = "?s2\<lparr>cpc := Copying 1, child := c\<rparr>"
  have "shared_step False ?s2 (?s2\<lparr>cpc := Copying (0 + 1), child := c\<rparr>)"
    by (rule shared_step.copy) (use c(1) len assms(5) in \<open>auto simp: short_line_def clean_def\<close>)
  then have 3: "shared_step False ?s2 ?s3" by simp
  let ?a4 = "((y # l2) @ [EOF_CHAR]) @ drop (length ((y # l2) @ [EOF_CHAR])) ?a1"
  let ?s4 = "?s3\<lparr>area := ?a4, pending := True, todo := []\<rparr>"
  have 4: "(shared_step False)\<^sup>*\<^sup>* ?s3 ?s4"
    using send_one_line [of False ?s3 "y # l2" EOF_CHAR "[]"] len by simp
  have "length ?a4 = MESSAGES_FILESIZE" using len by simp
  moreover have "clean [x]" "clean l2" using assms(5,6) by (simp_all add: short_line_def clean_def)
  ultimately obtain c' where c': "(shared_step False)\<^sup>*\<^sup>* ?s4 (?s4\<lparr>cpc := Exited, child := c'\<rparr>)"
      "answers c' = answers (child s) @ x # l2 @ [NL]"
    using copy_line [of ?s4 "[x]" l2 EOF_CHAR "drop (length ((y # l2) @ [EOF_CHAR])) ?a1" False] c assms(7)
    by (auto simp: accepted_def)
  have "(shared_step False)\<^sup>*\<^sup>* s (?s4\<lparr>cpc := Exited, child := c'\<rparr>)"
    using 1 2 3 4 c'(1) by (meson rtranclp.rtrancl_into_rtrancl rtranclp_trans)
  then show ?thesis using c'(2) by (intro exI [of _ "?s4\<lparr>cpc := Exited, child := c'\<rparr>"]) simp
qed

text \<open>
  Every schedule ends: an action of the parent allows at most one more handling of a signal, and that copies at
  most the area.
\<close>

definition shared_rank :: "nat \<Rightarrow> shared \<Rightarrow> nat" where
  "shared_rank n s = length (todo s) * (n + 4) + (if pending s then n + 3 else 0) +
     (case cpc s of Starting \<Rightarrow> 1 | Copying i \<Rightarrow> n + 1 - i | _ \<Rightarrow> 0)"

lemma shared_rank_step: "shared_step p s s' \<Longrightarrow> length (area s) = n \<Longrightarrow> shared_rank n s' < shared_rank n s"
  by (erule shared_stepE) (auto simp: shared_rank_def split: child_pc.splits)

lemma area_step: "shared_step p s s' \<Longrightarrow> length (area s) = n \<Longrightarrow> length (area s') = n"
  by (erule shared_stepE) auto

interpretation shared: bounded_schedule "shared_step p" "\<lambda>s. length (area s) = n" "shared_rank n" for p n
  by unfold_locales (fact area_step, fact shared_rank_step)

text \<open>How a schedule ends.\<close>

definition child_faults :: "shared \<Rightarrow> bool" where
  "child_faults s \<longleftrightarrow> (\<exists>i. cpc s = Copying i \<and> (length (area s) \<le> i \<or>
     area s ! i \<in> {NUL, NL, EOF_CHAR} \<and> read_end (area s ! i) i (child s) = None \<or>
     area s ! i \<notin> {NUL, NL, EOF_CHAR} \<and> read_byte (area s ! i) (child s) = None))"

definition parent_stops :: "shared \<Rightarrow> bool" where
  "parent_stops s \<longleftrightarrow> todo s = [] \<or> (\<exists>i ch acts. todo s = Store i ch # acts \<and> length (area s) \<le> i)"

lemma shared_ends:
  assumes "\<nexists>s'. shared_step p s s'"
  shows "cpc s \<in> {Exited, Killed} \<or> cpc s = Waiting \<and> \<not> pending s \<and> parent_stops s \<or> child_faults s"
proof (cases "cpc s")
  case Starting
  then show ?thesis using shared_step.ready assms by blast
next
  case Waiting
  then have idle: "\<not> pending s" using shared_step.handle assms by blast
  have "parent_stops s"
  proof (cases "todo s")
    case (Cons act acts)
    show ?thesis
    proof (cases act)
      case (Store i ch)
      then show ?thesis using shared_step.store [of s i ch acts p] assms Cons Waiting idle by (fastforce simp: parent_stops_def intro: leI)
    next
      case Signal
      then show ?thesis using shared_step.signal [of s acts p] assms Cons Waiting idle by blast
    qed
  qed (simp add: parent_stops_def)
  with Waiting idle show ?thesis by blast
next
  case (Copying i)
  have "child_faults s"
  proof (rule ccontr)
    assume "\<not> child_faults s"
    then have fine: "\<not> (length (area s) \<le> i \<or> area s ! i \<in> {NUL, NL, EOF_CHAR} \<and> read_end (area s ! i) i (child s) = None \<or>
      area s ! i \<notin> {NUL, NL, EOF_CHAR} \<and> read_byte (area s ! i) (child s) = None)"
      unfolding child_faults_def using Copying by (metis (no_types, lifting))
    then have i: "i < length (area s)" by simp
    show False
    proof (cases "area s ! i \<in> {NUL, NL, EOF_CHAR}")
      case True
      then obtain c where "read_end (area s ! i) i (child s) = Some c" using fine True by auto
      then show False using shared_step.finish [OF Copying i True] assms by blast
    next
      case False
      then obtain c where "read_byte (area s ! i) (child s) = Some c" using fine False by auto
      then show False using shared_step.copy [OF Copying i False] assms by blast
    qed
  qed
  then show ?thesis by blast
qed simp_all

text \<open>A store behind the area stays undone.\<close>

lemma stuck_store:
  "shared_step p s s' \<Longrightarrow> Store i ch \<in> set (todo s) \<and> length (area s) \<le> i \<Longrightarrow> Store i ch \<in> set (todo s') \<and> length (area s') \<le> i"
  by (erule shared_stepE) auto

interpretation stuck: schedule "shared_step p" "\<lambda>s. Store i ch \<in> set (todo s) \<and> length (area s) \<le> i" for p i ch
  by unfold_locales (rule stuck_store)

lemma long_line_store:
  assumes "l \<in> set ls" "MESSAGES_FILESIZE \<le> length l"
  shows "\<exists>ch. Store MESSAGES_FILESIZE ch \<in> set (send_lines ls)"
proof -
  have "\<exists>ch. Store MESSAGES_FILESIZE ch \<in> set (send_line st (length l))" for st
  proof -
    have "0 < (length l + MESSAGES_FILESIZE) div MESSAGES_FILESIZE" using assms(2) by (simp add: div_greater_zero_iff)
    moreover have "Store MESSAGES_FILESIZE (st ! MESSAGES_FILESIZE) \<in> set (send_chunk st 0 MESSAGES_FILESIZE)"
      by (simp add: send_chunk_def)
    ultimately show ?thesis using assms(2) by (auto simp: send_line_def Let_def intro!: bexI [of _ 0])
  qed
  with assms(1) show ?thesis by (induction ls rule: send_lines.induct) auto
qed

lemma exited_final: "cpc s = Exited \<Longrightarrow> todo s = [] \<Longrightarrow> \<not> shared_step p s s'"
  by (auto elim: shared_stepE)

lemma start_simps [simp]:
  "area (shared_start a acts) = a" "todo (shared_start a acts) = acts" "\<not> pending (shared_start a acts)"
  "cpc (shared_start a acts) = Starting" "child (shared_start a acts) = reader_init" "answers reader_init = []"
  by (simp_all add: shared_start_def reader_init_def)

lemma first_step: "shared_step p (shared_start a acts) ((shared_start a acts)\<lparr>cpc := Waiting\<rparr>)"
  by (rule shared_step.ready) (simp add: shared_start_def)

lemma after_first: "(shared_step p)\<^sup>*\<^sup>* ((shared_start a acts)\<lparr>cpc := Waiting\<rparr>) s \<Longrightarrow> (shared_step p)\<^sup>*\<^sup>* (shared_start a acts) s"
  using first_step by (rule converse_rtranclp_into_rtranclp)

section \<open>Properties\<close>

text \<open>
  C18: the filter over shared memory, if the parent waits for the child. For an input of lines
  shorter than the area, without zero bytes and bytes \<open>0xFF\<close>, every polite schedule ends in the
  same state: all is sent, the child has exited, and its output is that of the child of lab 2, the
  lines that start with a letter from A to Z.
\<close>

theorem shared_filter_polite:
  assumes "\<forall>k. ok k" "length (bytes src) + 1 < 2 ^ 29" "fin src = 0" "NUL \<notin> set (bytes src)" "EOF_CHAR \<notin> set (bytes src)"
    and "\<forall>l \<in> set (text_lines (bytes src)). length l < MESSAGES_FILESIZE" "length a = MESSAGES_FILESIZE"
  shows "\<exists>acts s evs. send_loop ok None 0 src = Some (acts, 0) \<and>
    (shared_step True)\<^sup>*\<^sup>* (shared_start a acts) s \<and> cpc s = Exited \<and> todo s = [] \<and>
    (\<forall>s'. (shared_step True)\<^sup>*\<^sup>* (shared_start a acts) s' \<longrightarrow> (shared_step True)\<^sup>*\<^sup>* s' s) \<and>
    answers (child s) = concat (map (\<lambda>l. l @ [NL]) (filter accepted (text_lines (bytes src)))) \<and>
    child_main ok (\<lambda>_. 0) \<lparr>bytes = bytes src @ [NL], fin = 0\<rparr> = Some (evs, 0) \<and> answers (child s) = stdout_of evs"
proof -
  let ?ls = "text_lines (bytes src)" and ?acts = "send_lines (text_lines (bytes src))"
  let ?s0 = "(shared_start a ?acts)\<lparr>cpc := Waiting\<rparr>"
  have send: "send_loop ok None 0 src = Some (?acts, 0)" using send_loop_lines [OF assms(1)] assms(2-4) by simp
  have lines: "short_line l" if "l \<in> set ?ls" for l
    using pieces_chars [OF that] assms(4-6) that by (auto simp: short_line_def clean_def)
  obtain s where s: "(shared_step True)\<^sup>*\<^sup>* ?s0 s" "cpc s = Exited" "todo s = []"
     "answers (child s) = concat (map (\<lambda>l. l @ [NL]) (filter accepted ?ls))"
    using all_exchanges [of ?s0 ?ls] lines assms(7) by auto
  have run: "(shared_step True)\<^sup>*\<^sup>* (shared_start a ?acts) s" using first_step s(1) by (rule converse_rtranclp_into_rtranclp)
  have "(shared_step True)\<^sup>*\<^sup>* s' s" if "(shared_step True)\<^sup>*\<^sup>* (shared_start a ?acts) s'" for s'
    using polite_confluent [OF that run] exited_final [OF s(2,3)] by blast
  moreover have "c_str l = l" if "l \<in> set ?ls" for l using lines [OF that] by (simp add: short_line_def clean_def)
  then have "stdout_of (map emit ?ls) = answers (child s)"
    unfolding s(4) stdout_of_emit by (intro arg_cong [where f = concat] map_cong) auto
  moreover have "child_main ok (\<lambda>_. 0) \<lparr>bytes = bytes src @ [NL], fin = 0\<rparr> = Some (map emit ?ls, 0)"
    using child_after_newline [OF assms(1), of src] assms(2) by simp
  ultimately show ?thesis using send run s(2-4) by metis
qed

text \<open>
  C19: nothing makes the parent wait. Without politeness there are schedules for the same input in
  which the child, ready from the start, sees only the last line; and, for two lines, one in which
  it prints the first letter of the first line followed by the rest of the second.
\<close>

theorem shared_filter_races:
  assumes "\<forall>k. ok k" "length (bytes src) < 2 ^ 29" "fin src = 0" "NUL \<notin> set (bytes src)" "EOF_CHAR \<notin> set (bytes src)"
    and "\<forall>l \<in> set (text_lines (bytes src)). length l < MESSAGES_FILESIZE" "length a = MESSAGES_FILESIZE"
  shows "\<exists>acts. send_loop ok None 0 src = Some (acts, 0) \<and>
    (\<exists>s. (shared_step False)\<^sup>*\<^sup>* (shared_start a acts) s \<and> cpc s = Exited \<and> todo s = [] \<and>
       answers (child s) = (let l = last (text_lines (bytes src)) in if accepted l then l @ [NL] else [])) \<and>
    (\<forall>x l1 l2 y. text_lines (bytes src) = [x # l1, y # l2] \<and> is_upper x \<longrightarrow>
       (\<exists>s. (shared_step False)\<^sup>*\<^sup>* (shared_start a acts) s \<and> cpc s = Exited \<and> todo s = [] \<and>
          answers (child s) = x # l2 @ [NL]))"
proof -
  let ?ls = "text_lines (bytes src)" and ?acts = "send_lines (text_lines (bytes src))"
  let ?s0 = "(shared_start a ?acts)\<lparr>cpc := Waiting\<rparr>"
  have send: "send_loop ok None 0 src = Some (?acts, 0)" using send_loop_lines [OF assms(1)] assms(2-4) by simp
  have lines: "short_line l" if "l \<in> set ?ls" for l
    using pieces_chars [OF that] assms(4-6) that by (auto simp: short_line_def clean_def)
  have loses: "\<exists>s. (shared_step False)\<^sup>*\<^sup>* (shared_start a ?acts) s \<and> cpc s = Exited \<and> todo s = [] \<and>
       answers (child s) = (if accepted (last ?ls) then last ?ls @ [NL] else [])"
    using last_line_only [of ?s0 ?ls] lines assms(7) after_first by fastforce
  have "\<exists>s. (shared_step False)\<^sup>*\<^sup>* (shared_start a ?acts) s \<and> cpc s = Exited \<and> todo s = [] \<and>
          answers (child s) = x # l2 @ [NL]" if "?ls = [x # l1, y # l2]" "is_upper x" for x l1 l2 y
    using torn_line [of ?s0 x l1 y l2] that lines assms(7) after_first by fastforce
  with send loses show ?thesis by (auto simp: Let_def)
qed

text \<open>
  C23: every schedule ends. Whatever the parent sends, a schedule of both processes has at most
  \<open>length a + 4\<close> steps per action of the parent and one more, each can be continued to an end, and at
  an end the child has ended or was killed, or it waits and no signal will come, since the parent
  has sent everything or stands before a store behind the area, or the child's handler faults.
\<close>

theorem shared_filter_ends:
  assumes "(shared_step p ^^ k) (shared_start a acts) s"
  shows "k \<le> length acts * (length a + 4) + 1 \<and> (\<exists>s'. (shared_step p)\<^sup>*\<^sup>* s s' \<and> (\<nexists>s''. shared_step p s' s'')) \<and>
    ((\<nexists>s'. shared_step p s s') \<longrightarrow>
       cpc s \<in> {Exited, Killed} \<or> cpc s = Waiting \<and> \<not> pending s \<and> parent_stops s \<or> child_faults s)"
proof (intro conjI impI)
  have start: "length (area (shared_start a acts)) = length a" by simp
  show "k \<le> length acts * (length a + 4) + 1" using shared.run_rank [OF assms start] by (simp add: shared_rank_def)
  show "\<exists>s'. (shared_step p)\<^sup>*\<^sup>* s s' \<and> (\<nexists>s''. shared_step p s' s'')"
    using shared.run_ends [OF shared.run_inv [OF relpowp_imp_rtranclp [OF assms] start]] .
qed (rule shared_ends)

text \<open>
  C24: long lines overrun the area. The chunks of a line are stored at the positions that they have
  in the line, not at the start of the area, and the first chunk has one character too many. So if
  the input has a line of \<open>1024\<close> characters or more, no schedule gets the parent to the end: it comes
  to a store behind the area.
\<close>

theorem shared_filter_overrun:
  assumes "\<forall>k. ok k" "length (bytes src) < 2 ^ 29" "fin src = 0" "NUL \<notin> set (bytes src)"
    and "l \<in> set (text_lines (bytes src))" "MESSAGES_FILESIZE \<le> length l" "length a = MESSAGES_FILESIZE"
  shows "\<exists>acts. send_loop ok None 0 src = Some (acts, 0) \<and>
    (\<forall>s. (shared_step p)\<^sup>*\<^sup>* (shared_start a acts) s \<longrightarrow>
       (\<exists>i ch. Store i ch \<in> set (todo s) \<and> length (area s) \<le> i))"
proof -
  let ?acts = "send_lines (text_lines (bytes src))"
  have "\<exists>ch. Store MESSAGES_FILESIZE ch \<in> set ?acts" by (rule long_line_store [OF assms(5,6)])
  then have "\<exists>i ch. Store i ch \<in> set (todo s) \<and> length (area s) \<le> i" if "(shared_step p)\<^sup>*\<^sup>* (shared_start a ?acts) s" for s
    using stuck.run_inv [OF that] assms(7) by fastforce
  then show ?thesis using send_loop_lines [OF assms(1-4)] by blast
qed

section \<open>Examples\<close>

definition two_lines :: source where
  "two_lines = \<lparr>bytes = ''Ab'' @ [NL] @ ''Cd'', fin = 0\<rparr>"

lemma two_lines_facts:
  "text_lines (bytes two_lines) = [''Ab'', ''Cd'']" "length (bytes two_lines) + 1 < 2 ^ 29" "fin two_lines = 0"
  "NUL \<notin> set (bytes two_lines)" "EOF_CHAR \<notin> set (bytes two_lines)" "accepted ''Ab''" "accepted ''Cd''" "is_upper (CHR ''A'')"
  by (simp_all add: two_lines_def NL_def accepted_def is_upper_def)

theorem shared_filter_polite_witness:
  "\<exists>acts s. send_loop (\<lambda>_. True) None 0 two_lines = Some (acts, 0) \<and>
     (shared_step True)\<^sup>*\<^sup>* (shared_start (replicate 1024 NUL) acts) s \<and> answers (child s) = ''Ab'' @ [NL] @ ''Cd'' @ [NL]"
proof -
  have "\<forall>l \<in> set (text_lines (bytes two_lines)). length l < MESSAGES_FILESIZE" by (simp add: two_lines_facts(1))
  moreover have "length (replicate 1024 NUL) = MESSAGES_FILESIZE" by simp
  ultimately obtain acts s where "send_loop (\<lambda>_. True) None 0 two_lines = Some (acts, 0)"
      "(shared_step True)\<^sup>*\<^sup>* (shared_start (replicate 1024 NUL) acts) s"
      "answers (child s) = concat (map (\<lambda>l. l @ [NL]) (filter accepted (text_lines (bytes two_lines))))"
    using shared_filter_polite [of "\<lambda>_. True" two_lines "replicate 1024 NUL"] two_lines_facts(2-5) by blast
  then show ?thesis by (auto simp: two_lines_facts(1,6,7))
qed

theorem shared_filter_races_witness:
  "\<exists>acts s s'. send_loop (\<lambda>_. True) None 0 two_lines = Some (acts, 0) \<and>
     (shared_step False)\<^sup>*\<^sup>* (shared_start (replicate 1024 NUL) acts) s \<and> answers (child s) = ''Cd'' @ [NL] \<and>
     (shared_step False)\<^sup>*\<^sup>* (shared_start (replicate 1024 NUL) acts) s' \<and> answers (child s') = ''Ad'' @ [NL]"
proof -
  obtain acts where acts: "send_loop (\<lambda>_. True) None 0 two_lines = Some (acts, 0)"
      "\<exists>s. (shared_step False)\<^sup>*\<^sup>* (shared_start (replicate 1024 NUL) acts) s \<and> cpc s = Exited \<and> todo s = [] \<and>
        answers (child s) = (let l = last (text_lines (bytes two_lines)) in if accepted l then l @ [NL] else [])"
      "\<forall>x l1 l2 y. text_lines (bytes two_lines) = [x # l1, y # l2] \<and> is_upper x \<longrightarrow>
       (\<exists>s. (shared_step False)\<^sup>*\<^sup>* (shared_start (replicate 1024 NUL) acts) s \<and> cpc s = Exited \<and> todo s = [] \<and>
          answers (child s) = x # l2 @ [NL])"
    using shared_filter_races [of "\<lambda>_. True" two_lines "replicate 1024 NUL"] two_lines_facts(2-5) by (auto simp: two_lines_facts(1))
  from acts(2) have "\<exists>s. (shared_step False)\<^sup>*\<^sup>* (shared_start (replicate 1024 NUL) acts) s \<and> answers (child s) = ''Cd'' @ [NL]"
    by (auto simp: two_lines_facts)
  moreover from acts(3) have "\<exists>s. (shared_step False)\<^sup>*\<^sup>* (shared_start (replicate 1024 NUL) acts) s \<and> answers (child s) = ''Ad'' @ [NL]"
    unfolding two_lines_facts(1) using two_lines_facts(8) by fastforce
  ultimately show ?thesis using acts(1) by blast
qed

theorem shared_filter_overrun_witness:
  "\<exists>acts. send_loop (\<lambda>_. True) None 0 \<lparr>bytes = replicate 1024 (CHR ''A''), fin = 0\<rparr> = Some (acts, 0) \<and>
     (\<forall>s. (shared_step False)\<^sup>*\<^sup>* (shared_start (replicate 1024 NUL) acts) s \<longrightarrow> todo s \<noteq> [])"
proof -
  have "text_lines (replicate n (CHR ''A'')) = [replicate n (CHR ''A'')]" for n
    by (induction n) (simp_all add: NL_def)
  then show ?thesis
    using shared_filter_overrun [of "\<lambda>_. True" "\<lparr>bytes = replicate 1024 (CHR ''A''), fin = 0\<rparr>" "replicate 1024 (CHR ''A'')"
        "replicate 1024 NUL" False] by fastforce
qed

theorem shared_filter_ends_witness:
  "(\<exists>s. (shared_step False ^^ 1) (shared_start ''xy'' [Signal]) s \<and> (\<exists>s'. (shared_step False)\<^sup>*\<^sup>* s s' \<and> (\<nexists>s''. shared_step False s' s''))) \<and>
   (\<forall>s. \<not> (shared_step False ^^ 8) (shared_start ''xy'' [Signal]) s)"
proof -
  have "(shared_step False ^^ 1) (shared_start ''xy'' [Signal]) ((shared_start ''xy'' [Signal])\<lparr>cpc := Waiting\<rparr>)"
    unfolding relpowp_1 by (rule first_step)
  moreover from shared_filter_ends [OF this] have "\<exists>s'. (shared_step False)\<^sup>*\<^sup>* ((shared_start ''xy'' [Signal])\<lparr>cpc := Waiting\<rparr>) s' \<and> (\<nexists>s''. shared_step False s' s'')"
    by blast
  moreover have "\<not> (shared_step False ^^ 8) (shared_start ''xy'' [Signal]) s0" for s0
    using shared_filter_ends [of 8 False "''xy''" "[Signal]" s0] by auto
  ultimately show ?thesis by blast
qed

end
