(* ===== verification/ControlMain.thy ===== *)
theory ControlMain
  imports ControlNode
begin

text \<open>
  The command loop of the control node, \<open>main\<close> of \<^verbatim>\<open>lab6/control_node.c\<close>: how it reads commands with
  \<open>scanf\<close>, and the program as a whole, in which the main thread, the receiver and the heartbeat
  workers take turns. The variables of \<open>main\<close> that keep their values between the commands are part
  of the state; one without a value is uninitialised, and reading it is a fault.
\<close>

section \<open>Reading\<close>

record reading =
  inp :: string             \<comment> \<open>the rest of the standard input\<close>
  arg1 :: "int option"
  arg2 :: "string option"   \<comment> \<open>\<open>None\<close> is the null pointer\<close>
  arg3 :: "int option"

text \<open>\<open>scanf("%s", ..)\<close>, and \<open>scanf("%d", ..)\<close>, which does not know numbers that are no \<open>int\<close>.\<close>

definition scan_word :: "string \<Rightarrow> (string \<times> string) option" where
  "scan_word s =
    (let t = dropWhile isspace s in
     if t = [] then None else Some (takeWhile (\<lambda>c. \<not> isspace c) t, dropWhile (\<lambda>c. \<not> isspace c) t))"

datatype scan = Input_end | Mismatch string | Scanned int string

definition scan_int :: "string \<Rightarrow> scan option" where
  "scan_int s =
    (let t = dropWhile isspace s in
     if t = [] then Some Input_end
     else
       let u = (if hd t = CHR ''-'' \<or> hd t = CHR ''+'' then tl t else t);
           d = int (digits_value (takeWhile isdigit u));
           n = (if hd t = CHR ''-'' then - d else d)
       in if takeWhile isdigit u = [] then Some (Mismatch u)
          else if is_int n then Some (Scanned n (dropWhile isdigit u)) else None)"

datatype command =
    Create_node int
  | Remove_node int
  | Execute_on int "string option" "int option"   \<comment> \<open>with a value it sets the variable\<close>
  | Heartbeat_every int
  | Unknown_word string

text \<open>
  One command. The outer \<open>None\<close> is a fault, the inner one the end of the input, which ends the loop.
  After a mismatch the old value is used.
\<close>

definition read_arg1 :: "(int \<Rightarrow> command) \<Rightarrow> reading \<Rightarrow> (command \<times> reading) option option" where
  "read_arg1 f r =
    (case scan_int (inp r) of
       None \<Rightarrow> None
     | Some Input_end \<Rightarrow> Some None
     | Some (Mismatch s) \<Rightarrow> map_option (\<lambda>a. Some (f a, r\<lparr>inp := s\<rparr>)) (arg1 r)
     | Some (Scanned n s) \<Rightarrow> Some (Some (f n, r\<lparr>inp := s, arg1 := Some n\<rparr>)))"

text \<open>\<open>scanf("%d %ms", ..)\<close>: a mismatch of the number ends it, without a name the old one stays.\<close>

definition scan_target :: "reading \<Rightarrow> reading option option" where
  "scan_target r =
    (case scan_int (inp r) of
       None \<Rightarrow> None
     | Some Input_end \<Rightarrow> Some None
     | Some (Mismatch s) \<Rightarrow> Some (Some (r\<lparr>inp := s\<rparr>))
     | Some (Scanned n s) \<Rightarrow>
         Some (Some (case scan_word s of
             None \<Rightarrow> r\<lparr>arg1 := Some n, inp := []\<rparr>
           | Some (w, s') \<Rightarrow> r\<lparr>arg1 := Some n, arg2 := Some (c_str w), inp := s'\<rparr>)))"

definition read_exec :: "reading \<Rightarrow> (command \<times> reading) option option" where
  "read_exec r =
    (case scan_target r of
       None \<Rightarrow> None
     | Some None \<Rightarrow> Some None
     | Some (Some r1) \<Rightarrow>
         if inp r1 \<noteq> [] \<and> hd (inp r1) = CHR '' '' then
           (case scan_int (tl (inp r1)) of
              None \<Rightarrow> None
            | Some Input_end \<Rightarrow> Some None
            | Some (Mismatch s) \<Rightarrow> do { a \<leftarrow> arg1 r1; v \<leftarrow> arg3 r1; Some (Some (Execute_on a (arg2 r1) (Some v), r1\<lparr>inp := s\<rparr>)) }
            | Some (Scanned v s) \<Rightarrow> do { a \<leftarrow> arg1 r1; Some (Some (Execute_on a (arg2 r1) (Some v), r1\<lparr>inp := s, arg3 := Some v\<rparr>)) })
         else do { a \<leftarrow> arg1 r1; Some (Some (Execute_on a (arg2 r1) None, r1\<lparr>inp := tl (inp r1)\<rparr>)) })"

abbreviation NEWLINE :: char where "NEWLINE \<equiv> CHR 0x0A"

definition read_command :: "reading \<Rightarrow> (command \<times> reading) option option" where
  "read_command r =
    (case scan_word (inp r) of
       None \<Rightarrow> Some None
     | Some (w, s) \<Rightarrow>
         let cmd = c_str w; r' = r\<lparr>inp := s\<rparr> in
         if length w \<ge> 10 then None
         else if cmd = ''create'' then read_arg1 Create_node r'
         else if cmd = ''remove'' then read_arg1 Remove_node r'
         else if cmd = ''exec'' then read_exec r'
         else if cmd = ''heartbeat'' then read_arg1 Heartbeat_every r'
         else Some (Some (Unknown_word cmd, r\<lparr>inp := tl (dropWhile (\<lambda>c. c \<noteq> NEWLINE) s)\<rparr>)))"

section \<open>The program\<close>

text \<open>The first component tells whether a heartbeat worker is started.\<close>

fun run_command :: "('z, 'h) env \<Rightarrow> command \<Rightarrow> ('z, 'h) control \<Rightarrow> (bool \<times> ('z, 'h) control) option" where
  "run_command E (Create_node n) st = map_option (Pair False) (cmd_create E n st)"
| "run_command E (Remove_node n) st = map_option (Pair False) (cmd_remove_c E n st)"
| "run_command E (Execute_on n x v) st = map_option (Pair False) (cmd_exec_c E (v \<noteq> None) n x (case v of None \<Rightarrow> 0 | Some i \<Rightarrow> i) st)"
| "run_command E (Heartbeat_every n) st = Some (cmd_heartbeat n st)"
| "run_command E (Unknown_word cmd) st = Some (False, emit_event Helped (print_line (''unknown command - '' @ cmd) st))"

record ('z, 'h) session =
  rd :: reading
  beaters :: nat            \<comment> \<open>heartbeat workers\<close>
  ctl :: "('z, 'h) control"
  ended :: bool

text \<open>A process that has called \<open>exit\<close>, or is the child that has become another program, is gone.\<close>

definition gone :: "('z, 'h) control \<Rightarrow> bool" where
  "gone st \<longleftrightarrow> trace st \<noteq> [] \<and> (case last (trace st) of Exit _ \<Rightarrow> True | Became _ \<Rightarrow> True | _ \<Rightarrow> False)"

definition main_turn :: "('z, 'h) env \<Rightarrow> ('z, 'h) session \<Rightarrow> ('z, 'h) session option" where
  "main_turn E s =
    (case read_command (rd s) of
       None \<Rightarrow> None
     | Some None \<Rightarrow> map_option (\<lambda>st. s\<lparr>ctl := st, ended := True\<rparr>) (control_stop E (ctl s))
     | Some (Some (c, r)) \<Rightarrow>
         map_option (\<lambda>(b, st). s\<lparr>rd := r, ctl := st, beaters := beaters s + (if b then 1 else 0), ended := gone st\<rparr>)
           (run_command E c (ctl s)))"

text \<open>A worker looks at \<open>heartbeat_time\<close> before every round; \<open>Beater k\<close> is a round with \<open>k\<close> polls.\<close>

datatype turn = User | Receiver | Beater nat

definition control_turn :: "('z, 'h) env \<Rightarrow> turn \<Rightarrow> ('z, 'h) session \<Rightarrow> ('z, 'h) session option" where
  "control_turn E t s =
    (if ended s then Some s
     else case t of
       User \<Rightarrow> main_turn E s
     | Receiver \<Rightarrow> map_option (\<lambda>st. s\<lparr>ctl := st\<rparr>) (receive_round E (ctl s))
     | Beater k \<Rightarrow>
         if beaters s = 0 then Some s
         else if heartbeat_time (ctl s) > 0 then map_option (\<lambda>st. s\<lparr>ctl := st\<rparr>) (heartbeat_round E k (ctl s))
         else Some (s\<lparr>beaters := beaters s - 1\<rparr>))"

fun control_run :: "('z, 'h) env \<Rightarrow> turn list \<Rightarrow> ('z, 'h) session \<Rightarrow> ('z, 'h) session option" where
  "control_run E [] s = Some s"
| "control_run E (t # ts) s = do { s1 \<leftarrow> control_turn E t s; control_run E ts s1 }"

definition reading_start :: "string \<Rightarrow> reading" where
  "reading_start s = \<lparr>inp = s, arg1 = None, arg2 = None, arg3 = None\<rparr>"

definition control_main ::
    "('z, 'h) env \<Rightarrow> int \<Rightarrow> addr \<Rightarrow> 'z \<Rightarrow> string \<Rightarrow> turn list \<Rightarrow> ('z, 'h) session option" where
  "control_main E own_pid barrier_addr z s turns = do {
     st \<leftarrow> control_start E own_pid barrier_addr z;
     control_run E turns \<lparr>rd = reading_start s, beaters = 0, ctl = emit_event Helped st, ended = False\<rparr>
   }"

section \<open>Lemmas: scanning\<close>

lemma scan_word_shorter: "scan_word s = Some (w, s') \<Longrightarrow> length s' < length s"
proof -
  assume a: "scan_word s = Some (w, s')"
  then have t: "dropWhile isspace s \<noteq> []" "s' = dropWhile (\<lambda>c. \<not> isspace c) (dropWhile isspace s)"
    by (auto simp: scan_word_def Let_def split: if_splits)
  then obtain c u where cu: "dropWhile isspace s = c # u" "\<not> isspace c"
    by (metis hd_dropWhile list.collapse)
  have "length s' \<le> length u" unfolding t(2) cu(1) using cu(2) by (simp add: length_dropWhile_le)
  moreover have "length (c # u) \<le> length s" unfolding cu(1) [symmetric] by (rule length_dropWhile_le)
  ultimately show ?thesis by simp
qed

lemma scan_int_shorter:
  "scan_int s = Some (Mismatch s') \<Longrightarrow> length s' \<le> length s"
  "scan_int s = Some (Scanned n s') \<Longrightarrow> length s' \<le> length s"
proof -
  define u where "u = (let t = dropWhile isspace s in if hd t = CHR ''-'' \<or> hd t = CHR ''+'' then tl t else t)"
  have "length u \<le> length s"
    using length_dropWhile_le [of isspace s] by (auto simp: u_def Let_def)
  moreover have "length (dropWhile isdigit u) \<le> length u" by (rule length_dropWhile_le)
  ultimately show "scan_int s = Some (Mismatch s') \<Longrightarrow> length s' \<le> length s"
    "scan_int s = Some (Scanned n s') \<Longrightarrow> length s' \<le> length s"
    by (auto simp: scan_int_def u_def Let_def split: if_splits)
qed

lemma read_arg1_shorter: "read_arg1 f r = Some (Some (c, r')) \<Longrightarrow> length (inp r') \<le> length (inp r)"
  using scan_int_shorter by (auto simp: read_arg1_def split: option.splits scan.splits)

lemma scan_target_shorter: "scan_target r = Some (Some r') \<Longrightarrow> length (inp r') \<le> length (inp r)"
  using scan_int_shorter [of "inp r"] scan_word_shorter
  by (fastforce simp: scan_target_def split: option.splits scan.splits prod.splits)

lemma read_exec_shorter:
  assumes "read_exec r = Some (Some (c, r'))"
  shows "length (inp r') \<le> length (inp r)"
proof -
  obtain r1 where r1: "scan_target r = Some (Some r1)"
    using assms by (auto simp: read_exec_def split: option.splits)
  have "length (tl (inp r1)) \<le> length (inp r1)" by simp
  then have "length (inp r') \<le> length (inp r1)"
    using assms scan_int_shorter [of "tl (inp r1)"] unfolding read_exec_def r1
    by (auto split: option.splits scan.splits if_splits intro: order_trans)
  with scan_target_shorter [OF r1] show ?thesis by simp
qed

lemma read_command_shorter:
  assumes "read_command r = Some (Some (c, r'))"
  shows "length (inp r') < length (inp r)"
proof -
  obtain w s where ws: "scan_word (inp r) = Some (w, s)"
    using assms by (auto simp: read_command_def split: option.splits)
  have "length (tl (dropWhile (\<lambda>c. c \<noteq> NEWLINE) s)) \<le> length s"
    using length_dropWhile_le [of "\<lambda>c. c \<noteq> NEWLINE" s] by simp
  then have "length (inp r') \<le> length s"
    using assms read_arg1_shorter [of _ "r\<lparr>inp := s\<rparr>"] read_exec_shorter [of "r\<lparr>inp := s\<rparr>"] unfolding read_command_def ws
    by (auto simp: Let_def split: if_splits)
  with scan_word_shorter [OF ws] show ?thesis by simp
qed

text \<open>All commands of an input; \<open>None\<close> if reading faults. Reading always comes to an end.\<close>

function commands_of :: "reading \<Rightarrow> command list option" where
  "commands_of r =
    (case read_command r of
       None \<Rightarrow> None
     | Some None \<Rightarrow> Some []
     | Some (Some (c, r')) \<Rightarrow> map_option (Cons c) (commands_of r'))"
  by pat_completeness auto
termination
  by (relation "measure (\<lambda>r. length (inp r))") (auto dest!: read_command_shorter)

declare commands_of.simps [simp del]

section \<open>Lemmas: printed commands\<close>

definition word_ok :: "string \<Rightarrow> bool" where
  "word_ok w \<longleftrightarrow> w \<noteq> [] \<and> CHR 0x00 \<notin> set w \<and> (\<forall>c \<in> set w. \<not> isspace c)"

lemma scan_word_print:
  assumes "\<forall>c \<in> set sp. isspace c" "word_ok w" "rest = [] \<or> isspace (hd rest)"
  shows "scan_word (sp @ w @ rest) = Some (w, rest)"
proof -
  have "dropWhile isspace (sp @ w @ rest) = w @ rest"
    using assms(1,2) by (cases w) (simp_all add: word_ok_def)
  moreover have "takeWhile (\<lambda>c. \<not> isspace c) (w @ rest) = w" "dropWhile (\<lambda>c. \<not> isspace c) (w @ rest) = rest"
    using assms(2,3) by (cases rest; simp add: word_ok_def takeWhile_append dropWhile_append)+
  ultimately show ?thesis using assms(2) by (simp add: scan_word_def Let_def word_ok_def)
qed

lemma scan_int_print:
  assumes "\<forall>c \<in> set sp. isspace c" "is_int n" "rest = [] \<or> \<not> isdigit (hd rest)"
  shows "scan_int (sp @ int_to_str n @ rest) = Some (Scanned n rest)"
proof -
  have digits: "takeWhile isdigit (nat_to_dec k @ rest) = nat_to_dec k" "dropWhile isdigit (nat_to_dec k @ rest) = rest" for k
    using assms(3) by (cases rest; simp add: nat_to_dec_digits takeWhile_append dropWhile_append)+
  have sp: "dropWhile isspace (sp @ c # u) = c # u" if "\<not> isspace c" for c u using assms(1) that by simp
  show ?thesis
  proof (cases "n < 0")
    case True
    have "dropWhile isspace (sp @ int_to_str n @ rest) = CHR ''-'' # nat_to_dec (nat (- n)) @ rest"
      using True sp [of "CHR ''-''"] by (simp add: int_to_str_def isspace_def)
    with True assms(2) show ?thesis by (simp add: scan_int_def digits)
  next
    case False
    obtain c u where cu: "nat_to_dec (nat n) = c # u" "\<not> isspace c" "c \<noteq> CHR ''-''" "c \<noteq> CHR ''+''"
      using nat_to_dec_Cons by blast
    then have "dropWhile isspace (sp @ int_to_str n @ rest) = nat_to_dec (nat n) @ rest"
      using False sp by (simp add: int_to_str_def)
    moreover have "hd (nat_to_dec (nat n) @ rest) \<noteq> CHR ''-''" "hd (nat_to_dec (nat n) @ rest) \<noteq> CHR ''+''" using cu by simp_all
    ultimately show ?thesis using False assms(2) by (simp add: scan_int_def digits)
  qed
qed

fun command_text :: "command \<Rightarrow> string" where
  "command_text (Create_node n) = ''create '' @ int_to_str n @ [NEWLINE]"
| "command_text (Remove_node n) = ''remove '' @ int_to_str n @ [NEWLINE]"
| "command_text (Execute_on n x v) = ''exec '' @ int_to_str n @ (case x of None \<Rightarrow> [] | Some w \<Rightarrow> CHR '' '' # w) @
     (case v of None \<Rightarrow> [] | Some i \<Rightarrow> CHR '' '' # int_to_str i) @ [NEWLINE]"
| "command_text (Heartbeat_every n) = ''heartbeat '' @ int_to_str n @ [NEWLINE]"
| "command_text (Unknown_word w) = w @ [NEWLINE]"

fun command_ok :: "command \<Rightarrow> bool" where
  "command_ok (Create_node n) = is_int n"
| "command_ok (Remove_node n) = is_int n"
| "command_ok (Execute_on n x v) = (is_int n \<and> (\<exists>w. x = Some w \<and> word_ok w) \<and> (\<forall>i. v = Some i \<longrightarrow> is_int i))"
| "command_ok (Heartbeat_every n) = is_int n"
| "command_ok (Unknown_word w) = (word_ok w \<and> length w < 10 \<and> w \<notin> {''create'', ''remove'', ''exec'', ''heartbeat''})"

lemma newline_facts [simp]: "isspace NEWLINE" "isspace (CHR '' '')" "\<not> isdigit NEWLINE" "\<not> isdigit (CHR '' '')"
  by (simp_all add: isspace_def isdigit_def)

lemma keyword_word: "word_ok ''create''" "word_ok ''remove''" "word_ok ''exec''" "word_ok ''heartbeat''"
  by (simp_all add: word_ok_def isspace_def)

lemma read_arg1_print:
  assumes "is_int n" "inp r = CHR '' '' # int_to_str n @ NEWLINE # rest"
  shows "read_arg1 f r = Some (Some (f n, r\<lparr>inp := NEWLINE # rest, arg1 := Some n\<rparr>))"
  using scan_int_print [of "'' ''" n "NEWLINE # rest"] assms by (simp add: read_arg1_def)

lemma read_exec_print:
  assumes "is_int n" "word_ok w" "\<forall>i. v = Some i \<longrightarrow> is_int i"
    and "inp r = CHR '' '' # int_to_str n @ CHR '' '' # w @ (case v of None \<Rightarrow> [] | Some i \<Rightarrow> CHR '' '' # int_to_str i) @ NEWLINE # rest"
  shows "\<exists>r'. read_exec r = Some (Some (Execute_on n (Some w) v, r')) \<and> inp r' \<in> {rest, NEWLINE # rest}"
proof -
  let ?tail = "(case v of None \<Rightarrow> [] | Some i \<Rightarrow> CHR '' '' # int_to_str i) @ NEWLINE # rest"
  have number: "scan_int (inp r) = Some (Scanned n (CHR '' '' # w @ ?tail))"
    using scan_int_print [of "'' ''" n "CHR '' '' # w @ ?tail"] assms(1,4) by simp
  have name: "scan_word (CHR '' '' # w @ ?tail) = Some (w, ?tail)"
    using scan_word_print [of "'' ''" w ?tail] assms(2) by (cases v) simp_all
  have target: "scan_target r = Some (Some (r\<lparr>arg1 := Some n, arg2 := Some w, inp := ?tail\<rparr>))"
    using assms(2) by (simp add: scan_target_def number name word_ok_def)
  show ?thesis
  proof (cases v)
    case None
    then show ?thesis using target by (simp add: read_exec_def)
  next
    case (Some i)
    then have "scan_int (int_to_str i @ NEWLINE # rest) = Some (Scanned i (NEWLINE # rest))"
      using scan_int_print [of "[]" i "NEWLINE # rest"] assms(3) by simp
    with Some show ?thesis using target by (simp add: read_exec_def)
  qed
qed

lemma read_command_print:
  assumes "command_ok c" "\<forall>x \<in> set sp. isspace x" "inp r = sp @ command_text c @ rest"
  shows "\<exists>r'. read_command r = Some (Some (c, r')) \<and> inp r' \<in> {rest, NEWLINE # rest}"
proof (cases c)
  case (Create_node n)
  have "scan_word (inp r) = Some (''create'', CHR '' '' # int_to_str n @ NEWLINE # rest)"
    using scan_word_print [OF assms(2) keyword_word(1), of "CHR '' '' # int_to_str n @ NEWLINE # rest"] assms(3) Create_node by simp
  then show ?thesis using assms(1) Create_node
    by (simp add: read_command_def Let_def read_arg1_print [where rest = rest] c_str_def)
next
  case (Remove_node n)
  have "scan_word (inp r) = Some (''remove'', CHR '' '' # int_to_str n @ NEWLINE # rest)"
    using scan_word_print [OF assms(2) keyword_word(2), of "CHR '' '' # int_to_str n @ NEWLINE # rest"] assms(3) Remove_node by simp
  then show ?thesis using assms(1) Remove_node
    by (simp add: read_command_def Let_def read_arg1_print [where rest = rest] c_str_def)
next
  case (Execute_on n x v)
  then obtain w where x: "x = Some w" "word_ok w" using assms(1) by auto
  let ?tail = "CHR '' '' # int_to_str n @ CHR '' '' # w @ (case v of None \<Rightarrow> [] | Some i \<Rightarrow> CHR '' '' # int_to_str i) @ NEWLINE # rest"
  have "scan_word (inp r) = Some (''exec'', ?tail)"
    using scan_word_print [OF assms(2) keyword_word(3), of ?tail] assms(3) Execute_on x(1) by simp
  then show ?thesis using read_exec_print [of n w v "r\<lparr>inp := ?tail\<rparr>" rest] assms(1) Execute_on x
    by (simp add: read_command_def Let_def c_str_def)
next
  case (Heartbeat_every n)
  have "scan_word (inp r) = Some (''heartbeat'', CHR '' '' # int_to_str n @ NEWLINE # rest)"
    using scan_word_print [OF assms(2) keyword_word(4), of "CHR '' '' # int_to_str n @ NEWLINE # rest"] assms(3) Heartbeat_every by simp
  then show ?thesis using assms(1) Heartbeat_every
    by (simp add: read_command_def Let_def read_arg1_print [where rest = rest] c_str_def)
next
  case (Unknown_word w)
  then have "scan_word (inp r) = Some (w, NEWLINE # rest)"
    using scan_word_print [OF assms(2), of w "NEWLINE # rest"] assms(1,3) by simp
  then show ?thesis using assms(1) Unknown_word by (simp add: read_command_def Let_def word_ok_def)
qed

lemma commands_of_text:
  "\<forall>c \<in> set cs. command_ok c \<Longrightarrow> inp r \<in> {concat (map command_text cs), NEWLINE # concat (map command_text cs)} \<Longrightarrow>
   commands_of r = Some cs"
proof (induction cs arbitrary: r)
  case Nil
  then have "read_command r = Some None" by (auto simp: read_command_def scan_word_def)
  then show ?case by (subst commands_of.simps) simp
next
  case (Cons c cs)
  have "inp r = [] @ command_text c @ concat (map command_text cs) \<or> inp r = [NEWLINE] @ command_text c @ concat (map command_text cs)"
    using Cons.prems(2) by simp
  moreover have "\<forall>x \<in> set []. isspace x" "\<forall>x \<in> set [NEWLINE]. isspace x" by simp_all
  ultimately obtain sp where sp: "\<forall>x \<in> set sp. isspace x" "inp r = sp @ command_text c @ concat (map command_text cs)" by blast
  obtain r' where r': "read_command r = Some (Some (c, r'))" "inp r' \<in> {concat (map command_text cs), NEWLINE # concat (map command_text cs)}"
    using read_command_print [OF _ sp] Cons.prems(1) by auto
  then show ?case using Cons.IH [of r'] Cons.prems(1) by (subst commands_of.simps) simp
qed

section \<open>Lemmas: sessions\<close>

text \<open>How many commands the schedule has let the main thread start.\<close>

definition user_turns :: "turn list \<Rightarrow> nat" where
  "user_turns ts = length (filter (\<lambda>t. t = User) ts)"

lemma control_turn_commands:
  assumes "control_turn E t s = Some s'" "\<not> ended s'" "commands_of (rd s) = Some cs"
  shows "\<not> ended s \<and> (if t = User then cs \<noteq> [] \<and> commands_of (rd s') = Some (tl cs) \<and>
      (\<exists>b st. run_command E (hd cs) (ctl s) = Some (b, st) \<and> ctl s' = st \<and> beaters s' = beaters s + (if b then 1 else 0))
    else rd s' = rd s)"
proof -
  have e: "\<not> ended s" using assms(1,2) by (auto simp: control_turn_def)
  show ?thesis
  proof (cases "t = User")
    case True
    then have m: "main_turn E s = Some s'" using assms(1) e by (simp add: control_turn_def)
    then obtain c r where c: "read_command (rd s) = Some (Some (c, r))"
      using assms(2) by (auto simp: main_turn_def split: option.splits)
    have "commands_of (rd s) = map_option (Cons c) (commands_of r)" by (subst commands_of.simps) (simp add: c)
    then obtain cs' where cs': "cs = c # cs'" "commands_of r = Some cs'" using assms(3) by (cases "commands_of r") simp_all
    obtain b st where st: "run_command E c (ctl s) = Some (b, st)"
        "s' = s\<lparr>rd := r, ctl := st, beaters := beaters s + (if b then 1 else 0), ended := gone st\<rparr>"
      using m by (auto simp: main_turn_def c)
    show ?thesis using e True by (simp add: cs' st)
  next
    case False
    then show ?thesis using assms(1) e by (cases t) (auto simp: control_turn_def split: if_splits)
  qed
qed

lemma control_run_commands:
  "control_run E ts s = Some s' \<Longrightarrow> \<not> ended s' \<Longrightarrow> commands_of (rd s) = Some cs \<Longrightarrow>
   user_turns ts \<le> length cs \<and> commands_of (rd s') = Some (drop (user_turns ts) cs)"
proof (induction ts arbitrary: s cs)
  case (Cons t ts)
  then obtain s1 where s1: "control_turn E t s = Some s1" "control_run E ts s1 = Some s'" by auto
  have live: "\<not> ended s1"
  proof
    assume "ended s1"
    then have "control_run E us s1 = Some s1" for us by (induction us) (simp_all add: control_turn_def)
    with s1(2) \<open>ended s1\<close> Cons.prems(2) show False by simp
  qed
  from control_turn_commands [OF s1(1) live Cons.prems(3)] show ?case
    using Cons.IH [OF s1(2) Cons.prems(2)] Cons.prems(3)
    by (cases "t = User"; cases cs) (auto simp: user_turns_def)
qed (simp add: user_turns_def)

section \<open>Lemmas: start\<close>

text \<open>What the program starts with, if the table and both sockets can be had.\<close>

lemma control_start_ok:
  assumes "os_realloc (the_os E) btree_init" "\<forall>s a z. fst (zmq_bind (the_zmq E) s a z) = 0"
    and "hashmap_laws (the_map E)" "b \<noteq> NULL"
  shows "\<exists>st. control_start E own_pid b z = Some st \<and> btree_inv (TREE st) \<and> nodes (TREE st) = [C_NODE st] \<and>
    id_of (C_NODE st) = -1 \<and> pid (C_NODE st) = own_pid \<and> mqn_inv (CONTROL_NODE st) \<and> children (CONTROL_NODE st) = [] \<and>
    list_of (remove_list st) [] \<and> (\<forall>u. answered E st u) \<and> heartbeat_time st = 0 \<and> trace st = []"
proof -
  let ?self = "\<lparr>id_of = -1, pid = own_pid, main_address = None, ping_address = None\<rparr>"
  obtain t where t: "btree_add True btree_init ?self = Some (t, True)" "btree_inv t" "nodes t = [?self]"
  proof -
    have "bt_size btree_init + 1 < 2 ^ 30" by (simp add: btree_init_def)
    from btree_add_spec [OF btree_init_correct(1) this, of ?self] show thesis using that btree_init_correct(2) by auto
  qed
  obtain l where l: "list_init \<lparr>heap = [b \<mapsto> \<lparr>val = None, pn = NULL\<rparr>], barrier = b, first = NULL, list_size = 0\<rparr> = Some l"
      "list_of l ([] :: remove_struct list)"
    using list_init_list_of [of "\<lparr>heap = [b \<mapsto> \<lparr>val = None, pn = NULL\<rparr>], barrier = b, first = NULL, list_size = 0\<rparr>"] assms(4) by auto
  obtain m z1 where m: "mqn_init (the_zmq E) z = (m, z1)" by fastforce
  then have inv: "mqn_inv m" "children m = []"
    by (auto simp: mqn_init_def mqn_inv_def children_def split_beta Let_def)
  obtain z2 where z2: "\<And>a p. \<exists>z2. mqn_bind (the_zmq E) m a p z1 = Some z2"
    using assms(2) by (auto simp: mqn_bind_def assert_zero_def)
  have address: "gen_address 5000 = Some (''tcp://*:'' @ int_to_str 5000, ''tcp://localhost:'' @ int_to_str 5000, 5001)"
    "gen_address 5001 = Some (''tcp://*:'' @ int_to_str 5001, ''tcp://localhost:'' @ int_to_str 5001, 5002)"
    by (simp_all add: gen_address_def int_inc_def Let_def)
  obtain z3 where "mqn_bind (the_zmq E) m (''tcp://*:'' @ int_to_str 5000) (''tcp://*:'' @ int_to_str 5001) z1 = Some z3"
    using z2 by blast
  then show ?thesis
    using t l m inv assms(1) hashmap_get_init [OF assms(3)]
    by (simp add: control_start_def address answered_def)
qed

section \<open>Properties\<close>

text \<open>
  C31: the command loop runs what is typed. The input is the text of commands \<open>cs\<close>, one per line, with
  numbers that are \<open>int\<close>s and words without spaces. In every schedule of the three kinds of threads, the
  turn number \<open>k\<close> of the main thread runs exactly the command \<open>cs ! k\<close> on the state that the others
  have left, and the turn after the last command kills the nodes and ends the program.
\<close>

theorem control_main_runs_commands:
  assumes "\<forall>c \<in> set cs. command_ok c" "control_main E own_pid b z (concat (map command_text cs)) turns = Some s" "\<not> ended s"
    and "k = user_turns turns"
  shows "k \<le> length cs \<and>
    (k < length cs \<longrightarrow> (\<exists>r. control_turn E User s =
       map_option (\<lambda>(w, st). s\<lparr>rd := r, ctl := st, beaters := beaters s + (if w then 1 else 0), ended := gone st\<rparr>)
         (run_command E (cs ! k) (ctl s)))) \<and>
    (k = length cs \<longrightarrow> control_turn E User s = map_option (\<lambda>st. s\<lparr>ctl := st, ended := True\<rparr>) (control_stop E (ctl s)))"
proof -
  obtain st where run: "control_run E turns \<lparr>rd = reading_start (concat (map command_text cs)), beaters = 0,
      ctl = emit_event Helped st, ended = False\<rparr> = Some s"
    using assms(2) by (auto simp: control_main_def)
  have "commands_of (reading_start (concat (map command_text cs))) = Some cs"
    by (rule commands_of_text [OF assms(1)]) (simp add: reading_start_def)
  with control_run_commands [OF run assms(3)] assms(4)
  have k: "k \<le> length cs" "commands_of (rd s) = Some (drop k cs)" by simp_all
  have "\<exists>r. read_command (rd s) = Some (Some (cs ! k, r))" if "k < length cs"
    using k(2) that
    by (subst (asm) commands_of.simps) (auto simp: Cons_nth_drop_Suc [symmetric] split: option.splits)
  moreover have "read_command (rd s) = Some None" if "k = length cs"
    using k(2) that by (subst (asm) commands_of.simps) (auto split: option.splits)
  ultimately show ?thesis using k(1) assms(3)
    by (intro conjI impI) (force simp: control_turn_def main_turn_def)+
qed

text \<open>
  Input that the loop does not survive or misreads. A word of ten characters or more does not
  fit \<open>cmd\<close>; a command without a number, before any number was read, works on an uninitialised
  variable; and an \<open>exec\<close> that asks for a value, but has a space at the end of its line, takes a number at the
  start of the next line as the value to set.
\<close>

theorem control_input_faults:
  "(word_ok w \<and> 10 \<le> length w \<longrightarrow> read_command (reading_start (w @ NEWLINE # rest)) = None) \<and>
   (word_ok w \<and> hd w \<notin> {CHR ''-'', CHR ''+''} \<and> \<not> isdigit (hd w) \<longrightarrow>
      read_command (reading_start (''create '' @ w @ NEWLINE # rest)) = None) \<and>
   (command_ok (Execute_on n (Some w) (Some v)) \<longrightarrow>
      (\<exists>r. read_command (reading_start (''exec '' @ int_to_str n @ CHR '' '' # w @ CHR '' '' # NEWLINE # int_to_str v @ NEWLINE # rest)) =
         Some (Some (Execute_on n (Some w) (Some v), r))))"
proof (intro conjI impI)
  assume a: "word_ok w \<and> 10 \<le> length w"
  then show "read_command (reading_start (w @ NEWLINE # rest)) = None"
    using scan_word_print [of "[]" w "NEWLINE # rest"] by (simp add: read_command_def reading_start_def)
next
  assume a: "word_ok w \<and> hd w \<notin> {CHR ''-'', CHR ''+''} \<and> \<not> isdigit (hd w)"
  then obtain c u where w: "w = c # u" "\<not> isspace c" "c \<noteq> CHR ''-''" "c \<noteq> CHR ''+''" "\<not> isdigit c"
    by (cases w) (auto simp: word_ok_def)
  have "scan_word (''create '' @ w @ NEWLINE # rest) = Some (''create'', CHR '' '' # w @ NEWLINE # rest)"
    using scan_word_print [of "[]" "''create''" "CHR '' '' # w @ NEWLINE # rest"] keyword_word(1) by simp
  moreover have "scan_int (CHR '' '' # w @ NEWLINE # rest) = Some (Mismatch (w @ NEWLINE # rest))"
    using w by (simp add: scan_int_def)
  ultimately show "read_command (reading_start (''create '' @ w @ NEWLINE # rest)) = None"
    by (simp add: read_command_def reading_start_def read_arg1_def c_str_def)
next
  assume ok: "command_ok (Execute_on n (Some w) (Some v))"
  let ?tail = "CHR '' '' # NEWLINE # int_to_str v @ NEWLINE # rest"
  let ?r = "reading_start (CHR '' '' # int_to_str n @ CHR '' '' # w @ ?tail)"
  have "scan_word (''exec '' @ int_to_str n @ CHR '' '' # w @ ?tail) = Some (''exec'', CHR '' '' # int_to_str n @ CHR '' '' # w @ ?tail)"
    using scan_word_print [of "[]" "''exec''" "CHR '' '' # int_to_str n @ CHR '' '' # w @ ?tail"] keyword_word(3) by simp
  moreover have "scan_int (CHR '' '' # int_to_str n @ CHR '' '' # w @ ?tail) = Some (Scanned n (CHR '' '' # w @ ?tail))"
    using scan_int_print [of "'' ''" n "CHR '' '' # w @ ?tail"] ok by simp
  moreover have "scan_word (CHR '' '' # w @ ?tail) = Some (w, ?tail)"
    using scan_word_print [of "'' ''" w ?tail] ok by simp
  moreover have "scan_int (NEWLINE # int_to_str v @ NEWLINE # rest) = Some (Scanned v (NEWLINE # rest))"
    using scan_int_print [of "[NEWLINE]" v "NEWLINE # rest"] ok by simp
  ultimately show "\<exists>r. read_command (reading_start (''exec '' @ int_to_str n @ CHR '' '' # w @ ?tail)) =
         Some (Some (Execute_on n (Some w) (Some v), r))"
    using ok by (simp add: read_command_def reading_start_def read_exec_def scan_target_def word_ok_def)
qed

section \<open>Examples\<close>

theorem control_main_runs_commands_witness:
  "\<exists>s. control_main demo_env 100 16 idle (''heartbeat 5'' @ [NEWLINE] @ ''heartbeat 0'' @ [NEWLINE]) [User] = Some s \<and>
     beaters s = 1 \<and> (\<exists>s'. control_turn demo_env User s = Some s' \<and> heartbeat_time (ctl s') = 0)"
proof -
  let ?cs = "[Heartbeat_every 5, Heartbeat_every 0]"
  have num: "int_to_str 5 = ''5''" "int_to_str 0 = ''0''" by code_simp+
  then have input: "concat (map command_text ?cs) = ''heartbeat 5'' @ [NEWLINE] @ ''heartbeat 0'' @ [NEWLINE]" by simp
  have ok: "\<forall>c \<in> set ?cs. command_ok c" by (simp add: is_int_def)
  have "os_realloc (the_os demo_env) btree_init" "\<forall>s a z. fst (zmq_bind (the_zmq demo_env) s a z) = 0"
    "hashmap_laws (the_map demo_env)" "(16 :: addr) \<noteq> NULL"
    using demo_env_good by (simp_all add: demo_env_def demo_os_def loopback_def good_env_def)
  from control_start_ok [OF this, of 100 idle] obtain st where st: "control_start demo_env 100 16 idle = Some st" "heartbeat_time st = 0"
    by blast
  obtain r where r: "read_command (reading_start (concat (map command_text ?cs))) = Some (Some (Heartbeat_every 5, r))"
    using read_command_print [of "Heartbeat_every 5" "[]" "reading_start (concat (map command_text ?cs))" "command_text (Heartbeat_every 0)"]
    by (auto simp: reading_start_def is_int_def)
  let ?s = "\<lparr>rd = r, beaters = 1, ctl = (print_line ''OK'' (emit_event Helped st))\<lparr>heartbeat_time := 5\<rparr>, ended = False\<rparr>"
  have run: "control_main demo_env 100 16 idle (concat (map command_text ?cs)) [User] = Some ?s"
    using st r by (simp add: control_main_def control_turn_def main_turn_def cmd_heartbeat_def emit_event_def gone_def del: command_text.simps)
  have "\<exists>r. control_turn demo_env User ?s =
       map_option (\<lambda>(w, st). ?s\<lparr>rd := r, ctl := st, beaters := beaters ?s + (if w then 1 else 0), ended := gone st\<rparr>)
         (run_command demo_env (?cs ! 1) (ctl ?s))"
    using control_main_runs_commands [OF ok run _ refl] by (simp add: user_turns_def)
  then have "\<exists>s'. control_turn demo_env User ?s = Some s' \<and> heartbeat_time (ctl s') = 0"
    by (auto simp: cmd_heartbeat_def)
  with run show ?thesis unfolding input by auto
qed

theorem control_input_faults_witness:
  "read_command (reading_start (''heartbeats'' @ NEWLINE # [])) = None \<and>
   read_command (reading_start (''create '' @ ''x'' @ NEWLINE # [])) = None \<and>
   (\<exists>r. read_command (reading_start (''exec '' @ int_to_str 1 @ CHR '' '' # ''x'' @ CHR '' '' # NEWLINE # int_to_str 5 @ NEWLINE # [])) =
      Some (Some (Execute_on 1 (Some ''x'') (Some 5), r)))"
proof -
  have w: "word_ok ''heartbeats''" "word_ok ''x''" by (simp_all add: word_ok_def isspace_def)
  have "10 \<le> length ''heartbeats''" by simp
  with control_input_faults [of "''heartbeats''" "[]" 1 5] w(1) have "read_command (reading_start (''heartbeats'' @ NEWLINE # [])) = None" by blast
  moreover have "hd ''x'' \<notin> {CHR ''-'', CHR ''+''} \<and> \<not> isdigit (hd ''x'')" by (simp add: isdigit_def)
  moreover have "command_ok (Execute_on 1 (Some ''x'') (Some 5))" using w(2) by (simp add: is_int_def)
  ultimately show ?thesis using control_input_faults [of "''x''" "[]" 1 5] w(2) by blast
qed

end
