(* ===== verification/Heartbeat.thy ===== *)
theory Heartbeat
  imports ControlMain
begin

text \<open>
  Heartbeats of lab 6 (\<^verbatim>\<open>heartbeat_worker\<close> of \<^verbatim>\<open>lab6/control_node.c\<close>): every node has a counter of
  the rounds since its last answer; a round raises all counters, asks the nodes, sets the counters
  of those that answer to 0, and reports the nodes whose counter is 4. This theory says what the
  rounds report, given what answers come.
\<close>

section \<open>Answers\<close>

text \<open>
  The parts of the answers of nodes \<open>ids\<close>. \<open>pong_net\<close> describes ping sockets in a tree in which \<open>ans r\<close>
  are the nodes whose answers come back through the socket \<open>r\<close> whenever a ping is sent there;
  \<open>Q z r\<close> are the parts waiting on it. Parts are received in order, one by one.
\<close>

definition pong_parts :: "int list \<Rightarrow> (string \<times> bool) list" where
  "pong_parts ids = concat (map (\<lambda>i. flagged [''pong'', int_to_str i]) ids)"

definition pong_net :: "'z zmq \<Rightarrow> (addr \<Rightarrow> int list) \<Rightarrow> ('z \<Rightarrow> addr \<Rightarrow> (string \<times> bool) list) \<Rightarrow> bool" where
  "pong_net q ans Q \<longleftrightarrow> (\<forall>r. r \<noteq> NULL \<longrightarrow>
     (\<forall>z. \<exists>z'. assert_sent (zmq_msg_send q r ''ping'' False z) = Some z' \<and> Q z' = (Q z)(r := Q z r @ pong_parts (ans r))) \<and>
     (\<forall>z. Q z r = [] \<longrightarrow> (\<exists>z'. zmq_msg_recv q r z = (None, z') \<and> Q z' = Q z)) \<and>
     (\<forall>z p more xs. Q z r = (p, more) # xs \<longrightarrow>
        (\<exists>z1 n z2. zmq_msg_recv q r z = (Some p, z1) \<and> zmq_rcvmore q r z1 = (0, n, z2) \<and> (n \<noteq> 0 \<longleftrightarrow> more) \<and>
           Q z2 = (Q z)(r := xs))))"

lemma int_to_str_c_str [simp]: "c_str (int_to_str i) = int_to_str i"
proof -
  have "CHR 0x00 \<notin> set (nat_to_dec n)" for n
    using nat_to_dec_digits [of "CHR 0x00" n] by (auto simp: isdigit_def)
  then show ?thesis by (auto simp: int_to_str_def intro!: c_str_id)
qed

lemma receive_nothing:
  assumes "pong_net q ans Q" "r \<noteq> NULL" "Q z r = []"
  shows "\<exists>z'. mqn_receive q r a z = Some (0, a, z') \<and> Q z' = Q z"
proof -
  obtain z' where "zmq_msg_recv q r z = (None, z')" "Q z' = Q z"
    using assms unfolding pong_net_def by blast
  then show ?thesis by (simp add: mqn_receive_def receive_loop.simps)
qed

lemma receive_part:
  assumes "pong_net q ans Q" "r \<noteq> NULL" "Q z r = (p, fl) # xs"
  obtains z1 n z2 where "zmq_msg_recv q r z = (Some p, z1)" "zmq_rcvmore q r z1 = (0, n, z2)" "n \<noteq> 0 \<longleftrightarrow> fl"
    "Q z2 = (Q z)(r := xs)"
  using assms unfolding pong_net_def by blast

lemma receive_one_pong:
  assumes "pong_net q ans Q" "r \<noteq> NULL" "Q z r = pong_parts (i # ids)" "length a = 2"
  shows "\<exists>z'. mqn_receive q r a z = Some (2, [Some ''pong'', Some (int_to_str i)], z') \<and> Q z' = (Q z)(r := pong_parts ids)"
proof -
  have parts: "Q z r = (''pong'', True) # (int_to_str i, False) # pong_parts ids"
    using assms(3) by (simp add: pong_parts_def)
  obtain z1 n z2 where 1: "zmq_msg_recv q r z = (Some ''pong'', z1)" "zmq_rcvmore q r z1 = (0, n, z2)" "n \<noteq> 0"
      "Q z2 = (Q z)(r := (int_to_str i, False) # pong_parts ids)"
    using receive_part [where z = z, OF assms(1,2) parts] by auto
  then have rest: "Q z2 r = (int_to_str i, False) # pong_parts ids" by simp
  obtain z3 n' z4 where 2: "zmq_msg_recv q r z2 = (Some (int_to_str i), z3)" "zmq_rcvmore q r z3 = (0, n', z4)"
      "n' \<noteq> 0 \<longleftrightarrow> False" "Q z4 = (Q z2)(r := pong_parts ids)"
    by (rule receive_part [where z = z2, OF assms(1,2) rest])
  obtain x y where "a = [x, y]" using assms(4) by (auto simp: length_Suc_conv numeral_2_eq_2)
  moreover have "c_str ''pong'' = ''pong''" by (simp add: c_str_def)
  ultimately have "receive_loop q r 0 a z = receive_loop q r 1 [Some ''pong'', y] z2"
      "receive_loop q r 1 [Some ''pong'', y] z2 = Some (2, [Some ''pong'', Some (int_to_str i)], z4)"
    using 1(1-3) 2(1-3) by (subst receive_loop.simps; simp)+
  then show ?thesis using 1(4) 2(4) by (simp add: mqn_receive_def)
qed

section \<open>Counters\<close>

text \<open>The counters of the nodes are cells of their own.\<close>

definition ping_inv :: "('z, 'h) env \<Rightarrow> ('z, 'h) control \<Rightarrow> bool" where
  "ping_inv E st \<longleftrightarrow> hashmap_laws (the_map E) \<and>
     (\<forall>key p. hashmap_get (the_map E) (nodes_ping_map st) key = Some p \<longrightarrow> p < length (cells st)) \<and>
     inj_on (hashmap_get (the_map E) (nodes_ping_map st)) (dom (hashmap_get (the_map E) (nodes_ping_map st)))"

text \<open>\<open>counter E st key\<close>: the rounds that the node \<open>key\<close> has missed.\<close>

definition counter :: "('z, 'h) env \<Rightarrow> ('z, 'h) control \<Rightarrow> string \<Rightarrow> int option" where
  "counter E st key = map_option (\<lambda>p. cells st ! p) (hashmap_get (the_map E) (nodes_ping_map st) key)"

text \<open>Only cells and the state of the sockets change.\<close>

definition same_frame :: "('z, 'h) control \<Rightarrow> ('z, 'h) control \<Rightarrow> bool" where
  "same_frame st st' \<longleftrightarrow> st' = st\<lparr>cells := cells st', zmq_st := zmq_st st'\<rparr> \<and> length (cells st') = length (cells st)"

lemma same_frame_refl [simp]: "same_frame st st"
  by (simp add: same_frame_def)

lemma same_frame_trans: "same_frame a b \<Longrightarrow> same_frame b c \<Longrightarrow> same_frame a c"
  by (cases a; cases b; cases c) (simp add: same_frame_def)

lemma same_frame_update [simp]:
  "same_frame st (st\<lparr>zmq_st := z\<rparr>)" "same_frame st (st\<lparr>cells := (cells st)[p := v]\<rparr>)"
  by (simp_all add: same_frame_def)

lemma same_frame_simps:
  assumes "same_frame st st'"
  shows "CONTROL_NODE st' = CONTROL_NODE st" "nodes_ping_map st' = nodes_ping_map st" "trace st' = trace st"
    "heartbeat_time st' = heartbeat_time st" "length (cells st') = length (cells st)"
  using assms by (cases st; cases st'; simp add: same_frame_def)+

lemma same_frame_inv: "same_frame st st' \<Longrightarrow> ping_inv E st \<Longrightarrow> ping_inv E st'"
  using same_frame_simps [of st st'] by (simp add: ping_inv_def)

lemma counter_update:
  assumes "ping_inv E st" "hashmap_get (the_map E) (nodes_ping_map st) key = Some p"
  shows "counter E (st\<lparr>cells := (cells st)[p := v]\<rparr>) = (counter E st)(key := Some v)"
proof
  fix k
  show "counter E (st\<lparr>cells := (cells st)[p := v]\<rparr>) k = ((counter E st)(key := Some v)) k"
  proof (cases "hashmap_get (the_map E) (nodes_ping_map st) k")
    case (Some p')
    have "k = key" if "p' = p" using assms Some that by (auto simp: ping_inv_def inj_on_def dom_def)
    then show ?thesis using assms Some by (auto simp: counter_def ping_inv_def nth_list_update)
  next
    case None
    with assms(2) show ?thesis by (auto simp: counter_def)
  qed
qed

lemma receive_pong_counter:
  assumes "ping_inv E st"
  shows "\<exists>st'. receive_pong E [Some ''pong'', Some key] st = Some st' \<and> same_frame st st' \<and> zmq_st st' = zmq_st st \<and>
    counter E st' = (\<lambda>k. if k = key then map_option (\<lambda>_. 0) (counter E st k) else counter E st k)"
proof (cases "hashmap_get (the_map E) (nodes_ping_map st) key")
  case None
  then have "counter E st key = None" by (simp add: counter_def)
  then have "counter E st = (\<lambda>k. if k = key then map_option (\<lambda>_. 0) (counter E st k) else counter E st k)" by auto
  then show ?thesis using None by (simp add: receive_pong_def slot_def)
next
  case (Some p)
  then have p: "p < length (cells st)" using assms by (auto simp: ping_inv_def)
  let ?st = "st\<lparr>cells := (cells st)[p := 0]\<rparr>"
  have "counter E ?st = (\<lambda>k. if k = key then map_option (\<lambda>_. 0) (counter E st k) else counter E st k)"
    using counter_update [OF assms Some, of 0] Some by (auto simp: fun_eq_iff counter_def)
  then show ?thesis using Some p by (intro exI [of _ ?st]) (simp add: receive_pong_def slot_def)
qed

text \<open>A created node gets a new counter, whose cell no other node has.\<close>

lemma ping_inv_start: "hashmap_laws (the_map E) \<Longrightarrow> nodes_ping_map st = hashmap_init (the_map E) \<Longrightarrow> ping_inv E st"
  using hashmap_get_init [of "the_map E"] by (simp add: ping_inv_def inj_on_def dom_def)

lemma ping_inv_put:
  assumes "ping_inv E st" "p = length (cells st)"
  shows "ping_inv E (st\<lparr>cells := cells st @ [0], nodes_ping_map := snd (hashmap_put (the_map E) (nodes_ping_map st) key p)\<rparr>)"
proof (cases "hashmap_get (the_map E) (nodes_ping_map st) key")
  case None
  obtain h where h: "hashmap_put (the_map E) (nodes_ping_map st) key p = (0, h)"
      "hashmap_get (the_map E) h = (hashmap_get (the_map E) (nodes_ping_map st))(key \<mapsto> p)"
    using hashmap_put_new [OF _ None] assms(1) unfolding ping_inv_def by blast
  have "hashmap_get (the_map E) (nodes_ping_map st) k \<noteq> Some p" for k
    using assms unfolding ping_inv_def by (metis less_irrefl)
  then show ?thesis
    using assms h by (auto simp: ping_inv_def less_Suc_eq inj_on_def dom_def split: if_splits)
next
  case (Some q)
  have "hashmap_put (the_map E) (nodes_ping_map st) key p = (- EEXIST, nodes_ping_map st)"
    using hashmap_put_present [of "the_map E" "nodes_ping_map st" key] assms(1) Some by (simp add: ping_inv_def)
  then show ?thesis using assms by (auto simp: ping_inv_def less_Suc_eq)
qed

lemma ping_inv_rec_create:
  assumes "ping_inv E st" "rec_create E i code answer c st = Some st'"
  shows "ping_inv E st'"
proof (cases "code = CODE_OK")
  case True
  obtain n where "btree_find (TREE st) i = Some n" using assms(2) True by (auto simp: rec_create_def)
  then have "st' = print_line (''Ok: '' @ int_to_str (pid n)) (st\<lparr>cells := cells st @ [0],
      nodes_ping_map := snd (hashmap_put (the_map E) (nodes_ping_map st) (int_to_str i) (length (cells st)))\<rparr>)"
    using assms(2) True by (simp add: rec_create_def new_cell_def Let_def)
  then show ?thesis using ping_inv_put [OF assms(1) refl] by (simp add: ping_inv_def emit_event_def)
next
  case False
  then have "nodes_ping_map st' = nodes_ping_map st \<and> cells st' = cells st"
    using assms(2) by (auto simp: rec_create_def Let_def print_error_def emit_event_def split: if_splits)
  then show ?thesis using assms(1) by (simp add: ping_inv_def)
qed

text \<open>A poll of one socket sets the counters of all nodes whose answers wait there.\<close>

definition reset :: "string set \<Rightarrow> (string \<Rightarrow> int option) \<Rightarrow> string \<Rightarrow> int option" where
  "reset ks f = (\<lambda>k. if k \<in> ks then map_option (\<lambda>_. 0) (f k) else f k)"

lemma reset_reset [simp]: "reset a (reset b f) = reset (b \<union> a) f"
  by (auto simp: reset_def fun_eq_iff option.map_comp comp_def)

lemma reset_empty [simp]: "reset {} f = f"
  by (simp add: reset_def)

lemma receive_pongs_counter:
  assumes "pong_net (the_zmq E) ans Q" "r \<noteq> NULL"
  shows "ping_inv E st \<Longrightarrow> Q (zmq_st st) r = pong_parts ids \<Longrightarrow> length a = 2 \<Longrightarrow>
    \<exists>st'. receive_pongs E r a st = Some st' \<and> same_frame st st' \<and> Q (zmq_st st') = (Q (zmq_st st))(r := []) \<and>
      counter E st' = reset (int_to_str ` set ids) (counter E st)"
proof (induction ids arbitrary: st a)
  case Nil
  then have "Q (zmq_st st) r = []" by (simp add: pong_parts_def)
  then obtain z' where z': "mqn_receive (the_zmq E) r a (zmq_st st) = Some (0, a, z')" "Q z' = Q (zmq_st st)"
    using receive_nothing [OF assms] by blast
  have "counter E (st\<lparr>zmq_st := z'\<rparr>) = counter E st" by (simp add: counter_def fun_eq_iff)
  with z' Nil(2) assms(2) \<open>Q (zmq_st st) r = []\<close> show ?case by (subst receive_pongs.simps) (auto simp: fun_eq_iff)
next
  case (Cons i ids)
  obtain z' where z': "mqn_receive (the_zmq E) r a (zmq_st st) = Some (2, [Some ''pong'', Some (int_to_str i)], z')"
      "Q z' = (Q (zmq_st st))(r := pong_parts ids)"
    using receive_one_pong [OF assms Cons.prems(2,3)] by blast
  let ?st1 = "st\<lparr>zmq_st := z'\<rparr>"
  have inv1: "ping_inv E ?st1" using Cons.prems(1) by (simp add: ping_inv_def)
  have c1: "counter E ?st1 = counter E st" by (simp add: counter_def fun_eq_iff)
  obtain st2 where st2: "receive_pong E [Some ''pong'', Some (int_to_str i)] ?st1 = Some st2" "same_frame ?st1 st2"
      "zmq_st st2 = z'" "counter E st2 = reset {int_to_str i} (counter E st)"
    using receive_pong_counter [OF inv1, of "int_to_str i"] unfolding c1 by (auto simp: reset_def)
  have inv2: "ping_inv E st2" by (rule same_frame_inv [OF st2(2) inv1])
  have "Q (zmq_st st2) r = pong_parts ids" using st2(3) z'(2) by simp
  moreover have "length [Some ''pong'', Some (int_to_str i)] = 2" by simp
  ultimately obtain st3 where st3: "receive_pongs E r [Some ''pong'', Some (int_to_str i)] st2 = Some st3" "same_frame st2 st3"
      "Q (zmq_st st3) = (Q (zmq_st st2))(r := [])" "counter E st3 = reset (int_to_str ` set ids) (counter E st2)"
    using Cons.IH [OF inv2] by blast
  have "receive_pongs E r a st = Some st3"
    using z'(1) st2(1) st3(1) assms(2) by (subst receive_pongs.simps) (simp add: slot_def)
  moreover have "same_frame st st3" using same_frame_trans [OF same_frame_trans [OF same_frame_update(1) st2(2)] st3(2)] .
  ultimately show ?case using st3(3,4) st2(3,4) z'(2) by (auto simp: insert_commute)
qed

text \<open>One side of a node: no child, or a socket on which answers of \<open>ids\<close> wait.\<close>

definition waits :: "('z \<Rightarrow> addr \<Rightarrow> (string \<times> bool) list) \<Rightarrow> 'z \<Rightarrow> addr \<Rightarrow> int list \<Rightarrow> bool" where
  "waits Q z r ids \<longleftrightarrow> (if r = NULL then ids = [] else Q z r = pong_parts ids)"

lemma poll_socket:
  assumes "pong_net (the_zmq E) ans Q" "ping_inv E st" "waits Q (zmq_st st) r ids"
  shows "\<exists>st'. receive_pong_from_socket E r st = Some st' \<and> same_frame st st' \<and> waits Q (zmq_st st') r [] \<and>
      (\<forall>r' ids'. r' \<noteq> r \<and> waits Q (zmq_st st) r' ids' \<longrightarrow> waits Q (zmq_st st') r' ids') \<and>
      counter E st' = reset (int_to_str ` set ids) (counter E st)"
proof (cases "r = NULL")
  case True
  then show ?thesis using assms(3)
    by (simp add: receive_pong_from_socket_def receive_pongs.simps [of E NULL] waits_def)
next
  case False
  then have "Q (zmq_st st) r = pong_parts ids" using assms(3) by (simp add: waits_def)
  from receive_pongs_counter [OF assms(1) False assms(2) this, of "[None, None]"] obtain st' where
    "receive_pongs E r [None, None] st = Some st'" "same_frame st st'" "Q (zmq_st st') = (Q (zmq_st st))(r := [])"
    "counter E st' = reset (int_to_str ` set ids) (counter E st)" by auto
  with False show ?thesis by (simp add: receive_pong_from_socket_def waits_def pong_parts_def)
qed

lemma polls_counter:
  assumes "pong_net (the_zmq E) ans Q" "l \<noteq> r \<or> l = NULL"
  shows "ping_inv E st \<Longrightarrow> left_child_ping_socket (CONTROL_NODE st) = l \<Longrightarrow> right_child_ping_socket (CONTROL_NODE st) = r \<Longrightarrow>
    waits Q (zmq_st st) l ls \<Longrightarrow> waits Q (zmq_st st) r rs \<Longrightarrow> 0 < k \<Longrightarrow>
    \<exists>st'. pong_polls E k st = Some st' \<and> same_frame st st' \<and> waits Q (zmq_st st') l [] \<and> waits Q (zmq_st st') r [] \<and>
      counter E st' = reset (int_to_str ` (set ls \<union> set rs)) (counter E st)"
proof (induction k arbitrary: st ls rs)
  case (Suc k)
  obtain st1 where st1: "receive_pong_from_socket E l st = Some st1" "same_frame st st1" "waits Q (zmq_st st1) l []"
      "\<forall>r' ids'. r' \<noteq> l \<and> waits Q (zmq_st st) r' ids' \<longrightarrow> waits Q (zmq_st st1) r' ids'"
      "counter E st1 = reset (int_to_str ` set ls) (counter E st)"
    using poll_socket [OF assms(1) Suc.prems(1,4)] by blast
  have "waits Q (zmq_st st1) r rs"
    using st1(3,4) Suc.prems(5) assms(2) by (cases "r = l") (auto simp: waits_def)
  then obtain st2 where st2: "receive_pong_from_socket E r st1 = Some st2" "same_frame st1 st2" "waits Q (zmq_st st2) r []"
      "\<forall>r' ids'. r' \<noteq> r \<and> waits Q (zmq_st st1) r' ids' \<longrightarrow> waits Q (zmq_st st2) r' ids'"
      "counter E st2 = reset (int_to_str ` set rs) (counter E st1)"
    using poll_socket [OF assms(1) same_frame_inv [OF st1(2) Suc.prems(1)]] by blast
  have l2: "waits Q (zmq_st st2) l []"
    using st2(3,4) st1(3) by (cases "l = r") auto
  have frame: "same_frame st st2" using same_frame_trans [OF st1(2) st2(2)] .
  have c2: "counter E st2 = reset (int_to_str ` (set ls \<union> set rs)) (counter E st)"
    using st1(5) st2(5) by (simp add: image_Un)
  have polls: "pong_polls E (Suc k) st = pong_polls E k st2"
    using st1(1,2) st2(1) Suc.prems(2,3) by (simp add: same_frame_simps)
  show ?case
  proof (cases k)
    case 0
    then have "pong_polls E (Suc k) st = Some st2" using polls by (simp only: pong_polls.simps)
    then show ?thesis using frame l2 st2(3) c2 by blast
  next
    case (Suc k')
    obtain st3 where "pong_polls E k st2 = Some st3" "same_frame st2 st3" "waits Q (zmq_st st3) l []" "waits Q (zmq_st st3) r []"
        "counter E st3 = reset (int_to_str ` (set [] \<union> set [])) (counter E st2)"
      using Suc.IH [OF same_frame_inv [OF frame Suc.prems(1)] _ _ l2 st2(3)] Suc.prems(2,3) Suc same_frame_simps(1) [OF frame]
      by auto
    then show ?thesis using polls c2 same_frame_trans [OF frame] by auto
  qed
qed simp

section \<open>A round\<close>

lemma bump_all_cells:
  "distinct ps \<Longrightarrow> \<forall>p \<in> set ps. p < length (cells st) \<and> cells st ! p < INT_MAX \<Longrightarrow>
   \<exists>st'. bump_all ps st = Some st' \<and> same_frame st st' \<and> zmq_st st' = zmq_st st \<and>
     (\<forall>p < length (cells st). cells st' ! p = (if p \<in> set ps then cells st ! p + 1 else cells st ! p))"
proof (induction ps arbitrary: st)
  case (Cons p ps)
  let ?st = "st\<lparr>cells := (cells st)[p := cells st ! p + 1]\<rparr>"
  have bump: "bump_cell p st = Some ?st" using Cons.prems(2) by (simp add: bump_cell_def int_inc_Some)
  have "distinct ps" "\<forall>p' \<in> set ps. p' < length (cells ?st) \<and> cells ?st ! p' < INT_MAX"
    using Cons.prems by (auto simp: nth_list_update)
  then obtain st' where st': "bump_all ps ?st = Some st'" "same_frame ?st st'" "zmq_st st' = zmq_st ?st"
     "\<forall>p < length (cells ?st). cells st' ! p = (if p \<in> set ps then cells ?st ! p + 1 else cells ?st ! p)"
    using Cons.IH [of ?st] by blast
  have "same_frame st st'" using same_frame_trans [OF same_frame_update(2) st'(2)] .
  with st' bump Cons.prems show ?case by (auto simp: nth_list_update)
qed simp

text \<open>The entries of the map, as the loops of the worker see them.\<close>

abbreviation ping_entries :: "('z, 'h) env \<Rightarrow> ('z, 'h) control \<Rightarrow> (string \<times> nat) list" where
  "ping_entries E st \<equiv> hashmap_entries (the_map E) (nodes_ping_map st)"

lemma ping_entries_facts:
  assumes "ping_inv E st"
  shows "distinct (map snd (ping_entries E st))"
    "e \<in> set (ping_entries E st) \<Longrightarrow> hashmap_get (the_map E) (nodes_ping_map st) (fst e) = Some (snd e)"
    "hashmap_get (the_map E) (nodes_ping_map st) key = Some p \<Longrightarrow> (key, p) \<in> set (ping_entries E st)"
    "distinct (map fst (ping_entries E st))"
proof -
  let ?get = "hashmap_get (the_map E) (nodes_ping_map st)"
  have laws: "map_of (ping_entries E st) = ?get" "distinct (map fst (ping_entries E st))"
    using assms hashmap_entries_get [of "the_map E" "nodes_ping_map st"] by (simp_all add: ping_inv_def)
  show get: "e \<in> set (ping_entries E st) \<Longrightarrow> ?get (fst e) = Some (snd e)" for e
    unfolding laws(1) [symmetric] using laws(2) by simp
  show "?get key = Some p \<Longrightarrow> (key, p) \<in> set (ping_entries E st)"
    unfolding laws(1) [symmetric] by (rule map_of_SomeD)
  have "inj_on snd (set (ping_entries E st))"
  proof (rule inj_onI)
    fix a b
    assume ab: "a \<in> set (ping_entries E st)" "b \<in> set (ping_entries E st)" "snd a = snd b"
    then have "?get (fst a) = ?get (fst b)" "fst a \<in> dom ?get" "fst b \<in> dom ?get" using get [OF ab(1)] get [OF ab(2)] by auto
    then have "fst a = fst b" using assms unfolding ping_inv_def by (meson inj_onD)
    with ab(3) show "a = b" by (simp add: prod_eq_iff)
  qed
  then show "distinct (map snd (ping_entries E st))" using laws(2) by (simp add: distinct_map)
  show "distinct (map fst (ping_entries E st))" by (rule laws(2))
qed

lemma bump_all_counter:
  assumes "ping_inv E st" "\<forall>key c. counter E st key = Some c \<longrightarrow> c < INT_MAX"
  shows "\<exists>st'. bump_all (map snd (ping_entries E st)) st = Some st' \<and> same_frame st st' \<and> zmq_st st' = zmq_st st \<and>
    counter E st' = map_option (\<lambda>c. c + 1) \<circ> counter E st"
proof -
  note facts = ping_entries_facts [OF assms(1)]
  have "\<forall>p \<in> set (map snd (ping_entries E st)). p < length (cells st) \<and> cells st ! p < INT_MAX"
    using facts(2) assms unfolding ping_inv_def counter_def by fastforce
  then obtain st' where st': "bump_all (map snd (ping_entries E st)) st = Some st'" "same_frame st st'" "zmq_st st' = zmq_st st"
     "\<forall>p < length (cells st). cells st' ! p = (if p \<in> set (map snd (ping_entries E st)) then cells st ! p + 1 else cells st ! p)"
    using bump_all_cells [OF facts(1)] by blast
  have "counter E st' key = (map_option (\<lambda>c. c + 1) \<circ> counter E st) key" for key
  proof (cases "hashmap_get (the_map E) (nodes_ping_map st) key")
    case (Some p)
    have "p \<in> snd ` set (ping_entries E st)" using facts(3) [OF Some] by force
    moreover have "p < length (cells st)" using Some assms(1) by (auto simp: ping_inv_def)
    ultimately show ?thesis using Some st'(4) same_frame_simps(2) [OF st'(2)] by (simp add: counter_def)
  qed (use same_frame_simps(2) [OF st'(2)] in \<open>simp add: counter_def\<close>)
  then have "counter E st' = map_option (\<lambda>c. c + 1) \<circ> counter E st" by blast
  with st' show ?thesis by blast
qed

definition missing_line :: "string \<Rightarrow> event" where
  "missing_line key = Printed (''Heartbeat: node '' @ key @ '' is unavailable now'')"

lemma missing_line_inject [simp]: "missing_line a = missing_line b \<longleftrightarrow> a = b"
  by (simp add: missing_line_def)

lemma report_missing_trace:
  "report_missing es st = st\<lparr>trace := trace st @ map (\<lambda>e. missing_line (fst e)) (filter (\<lambda>e. cells st ! snd e = 4) es)\<rparr>"
  by (induction es arbitrary: st) (auto simp: emit_event_def missing_line_def)

lemma push_ping_waits:
  assumes "pong_net (the_zmq E) ans Q" "waits Q (zmq_st st) r ids"
  shows "\<exists>st'. push_ping E r st = Some st' \<and> same_frame st st' \<and> cells st' = cells st \<and>
    waits Q (zmq_st st') r (if r = NULL then [] else ids @ ans r) \<and>
    (\<forall>r' ids'. r' \<noteq> r \<and> waits Q (zmq_st st) r' ids' \<longrightarrow> waits Q (zmq_st st') r' ids')"
proof (cases "r = NULL")
  case True
  then show ?thesis by (simp add: push_ping_def push_if_def waits_def)
next
  case False
  then obtain z' where "assert_sent (zmq_msg_send (the_zmq E) r ''ping'' False (zmq_st st)) = Some z'"
     "Q z' = (Q (zmq_st st))(r := Q (zmq_st st) r @ pong_parts (ans r))"
    using assms(1) unfolding pong_net_def by blast
  with False assms(2) show ?thesis by (simp add: push_ping_def push_if_def waits_def pong_parts_def)
qed

text \<open>The nodes that answer in a round: whose answers waited already, or come back now.\<close>

definition answering :: "(addr \<Rightarrow> int list) \<Rightarrow> addr \<Rightarrow> int list \<Rightarrow> string set" where
  "answering ans r ids = (if r = NULL then {} else int_to_str ` (set ids \<union> set (ans r)))"

lemma heartbeat_round_spec:
  assumes "ping_inv E st" "pong_net (the_zmq E) ans Q" "0 < k" "\<forall>key c. counter E st key = Some c \<longrightarrow> c < INT_MAX"
    and "l = left_child_ping_socket (CONTROL_NODE st)" "r = right_child_ping_socket (CONTROL_NODE st)" "l \<noteq> r \<or> l = NULL"
    and "waits Q (zmq_st st) l ls" "waits Q (zmq_st st) r rs"
  shows "\<exists>st'. heartbeat_round E k st = Some st' \<and> ping_inv E st' \<and> waits Q (zmq_st st') l [] \<and> waits Q (zmq_st st') r [] \<and>
    counter E st' = reset (answering ans l ls \<union> answering ans r rs) (map_option (\<lambda>c. c + 1) \<circ> counter E st) \<and>
    trace st' = trace st @ map (\<lambda>e. missing_line (fst e)) (filter (\<lambda>e. counter E st' (fst e) = Some 4) (ping_entries E st)) \<and>
    CONTROL_NODE st' = CONTROL_NODE st \<and> nodes_ping_map st' = nodes_ping_map st"
proof -
  obtain st1 where st1: "bump_all (map snd (ping_entries E st)) st = Some st1" "same_frame st st1" "zmq_st st1 = zmq_st st"
      "counter E st1 = map_option (\<lambda>c. c + 1) \<circ> counter E st"
    using bump_all_counter [OF assms(1,4)] by blast
  have "waits Q (zmq_st st1) l ls" using st1(3) assms(8) by simp
  then obtain st2 where st2: "push_ping E l st1 = Some st2" "same_frame st1 st2" "cells st2 = cells st1"
      "waits Q (zmq_st st2) l (if l = NULL then [] else ls @ ans l)"
      "\<forall>r' ids'. r' \<noteq> l \<and> waits Q (zmq_st st1) r' ids' \<longrightarrow> waits Q (zmq_st st2) r' ids'"
    using push_ping_waits [OF assms(2)] by blast
  have "waits Q (zmq_st st2) r rs"
  proof (cases "r = l")
    case True
    then show ?thesis using assms(7,9) by (auto simp: waits_def)
  qed (use st2(5) st1(3) assms(9) in simp)
  then obtain st3 where st3: "push_ping E r st2 = Some st3" "same_frame st2 st3" "cells st3 = cells st2"
      "waits Q (zmq_st st3) r (if r = NULL then [] else rs @ ans r)"
      "\<forall>r' ids'. r' \<noteq> r \<and> waits Q (zmq_st st2) r' ids' \<longrightarrow> waits Q (zmq_st st3) r' ids'"
    using push_ping_waits [OF assms(2)] by blast
  have l3: "waits Q (zmq_st st3) l (if l = NULL then [] else ls @ ans l)"
  proof (cases "l = r")
    case True
    then show ?thesis using assms(7) by (auto simp: waits_def)
  qed (use st3(5) st2(4) in blast)
  have frame: "same_frame st st3" using same_frame_trans [OF same_frame_trans [OF st1(2) st2(2)] st3(2)] .
  have inv3: "ping_inv E st3" by (rule same_frame_inv [OF frame assms(1)])
  have c3: "counter E st3 = map_option (\<lambda>c. c + 1) \<circ> counter E st"
    unfolding st1(4) [symmetric] counter_def using st2(3) st3(3) same_frame_simps(2) [OF st1(2)] same_frame_simps(2) [OF frame] by simp
  obtain st4 where st4: "pong_polls E k st3 = Some st4" "same_frame st3 st4" "waits Q (zmq_st st4) l []" "waits Q (zmq_st st4) r []"
      "counter E st4 = reset (int_to_str ` (set (if l = NULL then [] else ls @ ans l) \<union> set (if r = NULL then [] else rs @ ans r))) (counter E st3)"
    using polls_counter [OF assms(2,7) inv3 _ _ l3 st3(4) assms(3)] assms(5,6) same_frame_simps(1) [OF frame] by auto
  have frame4: "same_frame st st4" using same_frame_trans [OF frame st4(2)] .
  have inv4: "ping_inv E st4" by (rule same_frame_inv [OF frame4 assms(1)])
  define st5 where "st5 = report_missing (ping_entries E st4) st4"
  have st5: "counter E st5 = counter E st4" "ping_inv E st5" "zmq_st st5 = zmq_st st4"
    "CONTROL_NODE st5 = CONTROL_NODE st" "nodes_ping_map st5 = nodes_ping_map st"
    using inv4 same_frame_simps [OF frame4] by (simp_all add: st5_def report_missing_trace counter_def ping_inv_def fun_eq_iff)
  have "filter (\<lambda>e. cells st4 ! snd e = 4) (ping_entries E st4) = filter (\<lambda>e. counter E st4 (fst e) = Some 4) (ping_entries E st4)"
    using ping_entries_facts(2) [OF inv4] by (intro filter_cong) (auto simp: counter_def)
  then have trace: "trace st5 = trace st @ map (\<lambda>e. missing_line (fst e)) (filter (\<lambda>e. counter E st5 (fst e) = Some 4) (ping_entries E st))"
    using same_frame_simps(2,3) [OF frame4] st5(1) by (simp add: st5_def report_missing_trace)
  have "answering ans l ls \<union> answering ans r rs =
      int_to_str ` (set (if l = NULL then [] else ls @ ans l) \<union> set (if r = NULL then [] else rs @ ans r))"
    by (auto simp: answering_def)
  then have c5: "counter E st5 = reset (answering ans l ls \<union> answering ans r rs) (map_option (\<lambda>c. c + 1) \<circ> counter E st)"
    using st4(5) c3 st5(1) by simp
  have "heartbeat_round E k st = Some st5"
    using st1(1,2) st2(1,2) st3(1) st4(1) assms(5,6) same_frame_simps(1) [OF same_frame_trans [OF st1(2) st2(2)]]
    by (simp add: heartbeat_round_def st5_def same_frame_simps)
  then show ?thesis using st5 st4(3,4) c5 trace by auto
qed

section \<open>Several rounds\<close>

text \<open>Rounds of a worker whose sockets and nodes stay the same, with the numbers of polls \<open>ks\<close>.\<close>

fun beats :: "('z, 'h) env \<Rightarrow> nat list \<Rightarrow> ('z, 'h) control \<Rightarrow> ('z, 'h) control option" where
  "beats E [] st = Some st"
| "beats E (k # ks) st = do { st1 \<leftarrow> heartbeat_round E k st; beats E ks st1 }"

lemma count_reports:
  "distinct (map fst es) \<Longrightarrow>
   count_list (map (\<lambda>e. missing_line (fst e)) (filter (\<lambda>e. R (fst e)) es)) (missing_line key) = (if key \<in> fst ` set es \<and> R key then 1 else 0)"
  by (induction es) auto

lemma counter_entry: "ping_inv E st \<Longrightarrow> counter E st key = Some c \<Longrightarrow> key \<in> fst ` set (ping_entries E st)"
  using ping_entries_facts(3) by (force simp: counter_def)

lemma round_reports:
  assumes "ping_inv E st" "counter E st key = Some c"
    and "trace st' = trace st @ map (\<lambda>e. missing_line (fst e)) (filter (\<lambda>e. counter E st' (fst e) = Some 4) (ping_entries E st))"
  shows "count_list (drop (length (trace st)) (trace st')) (missing_line key) = (if counter E st' key = Some 4 then 1 else 0)"
  using count_reports [OF ping_entries_facts(4) [OF assms(1)], of "\<lambda>k. counter E st' k = Some 4" key] counter_entry [OF assms(1,2)]
  by (simp add: assms(3))

lemma beats_spec:
  assumes "pong_net (the_zmq E) ans Q" "l \<noteq> r \<or> l = NULL" "A = answering ans l [] \<union> answering ans r []"
  shows "ping_inv E st \<Longrightarrow> \<forall>k \<in> set ks. 0 < k \<Longrightarrow> \<forall>key c. counter E st key = Some c \<longrightarrow> c + int (length ks) \<le> INT_MAX \<and> 0 \<le> c \<Longrightarrow>
    l = left_child_ping_socket (CONTROL_NODE st) \<Longrightarrow> r = right_child_ping_socket (CONTROL_NODE st) \<Longrightarrow>
    waits Q (zmq_st st) l [] \<Longrightarrow> waits Q (zmq_st st) r [] \<Longrightarrow>
    \<exists>st' new. beats E ks st = Some st' \<and> trace st' = trace st @ new \<and>
      (\<forall>key c. counter E st key = Some c \<longrightarrow>
         (key \<in> A \<longrightarrow> count_list new (missing_line key) = 0) \<and>
         (key \<notin> A \<longrightarrow> counter E st' key = Some (c + int (length ks)) \<and>
            count_list new (missing_line key) = (if c < 4 \<and> 4 \<le> c + int (length ks) then 1 else 0)))"
proof (induction ks arbitrary: st)
  case (Cons k ks)
  have bound: "\<forall>key c. counter E st key = Some c \<longrightarrow> c < INT_MAX" using Cons.prems(3) by fastforce
  have k: "0 < k" using Cons.prems(2) by simp
  obtain st1 where st1: "heartbeat_round E k st = Some st1" "ping_inv E st1" "waits Q (zmq_st st1) l []" "waits Q (zmq_st st1) r []"
    "counter E st1 = reset A (map_option (\<lambda>c. c + 1) \<circ> counter E st)"
    "trace st1 = trace st @ map (\<lambda>e. missing_line (fst e)) (filter (\<lambda>e. counter E st1 (fst e) = Some 4) (ping_entries E st))"
    "CONTROL_NODE st1 = CONTROL_NODE st" "nodes_ping_map st1 = nodes_ping_map st"
    using heartbeat_round_spec [OF Cons.prems(1) assms(1) k bound Cons.prems(4,5) assms(2) Cons.prems(6,7)]
    unfolding assms(3) [symmetric] by blast
  have "\<forall>key c. counter E st1 key = Some c \<longrightarrow> c + int (length ks) \<le> INT_MAX \<and> 0 \<le> c"
    using Cons.prems(3) unfolding st1(5) reset_def by (fastforce split: if_splits)
  then obtain st' new where st': "beats E ks st1 = Some st'" "trace st' = trace st1 @ new"
      "\<forall>key c. counter E st1 key = Some c \<longrightarrow>
         (key \<in> A \<longrightarrow> count_list new (missing_line key) = 0) \<and>
         (key \<notin> A \<longrightarrow> counter E st' key = Some (c + int (length ks)) \<and>
            count_list new (missing_line key) = (if c < 4 \<and> 4 \<le> c + int (length ks) then 1 else 0))"
    using Cons.IH [OF st1(2) _ _ _ _ st1(3,4)] Cons.prems(2,4,5) st1(7) by auto
  define first_lines where "first_lines = drop (length (trace st)) (trace st1)"
  have trace: "trace st1 = trace st @ first_lines" using st1(6) by (simp add: first_lines_def)
  have "(key \<in> A \<longrightarrow> count_list (first_lines @ new) (missing_line key) = 0) \<and>
      (key \<notin> A \<longrightarrow> counter E st' key = Some (c + int (length (k # ks))) \<and>
         count_list (first_lines @ new) (missing_line key) = (if c < 4 \<and> 4 \<le> c + int (length (k # ks)) then 1 else 0))"
    if key: "counter E st key = Some c" for key c
  proof -
    have now: "counter E st1 key = Some (if key \<in> A then 0 else c + 1)" using key by (simp add: st1(5) reset_def)
    have "count_list first_lines (missing_line key) = (if counter E st1 key = Some 4 then 1 else 0)"
      unfolding first_lines_def by (rule round_reports [OF Cons.prems(1) key st1(6)])
    then show ?thesis using st'(3) now by (auto simp: count_list_append)
  qed
  then show ?case using st1(1) st'(1,2) trace by (intro exI [of _ st'] exI [of _ "first_lines @ new"]) simp
qed auto

section \<open>Properties\<close>

text \<open>
  One heartbeat round. All counters grow by one; those of the nodes whose answers wait already or
  come back to the ping are then 0; and exactly the nodes with the counter 4 are reported. No
  answer stays behind, and nothing else changes. The round has at least one poll, the counters are below
  \<open>INT_MAX\<close>.
\<close>

theorem heartbeat_round_correct:
  assumes "ping_inv E st" "pong_net (the_zmq E) ans Q" "0 < k" "\<forall>key c. counter E st key = Some c \<longrightarrow> c < INT_MAX"
    and "l = left_child_ping_socket (CONTROL_NODE st)" "r = right_child_ping_socket (CONTROL_NODE st)" "l \<noteq> r \<or> l = NULL"
    and "waits Q (zmq_st st) l ls" "waits Q (zmq_st st) r rs" "A = answering ans l ls \<union> answering ans r rs"
  shows "\<exists>st'. heartbeat_round E k st = Some st' \<and> ping_inv E st' \<and> waits Q (zmq_st st') l [] \<and> waits Q (zmq_st st') r [] \<and>
    (\<forall>key. counter E st' key = (if key \<in> A then map_option (\<lambda>_. 0) (counter E st key) else map_option (\<lambda>c. c + 1) (counter E st key))) \<and>
    trace st' = trace st @ map (\<lambda>e. missing_line (fst e)) (filter (\<lambda>e. counter E st' (fst e) = Some 4) (ping_entries E st)) \<and>
    CONTROL_NODE st' = CONTROL_NODE st \<and> nodes_ping_map st' = nodes_ping_map st"
proof -
  obtain st' where st': "heartbeat_round E k st = Some st'" "ping_inv E st'" "waits Q (zmq_st st') l []" "waits Q (zmq_st st') r []"
    "counter E st' = reset A (map_option (\<lambda>c. c + 1) \<circ> counter E st)"
    "trace st' = trace st @ map (\<lambda>e. missing_line (fst e)) (filter (\<lambda>e. counter E st' (fst e) = Some 4) (ping_entries E st))"
    "CONTROL_NODE st' = CONTROL_NODE st" "nodes_ping_map st' = nodes_ping_map st"
    using heartbeat_round_spec [OF assms(1-9)] unfolding assms(10) by blast
  have "counter E st' key = (if key \<in> A then map_option (\<lambda>_. 0) (counter E st key) else map_option (\<lambda>c. c + 1) (counter E st key))" for key
    unfolding st'(5) by (simp add: reset_def option.map_comp comp_def)
  with st' show ?thesis by blast
qed

text \<open>
  C30: a silent node is reported, once. Over any number of rounds, a node that answers every ping is never
  reported; a node that never answers is reported exactly once, in the round in which its counter
  passes from 3 to 4: after four rounds if it answered last. The worker does not fault.
\<close>

theorem heartbeat_reports_silent_nodes:
  assumes "pong_net (the_zmq E) ans Q" "ping_inv E st" "\<forall>k \<in> set ks. 0 < k"
    and "\<forall>key c. counter E st key = Some c \<longrightarrow> c + int (length ks) \<le> INT_MAX \<and> 0 \<le> c"
    and "l = left_child_ping_socket (CONTROL_NODE st)" "r = right_child_ping_socket (CONTROL_NODE st)" "l \<noteq> r \<or> l = NULL"
    and "waits Q (zmq_st st) l []" "waits Q (zmq_st st) r []" "counter E st key = Some c"
  shows "\<exists>st' new. beats E ks st = Some st' \<and> trace st' = trace st @ new \<and>
    (key \<in> answering ans l [] \<union> answering ans r [] \<longrightarrow> count_list new (missing_line key) = 0) \<and>
    (key \<notin> answering ans l [] \<union> answering ans r [] \<longrightarrow> counter E st' key = Some (c + int (length ks)) \<and>
       count_list new (missing_line key) = (if c < 4 \<and> 4 \<le> c + int (length ks) then 1 else 0))"
  using beats_spec [OF assms(1,7) refl assms(2-6,8,9)] assms(10) by blast

section \<open>Two nodes\<close>

text \<open>Sockets with the behaviour of \<open>pong_net\<close>: the queues, and whether the part received last has a successor.\<close>

definition pong_wire :: "(addr \<Rightarrow> int list) \<Rightarrow> ((addr \<Rightarrow> (string \<times> bool) list) \<times> bool) zmq" where
  "pong_wire ans = \<lparr>
     zmq_ctx_new = (\<lambda>z. (1, z)), zmq_ctx_destroy = (\<lambda>c z. z), zmq_socket = (\<lambda>c z. (2, z)),
     zmq_bind = (\<lambda>s a z. (0, z)), zmq_connect = (\<lambda>s a z. (0, z)), zmq_close = (\<lambda>s z. (0, z)),
     zmq_msg_send = (\<lambda>r p fl z. (4, ((fst z)(r := fst z r @ pong_parts (ans r)), snd z))),
     zmq_msg_recv = (\<lambda>r z. case fst z r of [] \<Rightarrow> (None, z) | (p, fl) # xs \<Rightarrow> (Some p, ((fst z)(r := xs), fl))),
     zmq_rcvmore = (\<lambda>r z. (0, if snd z then 1 else 0, z))\<rparr>"

lemma pong_wire_net: "pong_net (pong_wire ans) ans fst"
  by (simp add: pong_net_def pong_wire_def assert_sent_def)

text \<open>Node 7 answers through the left socket, node 9 never does; it has missed two rounds before.\<close>

definition two_answers :: "addr \<Rightarrow> int list" where
  "two_answers r = (if r = 10 then [7] else [])"

definition two_env :: "((addr \<Rightarrow> (string \<times> bool) list) \<times> bool, (string \<times> nat) list) env" where
  "two_env = \<lparr>the_zmq = pong_wire two_answers, the_map = alist_map, the_os = demo_os\<rparr>"

definition two_nodes :: "((addr \<Rightarrow> (string \<times> bool) list) \<times> bool, (string \<times> nat) list) control" where
  "two_nodes = \<lparr>TREE = demo_table, C_NODE = demo_self, CONTROL_NODE = demo_socks, address_shift = 5010,
     heartbeat_time = 5, answer_count_map = [], nodes_ping_map = [(''7'', 0), (''9'', 1)], cells = [0, 2],
     remove_list = demo_list [], zmq_st = (\<lambda>r. [], False), trace = []\<rparr>"

lemma two_nodes_facts:
  "ping_inv two_env two_nodes" "counter two_env two_nodes ''7'' = Some 0" "counter two_env two_nodes ''9'' = Some 2"
  "\<forall>key c. counter two_env two_nodes key = Some c \<longrightarrow> c = 0 \<or> c = 2"
  "waits fst (zmq_st two_nodes) r []" "pong_net (the_zmq two_env) two_answers fst"
  "left_child_ping_socket (CONTROL_NODE two_nodes) = 10" "right_child_ping_socket (CONTROL_NODE two_nodes) = 12"
  "answering two_answers 10 [] \<union> answering two_answers 12 [] = {''7''}"
proof -
  have get: "hashmap_get (the_map two_env) (nodes_ping_map two_nodes) = [''7'' \<mapsto> 0, ''9'' \<mapsto> 1]"
    by (auto simp: two_env_def two_nodes_def alist_map_def fun_eq_iff)
  then show "ping_inv two_env two_nodes"
    using alist_map_laws by (auto simp: ping_inv_def inj_on_def two_env_def two_nodes_def split: if_splits)
  show "counter two_env two_nodes ''7'' = Some 0" "counter two_env two_nodes ''9'' = Some 2"
    "\<forall>key c. counter two_env two_nodes key = Some c \<longrightarrow> c = 0 \<or> c = 2"
    by (auto simp: counter_def get) (auto simp: two_nodes_def split: if_splits)
  have "int_to_str 7 = ''7''" by code_simp
  then show "answering two_answers 10 [] \<union> answering two_answers 12 [] = {''7''}"
    by (simp add: answering_def two_answers_def)
qed (simp_all add: two_env_def pong_wire_net two_nodes_def demo_socks_def waits_def pong_parts_def)

theorem heartbeat_round_correct_witness:
  "\<exists>st'. heartbeat_round two_env 1 two_nodes = Some st' \<and> counter two_env st' ''7'' = Some 0 \<and> counter two_env st' ''9'' = Some 3"
proof -
  have "\<forall>key c. counter two_env two_nodes key = Some c \<longrightarrow> c < INT_MAX" using two_nodes_facts(4) by fastforce
  from heartbeat_round_correct [OF two_nodes_facts(1,6) _ this two_nodes_facts(7,8) [symmetric] _ two_nodes_facts(5,5) refl, of 1]
  obtain st' where st': "heartbeat_round two_env 1 two_nodes = Some st'"
    "\<forall>key. counter two_env st' key = (if key \<in> {''7''} then map_option (\<lambda>_. 0) (counter two_env two_nodes key)
       else map_option (\<lambda>c. c + 1) (counter two_env two_nodes key))"
    unfolding two_nodes_facts(9) by auto
  from st'(2) have "counter two_env st' ''7'' = Some 0" "counter two_env st' ''9'' = Some 3"
    by (simp_all add: two_nodes_facts(2,3))
  with st'(1) show ?thesis by blast
qed

theorem heartbeat_reports_silent_nodes_witness:
  "\<exists>st'. beats two_env [1, 1, 1] two_nodes = Some st' \<and> count_list (trace st') (missing_line ''9'') = 1 \<and>
     count_list (trace st') (missing_line ''7'') = 0"
proof -
  have polls: "\<forall>k \<in> set [1, 1, 1]. 0 < (k :: nat)" by simp
  have bound: "\<forall>key c. counter two_env two_nodes key = Some c \<longrightarrow> c + int (length [1 :: nat, 1, 1]) \<le> INT_MAX \<and> 0 \<le> c"
    using two_nodes_facts(4) by fastforce
  have ne: "(10 :: addr) \<noteq> 12 \<or> (10 :: addr) = NULL" by simp
  note silent = heartbeat_reports_silent_nodes [OF two_nodes_facts(6,1) polls bound two_nodes_facts(7,8) [symmetric] ne two_nodes_facts(5,5)]
  have start: "trace two_nodes = []" by (simp add: two_nodes_def)
  obtain st' where st': "beats two_env [1, 1, 1] two_nodes = Some st'" "count_list (trace st') (missing_line ''9'') = 1"
    using silent [OF two_nodes_facts(3)] unfolding two_nodes_facts(9) start by auto
  moreover have "count_list (trace st') (missing_line ''7'') = 0"
    using silent [OF two_nodes_facts(2)] st'(1) unfolding two_nodes_facts(9) start by auto
  ultimately show ?thesis by blast
qed

text \<open>
  Switching the heartbeat off and on again before the old worker looks at \<open>heartbeat_time\<close> leaves two
  workers, which raise the counters twice as often.
\<close>

theorem heartbeat_two_workers:
  assumes "control_main E own_pid b z (concat (map command_text [Heartbeat_every m, Heartbeat_every 0, Heartbeat_every n])) [User, User, User] = Some s"
    and "0 < m" "0 < n" "is_int m" "is_int n"
  shows "beaters s = 2 \<and> heartbeat_time (ctl s) = n"
proof -
  obtain st where st: "control_start E own_pid b z = Some st" using assms(1) by (auto simp: control_main_def)
  then have start: "heartbeat_time st = 0" by (auto simp: control_start_def Let_def split_beta)
  let ?text = "\<lambda>cs. concat (map command_text cs)"
  have read: "\<exists>r'. read_command r = Some (Some (Heartbeat_every k, r')) \<and> inp r' \<in> {rest, NEWLINE # rest}"
    if "is_int k" "inp r \<in> {command_text (Heartbeat_every k) @ rest, NEWLINE # command_text (Heartbeat_every k) @ rest}" for k r rest
    using that read_command_print [of "Heartbeat_every k" "[]" r rest] read_command_print [of "Heartbeat_every k" "[NEWLINE]" r rest]
    by (auto simp del: command_text.simps)
  let ?t3 = "command_text (Heartbeat_every n)" and ?t2 = "command_text (Heartbeat_every 0) @ command_text (Heartbeat_every n)"
  obtain r1 where r1: "read_command (reading_start (command_text (Heartbeat_every m) @ ?t2)) = Some (Some (Heartbeat_every m, r1))" "inp r1 \<in> {?t2, NEWLINE # ?t2}"
    using read [OF assms(4), of "reading_start (command_text (Heartbeat_every m) @ ?t2)" ?t2] by (auto simp: reading_start_def simp del: command_text.simps)
  have "is_int 0" by simp
  from read [OF this, of r1 ?t3] r1(2) obtain r2 where r2: "read_command r1 = Some (Some (Heartbeat_every 0, r2))" "inp r2 \<in> {?t3, NEWLINE # ?t3}"
    by (auto simp del: command_text.simps)
  from read [OF assms(5), of r2 "[]"] r2(2) obtain r3 where r3: "read_command r2 = Some (Some (Heartbeat_every n, r3))"
    by (auto simp del: command_text.simps)
  show ?thesis
    using assms(1-3) st start r1(1) r2(1) r3
    by (auto simp: control_main_def control_turn_def main_turn_def cmd_heartbeat_def emit_event_def gone_def Let_def simp del: command_text.simps)
qed

end
