(* ===== verification/FilterProcesses.thy ===== *)
theory FilterProcesses
  imports LineFilter
begin

text \<open>
  Lab 2: the set-up of both processes, \<open>main\<close> of \<^verbatim>\<open>lab2/main.c\<close>. It opens the output file and two
  pipes, forks, and gives the child its three standard descriptors. A process has a table of
  descriptors; opening takes the lowest free ones. Which system calls fail, and with which error
  code, is a parameter.
\<close>

section \<open>Descriptors\<close>

datatype descr = Terminal | Other nat | Answers string | Pipe_read nat | Pipe_write nat

type_synonym fds = "descr option list"

definition open_fd :: "descr \<Rightarrow> fds \<Rightarrow> nat \<times> fds" where
  "open_fd f t =
    (let n = length (takeWhile (\<lambda>e. e \<noteq> None) t) in (n, if n < length t then t[n := Some f] else t @ [Some f]))"

definition close_fd :: "nat \<Rightarrow> fds \<Rightarrow> fds" where
  "close_fd n t = t[n := None]"

definition dup2 :: "nat \<Rightarrow> nat \<Rightarrow> fds \<Rightarrow> fds" where
  "dup2 a b t = t[b := t ! a]"

definition open_pipe :: "nat \<Rightarrow> fds \<Rightarrow> (nat \<times> nat) \<times> fds" where
  "open_pipe k t = (let (a, t1) = open_fd (Pipe_read k) t; (b, t2) = open_fd (Pipe_write k) t1 in ((a, b), t2))"

section \<open>The program\<close>

text \<open>The system calls; \<open>err c\<close> is the error code of the call \<open>c\<close>, 0 if it succeeds.\<close>

datatype call = Creat | Pipe1 | Pipe2 | Fork | Dup_stdin | Dup_stdout | Dup_stderr | Child_close_pipe2_read | Child_close_pipe1_write
  | Execl | Close_pipe2_write | Close_pipe1_read | Close_file | Close_pipe2_read | Close_pipe1_write

text \<open>A chain of \<open>else if\<close>: the first call that fails is reported and its code returned.\<close>

fun first_error :: "('c \<Rightarrow> int) \<Rightarrow> 'c list \<Rightarrow> int" where
  "first_error err [] = 0"
| "first_error err (c # cs) = (if err c \<noteq> 0 then err c else first_error err cs)"

record plumbing =
  file_d :: nat
  fd1 :: "nat \<times> nat"
  fd2 :: "nat \<times> nat"
  table :: fds

definition plumb :: "string \<Rightarrow> fds \<Rightarrow> plumbing" where
  "plumb name t =
    (let (f, t1) = open_fd (Answers name) t; (p1, t2) = open_pipe 1 t1; (p2, t3) = open_pipe 2 t2
     in \<lparr>file_d = f, fd1 = p1, fd2 = p2, table = t3\<rparr>)"

text \<open>The child's part: the error code it ends with, or the table with which \<open>./child\<close> runs.\<close>

definition child_part :: "(call \<Rightarrow> int) \<Rightarrow> plumbing \<Rightarrow> int + fds" where
  "child_part err p =
    (let e = first_error err [Dup_stdin, Dup_stdout, Dup_stderr, Child_close_pipe2_read, Child_close_pipe1_write, Execl] in
     if e \<noteq> 0 then Inl e
     else Inr (close_fd (snd (fd1 p)) (close_fd (fst (fd2 p))
            (dup2 (snd (fd2 p)) 2 (dup2 (file_d p) 1 (dup2 (fst (fd1 p)) 0 (table p)))))))"

text \<open>The parent's part up to its loop, and from its loop, with the result \<open>rc\<close>, until it waits.\<close>

definition parent_part :: "(call \<Rightarrow> int) \<Rightarrow> plumbing \<Rightarrow> int + fds" where
  "parent_part err p =
    (let e = first_error err [Close_pipe2_write, Close_pipe1_read, Close_file] in
     if e \<noteq> 0 then Inl e else Inr (close_fd (file_d p) (close_fd (fst (fd1 p)) (close_fd (snd (fd2 p)) (table p)))))"

definition parent_end :: "(call \<Rightarrow> int) \<Rightarrow> plumbing \<Rightarrow> int \<Rightarrow> fds \<Rightarrow> int + fds" where
  "parent_end err p rc t =
    (let e = (if rc \<noteq> 0 then rc else first_error err [Close_pipe2_read, Close_pipe1_write]) in
     if e \<noteq> 0 then Inl e else Inr (close_fd (snd (fd1 p)) (close_fd (fst (fd2 p)) t)))"

text \<open>\<open>main\<close> up to the fork: the status it returns, or the plumbing and what is left of the input.\<close>

definition filter_start :: "(nat \<Rightarrow> bool) \<Rightarrow> (call \<Rightarrow> int) \<Rightarrow> fds \<Rightarrow> source \<Rightarrow> (int + plumbing \<times> source) option" where
  "filter_start ok err t src = do {
     r \<leftarrow> scan_string2 ok None 0 src;
     if ret r \<noteq> 0 then Some (Inl (if errno r \<noteq> 0 then errno r else -1))
     else do {
       name \<leftarrow> str r;
       let e = first_error err [Creat, Pipe1, Pipe2, Fork];
       Some (if e \<noteq> 0 then Inl e else Inr (plumb (c_str name) t, rest r))
     }
   }"

section \<open>Lemmas\<close>

text \<open>A table as a function; what is behind its end is closed.\<close>

definition at :: "fds \<Rightarrow> nat \<Rightarrow> descr option" where
  "at t n = (if n < length t then t ! n else None)"

lemma open_fd_at:
  assumes "open_fd f t = (n, t')"
  shows "at t n = None" "at t' = (at t)(n := Some f)"
proof -
  have n: "n = length (takeWhile (\<lambda>e. e \<noteq> None) t)" using assms by (simp add: open_fd_def Let_def)
  then have le: "n \<le> length t" by (simp add: length_takeWhile_le)
  show "at t n = None" using n nth_length_takeWhile [of "\<lambda>e. e \<noteq> None" t] by (auto simp: at_def)
  show "at t' = (at t)(n := Some f)"
    using assms n le by (auto simp: open_fd_def Let_def at_def fun_eq_iff nth_append split: if_splits)
qed

lemma open_pipe_at:
  assumes "open_pipe k t = ((a, b), t')"
  shows "at t a = None" "at t b = None" "a \<noteq> b" "at t' = (at t)(a := Some (Pipe_read k), b := Some (Pipe_write k))"
proof -
  obtain t1 where t1: "open_fd (Pipe_read k) t = (a, t1)" "open_fd (Pipe_write k) t1 = (b, t')"
    using assms by (auto simp: open_pipe_def Let_def split: prod.splits)
  show "at t a = None" by (rule open_fd_at(1) [OF t1(1)])
  have "at t1 b = None" "at t1 = (at t)(a := Some (Pipe_read k))" using open_fd_at(1) [OF t1(2)] open_fd_at(2) [OF t1(1)] by auto
  then show "at t b = None" "a \<noteq> b" by (auto split: if_splits)
  show "at t' = (at t)(a := Some (Pipe_read k), b := Some (Pipe_write k))"
    using open_fd_at(2) [OF t1(2)] open_fd_at(2) [OF t1(1)] by simp
qed

lemma close_fd_at: "at (close_fd n t) = (at t)(n := None)"
  by (auto simp: at_def close_fd_def fun_eq_iff)

lemma dup2_at: "at t b \<noteq> None \<Longrightarrow> at t a \<noteq> None \<Longrightarrow> at (dup2 a b t) = (at t)(b := at t a)"
  by (auto simp: at_def dup2_def fun_eq_iff split: if_splits)

text \<open>No descriptor of the table is an end of a pipe.\<close>

definition no_pipes :: "fds \<Rightarrow> bool" where
  "no_pipes t \<longleftrightarrow> (\<forall>n k. at t n \<noteq> Some (Pipe_read k) \<and> at t n \<noteq> Some (Pipe_write k))"

definition open_for :: "fds \<Rightarrow> descr \<Rightarrow> nat set" where
  "open_for t f = {n. at t n = Some f}"

lemma plumb_at:
  assumes "at t 0 \<noteq> None" "at t 1 \<noteq> None" "at t 2 \<noteq> None"
  obtains a b c d where "fd1 (plumb name t) = (a, b)" "fd2 (plumb name t) = (c, d)"
    "distinct [0, 1, 2, file_d (plumb name t), a, b, c, d]"
    "\<forall>n \<in> {file_d (plumb name t), a, b, c, d}. at t n = None"
    "at (table (plumb name t)) = (at t)(file_d (plumb name t) := Some (Answers name), a := Some (Pipe_read 1),
       b := Some (Pipe_write 1), c := Some (Pipe_read 2), d := Some (Pipe_write 2))"
proof -
  obtain f t1 where 1: "open_fd (Answers name) t = (f, t1)" by fastforce
  obtain a b t2 where 2: "open_pipe 1 t1 = ((a, b), t2)" by (metis prod.exhaust)
  obtain c d t3 where 3: "open_pipe 2 t2 = ((c, d), t3)" by (metis prod.exhaust)
  have p: "plumb name t = \<lparr>file_d = f, fd1 = (a, b), fd2 = (c, d), table = t3\<rparr>"
    unfolding plumb_def Let_def by (simp only: 1 2 3 prod.case)
  note s1 = open_fd_at [OF 1] and s2 = open_pipe_at [OF 2] and s3 = open_pipe_at [OF 3]
  have f: "at t f = None" by (rule s1(1))
  have ab: "at t a = None" "at t b = None" "a \<noteq> f" "b \<noteq> f" using s2(1,2) by (auto simp: s1(2) split: if_splits)
  have cd: "at t c = None" "at t d = None" "c \<notin> {f, a, b}" "d \<notin> {f, a, b}"
    using s3(1,2) by (auto simp: s2(4) s1(2) split: if_splits)
  have low: "x \<noteq> 0 \<and> x \<noteq> 1 \<and> x \<noteq> 2" if "at t x = None" for x using assms that by metis
  show thesis
  proof (rule that [of a b c d])
    show "distinct [0, 1, 2, file_d (plumb name t), a, b, c, d]"
      using low [OF f] low [OF ab(1)] low [OF ab(2)] low [OF cd(1)] low [OF cd(2)] ab(3,4) cd(3,4) s2(3) s3(3) by (auto simp: p)
  qed (use f ab cd s1(2) s2(4) s3(4) in \<open>simp_all add: p\<close>)
qed

text \<open>Who holds which end after the calls of both processes.\<close>

lemma filter_descriptors:
  assumes "\<forall>i \<in> {0, 1, 2}. at t i \<noteq> None" "no_pipes t" "\<forall>c. err c = 0" "p = plumb name t"
  shows "\<exists>ct pt et. child_part err p = Inr ct \<and> parent_part err p = Inr pt \<and> parent_end err p 0 pt = Inr et \<and>
    at ct 0 = Some (Pipe_read 1) \<and> at ct 1 = Some (Answers name) \<and> at ct 2 = Some (Pipe_write 2) \<and>
    at pt (snd (fd1 p)) = Some (Pipe_write 1) \<and> at pt (fst (fd2 p)) = Some (Pipe_read 2) \<and>
    open_for ct (Pipe_write 1) = {} \<and> open_for pt (Pipe_write 2) = {} \<and> open_for et (Pipe_write 1) = {}"
proof -
  have std: "at t 0 \<noteq> None" "at t 1 \<noteq> None" "at t 2 \<noteq> None" using assms(1) by simp_all
  obtain a b c d where p: "fd1 p = (a, b)" "fd2 p = (c, d)" "distinct [0, 1, 2, file_d p, a, b, c, d]"
      "\<forall>n \<in> {file_d p, a, b, c, d}. at t n = None"
      "at (table p) = (at t)(file_d p := Some (Answers name), a := Some (Pipe_read 1),
        b := Some (Pipe_write 1), c := Some (Pipe_read 2), d := Some (Pipe_write 2))"
    using plumb_at [OF std, of name] unfolding assms(4) by blast
  define ct where "ct = close_fd b (close_fd c (dup2 d 2 (dup2 (file_d p) 1 (dup2 a 0 (table p)))))"
  define pt where "pt = close_fd (file_d p) (close_fd a (close_fd d (table p)))"
  define et where "et = close_fd b (close_fd c pt)"
  have parts: "child_part err p = Inr ct" "parent_part err p = Inr pt" "parent_end err p 0 pt = Inr et"
    using assms(3) by (simp_all add: child_part_def parent_part_def parent_end_def ct_def pt_def et_def p(1,2) Let_def)
  have d0: "at (dup2 a 0 (table p)) = (at (table p))(0 := Some (Pipe_read 1))"
    using p(3) std by (subst dup2_at) (auto simp: p(5))
  have d1: "at (dup2 (file_d p) 1 (dup2 a 0 (table p))) = (at (table p))(0 := Some (Pipe_read 1), 1 := Some (Answers name))"
    using p(3) std by (subst dup2_at) (auto simp: d0 p(5))
  have d2: "at (dup2 d 2 (dup2 (file_d p) 1 (dup2 a 0 (table p)))) =
      (at (table p))(0 := Some (Pipe_read 1), 1 := Some (Answers name), 2 := Some (Pipe_write 2))"
    using p(3) std by (subst dup2_at) (auto simp: d1 p(5) simp del: One_nat_def)
  have ct: "at ct = ((at (table p))(0 := Some (Pipe_read 1), 1 := Some (Answers name), 2 := Some (Pipe_write 2)))(c := None, b := None)"
    unfolding ct_def close_fd_at d2 ..
  have pt: "at pt = (at (table p))(d := None, a := None, file_d p := None)" unfolding pt_def close_fd_at ..
  have et: "at et = (at pt)(c := None, b := None)" unfolding et_def close_fd_at ..
  have tables: "at ct 0 = Some (Pipe_read 1)" "at ct 1 = Some (Answers name)" "at ct 2 = Some (Pipe_write 2)"
    "at pt b = Some (Pipe_write 1)" "at pt c = Some (Pipe_read 2)"
    using p(3) by (auto simp: ct pt p(5))
  have closed: "open_for ct (Pipe_write 1) = {}" "open_for pt (Pipe_write 2) = {}" "open_for et (Pipe_write 1) = {}"
    using p(3) assms(2) by (auto simp: open_for_def ct pt et p(5) no_pipes_def split: if_splits)
  show ?thesis using parts tables closed by (simp add: p(1,2))
qed

text \<open>The loops of both processes on the text behind the name.\<close>

lemma filter_loops:
  assumes "\<forall>k. ok k" "length (bytes src) + 1 < 2 ^ 29" "fin src = 0"
    and "\<forall>k. wr an k = 0 \<and> pl an k \<in> {0, 1}" "length (bytes ce) < 2 ^ 29" "fin ce = 0"
    and "length (text_lines (bytes src)) < length (text_lines (bytes ce))"
  shows "\<exists>q evs. parent_main ok an src ce = Some q \<and> status q = 0 \<and>
    child_main ok (\<lambda>_. 0) \<lparr>bytes = piped q, fin = 0\<rparr> = Some (evs, 0) \<and>
    stdout_of evs = concat (map (\<lambda>l. c_str l @ [NL]) (filter accepted (text_lines (bytes src))))"
proof -
  obtain q where q: "parent_main ok an src ce = Some q" "status q = 0" "piped q = bytes src @ [NL]"
    using parent_pipes [OF assms(1,4) _ assms(3,5,6)] assms(2,7) by auto
  then have "child_main ok (\<lambda>_. 0) \<lparr>bytes = piped q, fin = 0\<rparr> = Some (map emit (text_lines (bytes src)), 0)"
    using child_after_newline [OF assms(1), of src] assms(2,3) by simp
  with q show ?thesis using stdout_of_emit [of "text_lines (bytes src)"] by simp
qed

section \<open>Properties\<close>



end
