(* ===== verification/SharedProcesses.thy ===== *)
theory SharedProcesses
  imports SharedFilter FilterProcesses
begin

text \<open>
  Lab 4 around its loops: the set-up in both \<open>main\<close> functions, the struct with the mutexes that the
  parent leaves for the child at the start of the shared area, and the messages about rejected
  lines, which the child puts into a second area and the parent's signal handler prints. The bytes
  of the struct, and what they say to the functions on mutexes, are parameters.
\<close>

section \<open>Set-up\<close>

datatype step4 = Creat_answers | Open_messages | Open_errors | Truncate_messages | Truncate_errors | Init_message_mutex
  | Init_error_mutex | Write_struct | Fork_child | Register_handler | Map_messages | Map_errors | Close_answers
  | Unmap_messages | Unmap_errors

datatype step4_child = Child_open_messages | Child_open_errors | Child_read_struct | Child_map_messages | Child_map_errors

text \<open>
  How \<open>main\<close> of the parent ends: with a status, and whether a child is left, which then runs for
  ever; or, if every call succeeds, with what the parent sends before it waits. \<open>err\<close> gives the error
  of a call, zero if it succeeds. A mutex that cannot be initialised leaves \<open>errno\<close> alone, so
  the status is zero.
\<close>

datatype ending = Returned int bool | Waits "action list"

definition shared_main :: "(nat \<Rightarrow> bool) \<Rightarrow> (step4 \<Rightarrow> int) \<Rightarrow> source \<Rightarrow> ending option" where
  "shared_main ok err src = do {
     r \<leftarrow> scan_string4 ok None 0 src;
     if ret r \<noteq> 0 then Some (Returned (if errno r \<noteq> 0 then errno r else -1) False)
     else
       let e0 = first_error err [Creat_answers, Open_messages, Open_errors, Truncate_messages, Truncate_errors];
           e = first_error err [Write_struct, Fork_child];
           e' = first_error err [Register_handler, Map_messages, Map_errors, Close_answers]
       in if e0 \<noteq> 0 then Some (Returned e0 False)
          else if err Init_message_mutex \<noteq> 0 \<or> err Init_error_mutex \<noteq> 0 then Some (Returned 0 False)
          else if e \<noteq> 0 then Some (Returned e False)
          else if e' \<noteq> 0 then Some (Returned e' True)
          else do {
            (acts, rc) \<leftarrow> send_loop ok None 0 (rest r);
            let e'' = (if rc \<noteq> 0 then rc else first_error err [Unmap_messages, Unmap_errors]);
            Some (if e'' \<noteq> 0 then Returned e'' True else Waits acts)
          }
   }"

text \<open>The child's \<open>main\<close>: a status, or \<open>None\<close> if it gets to wait for signals.\<close>

definition child_main4 :: "(step4_child \<Rightarrow> int) \<Rightarrow> int option" where
  "child_main4 err =
    (let e = first_error err [Child_open_messages, Child_open_errors, Child_read_struct, Child_map_messages, Child_map_errors]
     in if e \<noteq> 0 then Some e else None)"

section \<open>Both processes and the messages about errors\<close>

text \<open>The parent has the area for messages mapped until it has sent everything.\<close>

datatype parent_state = Sending | Unmapped | Crashed

record exchange_state =
  core :: shared
  parent :: parent_state
  SYNC_ST :: "string option"     \<comment> \<open>the bytes of the struct, as the child has read them\<close>
  ERROR_PTR :: string
  error_pending :: bool
  reports :: string              \<comment> \<open>what the parent's handler has printed\<close>

text \<open>\<open>strcpy\<close>, \<open>write\<close>: the bytes are stored at the start of an area.\<close>

definition overwrite :: "string \<Rightarrow> string \<Rightarrow> string" where
  "overwrite s t = s @ drop (length s) t"

definition INVALID_STRING :: string where
  "INVALID_STRING = ''invalid string'' @ [NL]"

abbreviation ERRORS_FILESIZE :: nat where "ERRORS_FILESIZE \<equiv> 128"

definition exchange_start :: "string \<Rightarrow> action list \<Rightarrow> exchange_state" where
  "exchange_start sync acts = \<lparr>core = shared_start (overwrite sync (replicate MESSAGES_FILESIZE NUL)) acts, parent = Sending, SYNC_ST = None,
     ERROR_PTR = replicate ERRORS_FILESIZE NUL, error_pending = False, reports = []\<rparr>"

text \<open>
  \<open>n\<close> is the size of the struct; \<open>lock_free y\<close> tells whether the mutexes in a struct with the bytes
  \<open>y\<close> can be locked, \<open>is_parent y\<close> whether the process number in it is the parent's. The child first
  reads the struct, and it gets through its handler only if it can lock. A signal that comes while
  one is pending is lost. The parent's handler reads the area for messages, which the parent
  unmaps when it has sent everything: a signal after that ends the parent (\<open>SIGSEGV\<close>).
\<close>

inductive exchange_step :: "(string \<Rightarrow> bool) \<Rightarrow> (string \<Rightarrow> bool) \<Rightarrow> nat \<Rightarrow> exchange_state \<Rightarrow> exchange_state \<Rightarrow> bool" for lock_free is_parent n where
  load: "exchange_step lock_free is_parent n w (w\<lparr>SYNC_ST := Some (take n (area (core w)))\<rparr>)"
  if "cpc (core w) = Starting" "SYNC_ST w = None"
| both: "exchange_step lock_free is_parent n w (w\<lparr>core := s\<rparr>)"
  if "shared_step False (core w) s" "rejected (child s) = rejected (child (core w))"
    "cpc (core w) = Starting \<and> cpc s = Waiting \<longrightarrow> SYNC_ST w \<noteq> None"
    "cpc (core w) = Waiting \<and> cpc s = Copying 0 \<longrightarrow> (\<exists>y. SYNC_ST w = Some y \<and> lock_free y)"
| reject: "exchange_step lock_free is_parent n w (w\<lparr>core := s, ERROR_PTR := overwrite (INVALID_STRING @ [NUL]) (ERROR_PTR w),
    error_pending := error_pending w \<or> is_parent (the (SYNC_ST w))\<rparr>)"
  if "shared_step False (core w) s" "rejected (child s) \<noteq> rejected (child (core w))"
| report: "exchange_step lock_free is_parent n w (w\<lparr>error_pending := False, reports := reports w @ c_str (ERROR_PTR w)\<rparr>)"
  if "error_pending w" "parent w = Sending"
| unmap: "exchange_step lock_free is_parent n w (w\<lparr>parent := Unmapped\<rparr>)"
  if "parent w = Sending" "todo (core w) = []"
| crash: "exchange_step lock_free is_parent n w (w\<lparr>error_pending := False, parent := Crashed\<rparr>)"
  if "error_pending w" "parent w = Unmapped"

section \<open>Lemmas\<close>

lemma read_begin_rejected [simp]: "rejected (read_begin c) = rejected c"
  by (simp add: read_begin_def)

lemma read_end_rejected: "read_end ch i c = Some c' \<Longrightarrow> rejected c' = rejected c \<or> rejected c' = rejected c + 1"
  by (auto simp: read_end_def Let_def split: if_splits)

lemma read_byte_rejected: "read_byte ch c = Some c' \<Longrightarrow> rejected c' = rejected c"
  by (auto simp: read_byte_def Let_def split: if_splits)

lemma shared_step_rejected:
  "shared_step p s s' \<Longrightarrow> rejected (child s') = rejected (child s) \<or> rejected (child s') = rejected (child s) + 1"
  by (erule shared_stepE) (auto dest: read_end_rejected read_byte_rejected)

lemma all_sent_step: "shared_step p s s' \<Longrightarrow> todo s = [] \<Longrightarrow> todo s' = []"
  by (erule shared_stepE) auto

lemma c_str_overwrite: "c_str (overwrite (INVALID_STRING @ [NUL]) t) = INVALID_STRING"
  by (simp add: INVALID_STRING_def overwrite_def c_str_def NL_def)

lemma INVALID_STRING_nonempty [simp]: "INVALID_STRING \<noteq> []"
  by (simp add: INVALID_STRING_def)


text \<open>What is printed, and how often.\<close>

definition reports_inv :: "exchange_state \<Rightarrow> bool" where
  "reports_inv w \<longleftrightarrow> (\<exists>k. reports w = concat (replicate k INVALID_STRING) \<and>
     k + (if error_pending w then 1 else 0) \<le> rejected (child (core w))) \<and>
     (rejected (child (core w)) > 0 \<longrightarrow> c_str (ERROR_PTR w) = INVALID_STRING) \<and>
     (parent w = Crashed \<longrightarrow> rejected (child (core w)) > 0 \<and> todo (core w) = []) \<and>
     (parent w = Unmapped \<longrightarrow> todo (core w) = [])"

lemma reports_inv_start: "reports_inv (exchange_start sync acts)"
  by (auto simp: reports_inv_def exchange_start_def reader_init_def intro!: exI [of _ 0])

lemma reports_inv_step:
  assumes "exchange_step lock_free is_parent n w w'" "reports_inv w"
  shows "reports_inv w'"
  using assms(1)
proof cases
  case (reject s)
  obtain k where k: "reports w = concat (replicate k INVALID_STRING)" "k + (if error_pending w then 1 else 0) \<le> rejected (child (core w))"
    using assms(2) unfolding reports_inv_def by blast
  have "rejected (child s) = rejected (child (core w)) + 1" using shared_step_rejected reject by blast
  moreover have "parent w \<in> {Unmapped, Crashed} \<longrightarrow> todo s = []"
    using assms(2) all_sent_step [OF reject(2)] by (auto simp: reports_inv_def)
  ultimately show ?thesis using k unfolding reports_inv_def reject(1) by (auto simp: c_str_overwrite intro!: exI [of _ k])
next
  case (both s)
  then show ?thesis using assms(2) all_sent_step [OF both(2)] by (auto simp: reports_inv_def)
next
  case report
  obtain k where k: "reports w = concat (replicate k INVALID_STRING)" "k + (if error_pending w then 1 else 0) \<le> rejected (child (core w))"
     "rejected (child (core w)) > 0 \<longrightarrow> c_str (ERROR_PTR w) = INVALID_STRING"
    using assms(2) unfolding reports_inv_def by auto
  have "concat (replicate (k + 1) INVALID_STRING) = concat (replicate k INVALID_STRING) @ INVALID_STRING"
    by (induction k) simp_all
  with k report show ?thesis unfolding reports_inv_def by (auto intro!: exI [of _ "k + 1"] simp del: replicate_Suc)
next
  case crash
  obtain k where k: "reports w = concat (replicate k INVALID_STRING)" "k + (if error_pending w then 1 else 0) \<le> rejected (child (core w))"
    using assms(2) unfolding reports_inv_def by blast
  with crash assms(2) show ?thesis by (auto simp: reports_inv_def intro!: exI [of _ k])
qed (use assms(2) in \<open>auto simp: reports_inv_def\<close>)

text \<open>Every rejection with the right process number leaves a message that is printed or pending.\<close>

definition intact_inv :: "(string \<Rightarrow> bool) \<Rightarrow> exchange_state \<Rightarrow> bool" where
  "intact_inv is_parent w \<longleftrightarrow> (cpc (core w) = Starting \<longrightarrow> rejected (child (core w)) = 0) \<and>
     (\<forall>y. SYNC_ST w = Some y \<and> is_parent y \<and> rejected (child (core w)) > 0 \<longrightarrow> error_pending w \<or> reports w \<noteq> [] \<or> parent w = Crashed) \<and>
     (SYNC_ST w = None \<longrightarrow> cpc (core w) \<in> {Starting, Killed} \<and> rejected (child (core w)) = 0)"

lemma rejection_not_starting:
  "shared_step p s s' \<Longrightarrow> rejected (child s') \<noteq> rejected (child s) \<Longrightarrow> cpc s \<notin> {Starting, Killed} \<and> cpc s' \<noteq> Starting"
  by (erule shared_stepE) (auto dest: read_byte_rejected)

lemma starting_steps:
  "shared_step p s s' \<Longrightarrow> cpc s \<in> {Starting, Killed} \<Longrightarrow> cpc s' \<in> {Starting, Killed} \<or> cpc s = Starting \<and> cpc s' = Waiting"
  by (erule shared_stepE) auto

lemma starting_again: "shared_step p s s' \<Longrightarrow> cpc s' = Starting \<Longrightarrow> cpc s = Starting"
  by (erule shared_stepE) (auto split: if_splits)

lemma intact_inv_step:
  assumes "exchange_step lock_free is_parent n w w'" "reports_inv w" "intact_inv is_parent w"
  shows "intact_inv is_parent w'"
  using assms(1)
proof cases
  case load
  then show ?thesis using assms(3) by (auto simp: intact_inv_def)
next
  case (both s)
  then show ?thesis using assms(3) starting_steps [OF both(2)] starting_again [OF both(2)]
    by (auto simp: intact_inv_def)
next
  case (reject s)
  then show ?thesis using assms(3) rejection_not_starting [OF reject(2,3)] by (auto simp: intact_inv_def)
next
  case report
  have "rejected (child (core w)) > 0" using report assms(2) by (auto simp: reports_inv_def)
  then have "c_str (ERROR_PTR w) \<noteq> []" using assms(2) by (simp add: reports_inv_def)
  with report show ?thesis using assms(3) by (auto simp: intact_inv_def)
qed (use assms(3) in \<open>auto simp: intact_inv_def\<close>)

interpretation exchange: schedule "exchange_step lock_free is_parent n" "\<lambda>w. reports_inv w \<and> intact_inv is_parent w" for lock_free is_parent n
  by unfold_locales (use reports_inv_step intact_inv_step in blast)

lemma exchange_invs:
  "(exchange_step lock_free is_parent n)\<^sup>*\<^sup>* (exchange_start sync acts) w \<Longrightarrow> reports_inv w \<and> intact_inv is_parent w"
  by (erule exchange.run_inv) (simp add: reports_inv_start intact_inv_def, simp add: exchange_start_def reader_init_def)

text \<open>A child that cannot lock does nothing but wait.\<close>

lemma locked_out_step:
  assumes "exchange_step lock_free is_parent n w w'" "SYNC_ST w = Some y" "\<not> lock_free y" "cpc (core w) \<in> {Starting, Waiting, Killed}"
  shows "SYNC_ST w' = Some y \<and> cpc (core w') \<in> {Starting, Waiting, Killed} \<and> child (core w') = child (core w)"
  using assms(1)
proof cases
  case (both s)
  from both(2) show ?thesis using both(1,5) assms(2-4) by cases auto
next
  case (reject s)
  from reject(2) show ?thesis using reject(1,3) assms(2,4) by cases auto
qed (use assms in auto)

definition locked_out :: "(string \<Rightarrow> bool) \<Rightarrow> string \<Rightarrow> reader \<Rightarrow> exchange_state \<Rightarrow> bool" where
  "locked_out lock_free y c w \<longleftrightarrow> SYNC_ST w = Some y \<and> \<not> lock_free y \<and> cpc (core w) \<in> {Starting, Waiting, Killed} \<and> child (core w) = c"

interpretation locked: schedule "exchange_step lock_free is_parent n" "locked_out lock_free y c" for lock_free is_parent n y c
  by unfold_locales (use locked_out_step in \<open>auto simp: locked_out_def\<close>)

text \<open>Every run of the filter is a run of both processes in which no message is printed.\<close>

lemma lift_run:
  assumes "(shared_step False)\<^sup>*\<^sup>* s s'" "core w = s" "SYNC_ST w = Some y" "lock_free y" "parent w = Sending"
  shows "\<exists>w'. (exchange_step lock_free is_parent n)\<^sup>*\<^sup>* w w' \<and> core w' = s' \<and> SYNC_ST w' = Some y \<and> parent w' = Sending \<and>
    reports w' = reports w"
  using assms(1)
proof (induction rule: rtranclp_induct)
  case base
  then show ?case using assms by blast
next
  case (step x z)
  then obtain v where v: "(exchange_step lock_free is_parent n)\<^sup>*\<^sup>* w v" "core v = x" "SYNC_ST v = Some y" "parent v = Sending"
    "reports v = reports w" by blast
  show ?case
  proof (cases "rejected (child z) = rejected (child x)")
    case True
    have "exchange_step lock_free is_parent n v (v\<lparr>core := z\<rparr>)"
      by (rule exchange_step.both) (use step.hyps(2) True v assms(4) in auto)
    then have "(exchange_step lock_free is_parent n)\<^sup>*\<^sup>* w (v\<lparr>core := z\<rparr>)" using v(1) by (rule rtranclp.rtrancl_into_rtrancl [rotated])
    then show ?thesis using v by (intro exI [of _ "v\<lparr>core := z\<rparr>"]) simp
  next
    case False
    let ?u = "v\<lparr>core := z, ERROR_PTR := overwrite (INVALID_STRING @ [NUL]) (ERROR_PTR v),
      error_pending := error_pending v \<or> is_parent (the (SYNC_ST v))\<rparr>"
    have "exchange_step lock_free is_parent n v ?u" by (rule exchange_step.reject) (use step.hyps(2) False v in auto)
    then have "(exchange_step lock_free is_parent n)\<^sup>*\<^sup>* w ?u" using v(1) by (rule rtranclp.rtrancl_into_rtrancl [rotated])
    then show ?thesis using v by (intro exI [of _ ?u]) simp
  qed
qed

lemma lift_from_start:
  assumes "(shared_step False)\<^sup>*\<^sup>* (shared_start (overwrite sync (replicate MESSAGES_FILESIZE NUL)) acts) s"
    and "length sync = n" "n \<le> MESSAGES_FILESIZE" "lock_free sync"
  shows "\<exists>w. (exchange_step lock_free is_parent n)\<^sup>*\<^sup>* (exchange_start sync acts) w \<and> core w = s \<and> parent w = Sending \<and> reports w = [] \<and>
    SYNC_ST w = Some sync"
proof -
  let ?w0 = "exchange_start sync acts"
  have "take n (area (core ?w0)) = sync" using assms(2,3) by (simp add: exchange_start_def shared_start_def overwrite_def)
  then have 1: "exchange_step lock_free is_parent n ?w0 (?w0\<lparr>SYNC_ST := Some sync\<rparr>)"
    using exchange_step.load [of ?w0 lock_free is_parent n] by (simp add: exchange_start_def shared_start_def)
  obtain w where w: "(exchange_step lock_free is_parent n)\<^sup>*\<^sup>* (?w0\<lparr>SYNC_ST := Some sync\<rparr>) w" "core w = s" "parent w = Sending" "reports w = []"
      "SYNC_ST w = Some sync"
    using lift_run [OF assms(1), of "?w0\<lparr>SYNC_ST := Some sync\<rparr>" sync lock_free is_parent n] assms(4)
    by (auto simp: exchange_start_def)
  from 1 w(1) have "(exchange_step lock_free is_parent n)\<^sup>*\<^sup>* ?w0 w" by (rule converse_rtranclp_into_rtranclp)
  with w show ?thesis by blast
qed

lemma text_lines_name: "NL \<notin> set n \<Longrightarrow> text_lines (n @ NL # body) = n # text_lines body"
  by (induction n) auto

lemma first_action: "ls \<noteq> [] \<Longrightarrow> \<exists>t acts. (t = NL \<or> t = EOF_CHAR) \<and> send_lines ls = Store 0 (hd (hd ls @ [t])) # acts"
proof -
  have chunk: "\<exists>acts. send_chunk st 0 m = Store 0 (st ! 0) # acts" for st m
    by (simp add: send_chunk_def upt_conv_Cons del: upt_Suc)
  have line: "\<exists>acts. send_line (l @ [t]) (length l) = Store 0 (hd (l @ [t])) # acts" for l t
  proof -
    have "0 < (length l + MESSAGES_FILESIZE) div MESSAGES_FILESIZE" by (simp add: div_greater_zero_iff)
    then obtain k where k: "[0..<(length l + MESSAGES_FILESIZE) div MESSAGES_FILESIZE] = 0 # k" by (metis upt_conv_Cons)
    obtain m acts where "send_line (l @ [t]) (length l) = send_chunk (l @ [t]) 0 m @ acts"
      unfolding send_line_def k Let_def by (simp only: list.map concat.simps mult_0)
    moreover have "hd (l @ [t]) = (l @ [t]) ! 0" by (simp add: hd_conv_nth)
    ultimately show ?thesis using chunk [of "l @ [t]" m] by auto
  qed
  assume "ls \<noteq> []"
  then obtain l ls' where ls: "ls = l # ls'" by (cases ls) auto
  have first_char: "hd ls = l" by (simp add: ls)
  show ?thesis
  proof (cases "ls' = []")
    case True
    then have "send_lines ls = send_line (l @ [EOF_CHAR]) (length l)" unfolding ls by simp
    then show ?thesis using line [of l EOF_CHAR] unfolding first_char by metis
  next
    case False
    then have split: "send_lines ls = send_line (l @ [NL]) (length l) @ send_lines ls'" unfolding ls by (rule send_lines_Cons)
    obtain acts where "send_line (l @ [NL]) (length l) = Store 0 (hd (l @ [NL])) # acts" using line by blast
    then have "send_lines ls = Store 0 (hd (l @ [NL])) # (acts @ send_lines ls')" unfolding split by simp
    then show ?thesis unfolding first_char by blast
  qed
qed

text \<open>The parent sends the lines behind the first, if no call fails.\<close>

lemma shared_main_waits:
  assumes "\<forall>k. ok k" "length (bytes src) < 2 ^ 29" "fin src = 0" "NUL \<notin> set (bytes src)"
    and "bytes src = name @ NL # body" "NL \<notin> set name" "\<forall>c. err c = 0"
  shows "shared_main ok err src = Some (Waits (send_lines (text_lines body)))"
proof -
  have lines: "text_lines (bytes src) = name # text_lines body"
    using text_lines_name [OF assms(6)] by (simp add: assms(5))
  have "drop (Suc (length name)) (bytes src) = body" by (simp add: assms(5))
  then have scan: "\<exists>r. scan_string4 ok None 0 src = Some r \<and> ret r = 0 \<and> rest r = src\<lparr>bytes := body\<rparr>"
    using r4.reads [OF assms(1-3), of None 0] pieces_nul [OF assms(4)] lines by (simp add: Let_def)
  have "send_loop ok None 0 (src\<lparr>bytes := body\<rparr>) = Some (send_lines (text_lines body), 0)"
    using send_loop_lines [OF assms(1), of "src\<lparr>bytes := body\<rparr>" None 0] assms(2-5) by simp
  with scan show ?thesis using assms(7) by (auto simp: shared_main_def Let_def)
qed

section \<open>Properties\<close>


text \<open>
  C21: whether a message is printed or ends the parent is up to the schedule. Whatever the filter
  does with a text, if it rejects a line, then the processes can do just that while the signal
  reaches the parent when it has unmapped the area for messages, and it crashes and prints nothing;
  and they can do it with the message printed.
\<close>

theorem shared_report_crash:
  assumes "(shared_step False)\<^sup>*\<^sup>* (shared_start (overwrite sync (replicate MESSAGES_FILESIZE NUL)) acts) s"
    and "todo s = []" "rejected (child s) > 0" "length sync = n" "n \<le> MESSAGES_FILESIZE" "lock_free sync" "is_parent sync"
  shows "(\<exists>w. (exchange_step lock_free is_parent n)\<^sup>*\<^sup>* (exchange_start sync acts) w \<and> core w = s \<and>
      parent w = Crashed \<and> reports w = []) \<and>
    (\<exists>w. (exchange_step lock_free is_parent n)\<^sup>*\<^sup>* (exchange_start sync acts) w \<and> core w = s \<and>
      parent w = Unmapped \<and> reports w = INVALID_STRING \<and> \<not> error_pending w)"
proof -
  let ?step = "exchange_step lock_free is_parent n"
  obtain w where w: "?step\<^sup>*\<^sup>* (exchange_start sync acts) w" "core w = s" "parent w = Sending" "reports w = []" "SYNC_ST w = Some sync"
    using lift_from_start [where is_parent = is_parent and lock_free = lock_free and n = n, OF assms(1,4,5,6)] by blast
  have inv: "reports_inv w" "intact_inv is_parent w" using exchange_invs [OF w(1)] by auto
  have pending: "error_pending w" using inv(2) w assms(3,7) by (auto simp: intact_inv_def)
  have printed: "c_str (ERROR_PTR w) = INVALID_STRING" using inv(1) w assms(3) by (simp add: reports_inv_def)
  have 1: "?step w (w\<lparr>parent := Unmapped\<rparr>)" by (rule exchange_step.unmap) (use w assms(2) in simp_all)
  have "?step (w\<lparr>parent := Unmapped\<rparr>) ((w\<lparr>parent := Unmapped\<rparr>)\<lparr>error_pending := False, parent := Crashed\<rparr>)"
    by (rule exchange_step.crash) (use pending in simp_all)
  then have crash: "?step\<^sup>*\<^sup>* (exchange_start sync acts) ((w\<lparr>parent := Unmapped\<rparr>)\<lparr>error_pending := False, parent := Crashed\<rparr>)"
    using w(1) 1 by (meson rtranclp.rtrancl_into_rtrancl)
  let ?v = "w\<lparr>error_pending := False, reports := reports w @ c_str (ERROR_PTR w)\<rparr>"
  have "?step w ?v" by (rule exchange_step.report) (use pending w in simp_all)
  moreover have "?step ?v (?v\<lparr>parent := Unmapped\<rparr>)" by (rule exchange_step.unmap) (use w assms(2) in simp_all)
  ultimately have print: "?step\<^sup>*\<^sup>* (exchange_start sync acts) (?v\<lparr>parent := Unmapped\<rparr>)"
    using w(1) by (meson rtranclp.rtrancl_into_rtrancl)
  show ?thesis
  proof
    show "\<exists>w. ?step\<^sup>*\<^sup>* (exchange_start sync acts) w \<and> core w = s \<and> parent w = Crashed \<and> reports w = []"
      using crash w by (intro exI [of _ "(w\<lparr>parent := Unmapped\<rparr>)\<lparr>error_pending := False, parent := Crashed\<rparr>"]) simp
    show "\<exists>w. ?step\<^sup>*\<^sup>* (exchange_start sync acts) w \<and> core w = s \<and> parent w = Unmapped \<and> reports w = INVALID_STRING \<and> \<not> error_pending w"
      using print w printed by (intro exI [of _ "?v\<lparr>parent := Unmapped\<rparr>"]) simp
  qed
qed

text \<open>
  C22: the struct with the mutexes lies where the messages are stored, and the parent does not
  wait until the child has read it. So for every input there is a schedule in which the first byte of
  what the child takes for the struct is the first byte of the first line behind the name; and if a mutex with that byte cannot be
  locked, the child never handles a line from then on, in any schedule: it prints and rejects
  nothing.
\<close>

theorem shared_struct_overwritten:
  assumes "\<forall>k. ok k" "length (bytes src) < 2 ^ 29" "fin src = 0" "NUL \<notin> set (bytes src)"
    and "bytes src = name @ NL # body" "NL \<notin> set name" "shared_main ok (\<lambda>_. 0) src = Some (Waits acts)"
    and "0 < n" "length sync = n" "n \<le> MESSAGES_FILESIZE"
  shows "\<exists>w c. (exchange_step lock_free is_parent n)\<^sup>*\<^sup>* (exchange_start sync acts) w \<and> SYNC_ST w = Some (c # tl sync) \<and>
    (\<exists>t \<in> {NL, EOF_CHAR}. c = hd (hd (text_lines body) @ [t])) \<and>
    (\<not> lock_free (c # tl sync) \<longrightarrow> (\<forall>w'. (exchange_step lock_free is_parent n)\<^sup>*\<^sup>* w w' \<longrightarrow>
       answers (child (core w')) = [] \<and> rejected (child (core w')) = 0))"
proof -
  let ?ls = "text_lines body"
  have "acts = send_lines ?ls" using shared_main_waits [OF assms(1-6), of "\<lambda>_. 0"] assms(7) by simp
  then obtain t acts' where t: "t \<in> {NL, EOF_CHAR}" "acts = Store 0 (hd (hd ?ls @ [t])) # acts'"
    using first_action [of ?ls] by auto
  define c where "c = hd (hd ?ls @ [t])"
  let ?w0 = "exchange_start sync acts" and ?a = "overwrite sync (replicate MESSAGES_FILESIZE NUL)"
  have area: "length ?a = MESSAGES_FILESIZE" "take n ?a = sync" using assms(9,10) by (simp_all add: overwrite_def)
  obtain y ys where sync: "sync = y # ys" using assms(8,9) by (cases sync) auto
  let ?s1 = "(core ?w0)\<lparr>area := (area (core ?w0))[0 := c], todo := acts'\<rparr>"
  have "shared_step False (core ?w0) ?s1"
    by (rule shared_step.store) (use t(2) area in \<open>simp_all add: exchange_start_def c_def\<close>)
  then have 1: "exchange_step lock_free is_parent n ?w0 (?w0\<lparr>core := ?s1\<rparr>)"
    by (rule exchange_step.both) (simp_all add: exchange_start_def)
  let ?w1 = "?w0\<lparr>core := ?s1\<rparr>" and ?w2 = "?w0\<lparr>core := ?s1, SYNC_ST := Some (take n (area ?s1))\<rparr>"
  have "exchange_step lock_free is_parent n ?w1 (?w1\<lparr>SYNC_ST := Some (take n (area (core ?w1)))\<rparr>)"
    by (rule exchange_step.load) (simp_all add: exchange_start_def)
  then have 2: "exchange_step lock_free is_parent n ?w1 ?w2" by simp
  have run: "(exchange_step lock_free is_parent n)\<^sup>*\<^sup>* ?w0 ?w2" using 1 2 by (meson r_into_rtranclp rtranclp.rtrancl_into_rtrancl)
  have "take n (area ?s1) = (take n ?a)[0 := c]" by (simp add: exchange_start_def take_update_swap)
  then have copy: "SYNC_ST ?w2 = Some (c # tl sync)" using area(2) by (simp add: sync)
  have "answers (child (core w')) = [] \<and> rejected (child (core w')) = 0"
    if "\<not> lock_free (c # tl sync)" "(exchange_step lock_free is_parent n)\<^sup>*\<^sup>* ?w2 w'" for w'
  proof -
    have "locked_out lock_free (c # tl sync) (child (core ?w2)) ?w2" using copy that(1) by (simp add: locked_out_def exchange_start_def)
    with locked.run_inv [OF that(2)] have "child (core w') = child (core ?w2)" by (auto simp: locked_out_def)
    then show ?thesis by (simp add: exchange_start_def reader_init_def)
  qed
  with run copy t(1) c_def show ?thesis by blast
qed

section \<open>Examples\<close>

text \<open>The input is the line \<open>a\<close>: the child rejects it, and the parent prints the message.\<close>

definition after_a :: reader where
  "after_a = \<lparr>READ_ST = Some [Some (CHR ''a''), Some NUL], LEN_READ_ST = 0, MAX_READ_LEN = 2, answers = [], rejected = 1\<rparr>"

lemma one_rejection:
  assumes "length a = MESSAGES_FILESIZE"
  shows "(shared_step False)\<^sup>*\<^sup>* \<lparr>area = a, todo = [Store 0 (CHR ''a''), Store 1 EOF_CHAR, Signal], pending = False, cpc = Waiting, child = reader_init\<rparr>
      \<lparr>area = a[0 := CHR ''a'', 1 := EOF_CHAR], todo = [], pending = False, cpc = Copying 1,
        child = \<lparr>READ_ST = Some [Some (CHR ''a''), None], LEN_READ_ST = 1, MAX_READ_LEN = 2, answers = [], rejected = 0\<rparr>\<rparr>"
proof -
  let ?s0 = "\<lparr>area = a, todo = [Store 0 (CHR ''a''), Store 1 EOF_CHAR, Signal], pending = False, cpc = Waiting, child = reader_init\<rparr>"
  let ?s5 = "\<lparr>area = a[0 := CHR ''a'', 1 := EOF_CHAR], todo = [], pending = False, cpc = Copying 1,
        child = \<lparr>READ_ST = Some [Some (CHR ''a''), None], LEN_READ_ST = 1, MAX_READ_LEN = 2, answers = [], rejected = 0\<rparr>\<rparr>"
  let ?s2 = "\<lparr>area = a[0 := CHR ''a'', 1 := EOF_CHAR], todo = [Signal], pending = False, cpc = Waiting, child = reader_init\<rparr>"
  let ?s4 = "\<lparr>area = a[0 := CHR ''a'', 1 := EOF_CHAR], todo = [], pending = False, cpc = Copying 0, child = read_begin reader_init\<rparr>"
  have "shared_step False ?s0 (?s0\<lparr>area := a[0 := CHR ''a''], todo := [Store 1 EOF_CHAR, Signal]\<rparr>)"
    using shared_step.store [of ?s0 0 "CHR ''a''"] assms by simp
  moreover have "shared_step False (?s0\<lparr>area := a[0 := CHR ''a''], todo := [Store 1 EOF_CHAR, Signal]\<rparr>) ?s2"
    using shared_step.store [of "?s0\<lparr>area := a[0 := CHR ''a''], todo := [Store 1 EOF_CHAR, Signal]\<rparr>" 1 EOF_CHAR] assms by simp
  moreover have "shared_step False ?s2 (?s2\<lparr>pending := True, todo := []\<rparr>)" using shared_step.signal [of ?s2 "[]" False] by simp
  moreover have "shared_step False (?s2\<lparr>pending := True, todo := []\<rparr>) ?s4"
    using shared_step.handle [of "?s2\<lparr>pending := True, todo := []\<rparr>"] by simp
  moreover have "shared_step False ?s4 ?s5"
    using shared_step.copy [of ?s4 0 "\<lparr>READ_ST = Some [Some (CHR ''a''), None], LEN_READ_ST = 1, MAX_READ_LEN = 2, answers = [], rejected = 0\<rparr>" False] assms
    by (simp add: read_begin_def read_byte_def reader_init_def mem_set_def mem_realloc_def NL_def)
  ultimately show ?thesis by (meson converse_rtranclp_into_rtranclp rtranclp.rtrancl_refl)
qed

lemma read_end_a:
  "read_end EOF_CHAR 1 \<lparr>READ_ST = Some [Some (CHR ''a''), None], LEN_READ_ST = 1, MAX_READ_LEN = 2, answers = [], rejected = 0\<rparr> = Some after_a"
  by (simp add: read_end_def after_a_def mem_set_def mem_get_def is_upper_def)

lemma rejected_a:
  "\<exists>s. (shared_step False)\<^sup>*\<^sup>* (shared_start (overwrite ''struct'' (replicate MESSAGES_FILESIZE NUL))
      [Store 0 (CHR ''a''), Store 1 EOF_CHAR, Signal]) s \<and> todo s = [] \<and> cpc s = Exited \<and> rejected (child s) = 1"
proof -
  let ?acts = "[Store 0 (CHR ''a''), Store 1 EOF_CHAR, Signal]"
  define a where "a = overwrite ''struct'' (replicate MESSAGES_FILESIZE NUL)"
  define s5 where "s5 = \<lparr>area = a[0 := CHR ''a'', 1 := EOF_CHAR], todo = [], pending = False, cpc = Copying 1,
        child = \<lparr>READ_ST = Some [Some (CHR ''a''), None], LEN_READ_ST = 1, MAX_READ_LEN = 2, answers = [], rejected = 0\<rparr>\<rparr>"
  define s6 where "s6 = \<lparr>area = a[0 := CHR ''a'', 1 := EOF_CHAR], todo = [], pending = False, cpc = Exited, child = after_a\<rparr>"
  have a: "length a = MESSAGES_FILESIZE" by (simp add: a_def overwrite_def)
  have "(shared_step False)\<^sup>*\<^sup>* ((shared_start a ?acts)\<lparr>cpc := Waiting\<rparr>) s5"
    using one_rejection [OF a] by (simp add: shared_start_def s5_def)
  moreover have "shared_step False s5 s6"
    using shared_step.finish [of s5 1 after_a False] a read_end_a by (simp add: s5_def s6_def)
  ultimately have "(shared_step False)\<^sup>*\<^sup>* ((shared_start a ?acts)\<lparr>cpc := Waiting\<rparr>) s6" by (rule rtranclp.rtrancl_into_rtrancl)
  then have "(shared_step False)\<^sup>*\<^sup>* (shared_start a ?acts) s6" by (rule after_first)
  then show ?thesis unfolding a_def by (intro exI [of _ s6]) (simp add: s6_def after_a_def)
qed


theorem shared_report_crash_witness:
  "(\<exists>w. (exchange_step (\<lambda>_. True) (\<lambda>_. True) 6)\<^sup>*\<^sup>* (exchange_start ''struct'' [Store 0 (CHR ''a''), Store 1 EOF_CHAR, Signal]) w \<and>
      cpc (core w) = Exited \<and> parent w = Crashed) \<and>
   (\<exists>w. (exchange_step (\<lambda>_. True) (\<lambda>_. True) 6)\<^sup>*\<^sup>* (exchange_start ''struct'' [Store 0 (CHR ''a''), Store 1 EOF_CHAR, Signal]) w \<and>
      cpc (core w) = Exited \<and> reports w = INVALID_STRING)"
proof -
  obtain s where s: "(shared_step False)\<^sup>*\<^sup>* (shared_start (overwrite ''struct'' (replicate MESSAGES_FILESIZE NUL))
      [Store 0 (CHR ''a''), Store 1 EOF_CHAR, Signal]) s" "todo s = []" "cpc s = Exited" "rejected (child s) = 1"
    using rejected_a by blast
  from shared_report_crash [where lock_free = "\<lambda>_. True" and is_parent = "\<lambda>_. True" and n = 6, OF s(1,2)] s(3,4)
  show ?thesis by fastforce
qed

theorem shared_struct_overwritten_witness:
  "\<exists>acts w. shared_main (\<lambda>_. True) (\<lambda>_. 0) \<lparr>bytes = ''out'' @ NL # ''Ab'', fin = 0\<rparr> = Some (Waits acts) \<and>
     (exchange_step (\<lambda>y. hd y = NUL) (\<lambda>_. True) 6)\<^sup>*\<^sup>* (exchange_start (NUL # ''lock!'') acts) w \<and>
     SYNC_ST w = Some (CHR ''A'' # ''lock!'') \<and>
     (\<forall>w'. (exchange_step (\<lambda>y. hd y = NUL) (\<lambda>_. True) 6)\<^sup>*\<^sup>* w w' \<longrightarrow> answers (child (core w')) = [])"
proof -
  let ?src = "\<lparr>bytes = ''out'' @ NL # ''Ab'', fin = 0\<rparr>"
  have hyps: "\<forall>k :: nat. True" "length (bytes ?src) < 2 ^ 29" "fin ?src = 0" "NUL \<notin> set (bytes ?src)"
    "bytes ?src = ''out'' @ NL # ''Ab''" "NL \<notin> set ''out''"
    by (simp_all add: NL_def)
  have first_char: "hd (hd (text_lines ''Ab'') @ [t]) = CHR ''A''" for t by (simp add: NL_def)
  obtain acts where acts: "shared_main (\<lambda>_. True) (\<lambda>_. 0) ?src = Some (Waits acts)"
    using shared_main_waits [OF hyps, of "\<lambda>_. 0"] by auto
  from shared_struct_overwritten [OF hyps acts, of 6 "NUL # ''lock!''" "\<lambda>y. hd y = NUL" "\<lambda>_. True"]
  show ?thesis using acts unfolding first_char by auto
qed

end
