(* ===== verification/TuiWindows.thy ===== *)
theory TuiWindows
  imports MessengerClient "HOL-Library.Signed_Division"
begin

text \<open>
  The windows of the messenger's terminal interface, \<^verbatim>\<open>KP/tui/tui.cpp\<close>: how the screen is divided,
  what a resize does with the windows, where the cursor is put. What the windows show is in
  \<open>MessengerClient\<close>. The functions of ncurses are parameters, and so is its state.
\<close>

section \<open>Windows\<close>

record ('w, 's) curses =
  newwin :: "int \<Rightarrow> int \<Rightarrow> int \<Rightarrow> int \<Rightarrow> 's \<Rightarrow> 'w \<times> 's"
  derwin :: "'w \<Rightarrow> int \<Rightarrow> int \<Rightarrow> int \<Rightarrow> int \<Rightarrow> 's \<Rightarrow> 'w \<times> 's"
  delwin :: "'w \<Rightarrow> 's \<Rightarrow> 's"
  getmaxyx :: "'w \<Rightarrow> 's \<Rightarrow> int \<times> int"

text \<open>A window with a border, the window inside it, and the window that its panel shows.\<close>

record 'w cursed_window =
  decoration :: 'w
  overlay :: 'w
  panel :: 'w

record ('w, 's) terminal =
  curses_state :: 's
  output_window :: "'w cursed_window"
  input_window :: "'w cursed_window"
  chats_window :: "'w cursed_window"
  front :: client

text \<open>The inner window of a new window.\<close>

definition inner_window :: "('w, 's) curses \<Rightarrow> 'w \<Rightarrow> 's \<Rightarrow> 'w \<times> 's" where
  "inner_window cs dec s = (let (y, x) = getmaxyx cs dec s in derwin cs dec (y - 2) (x - 2) 1 1 s)"

definition new_window :: "('w, 's) curses \<Rightarrow> int \<Rightarrow> int \<Rightarrow> int \<Rightarrow> int \<Rightarrow> 's \<Rightarrow> 'w cursed_window \<times> 's" where
  "new_window cs sy sx h w s =
    (let (dec, s1) = newwin cs h w sy sx s; (over, s2) = inner_window cs dec s1
     in (\<lparr>decoration = dec, overlay = over, panel = dec\<rparr>, s2))"

definition resize_window :: "('w, 's) curses \<Rightarrow> 'w cursed_window \<Rightarrow> int \<Rightarrow> int \<Rightarrow> int \<Rightarrow> int \<Rightarrow> 's \<Rightarrow> 'w cursed_window \<times> 's" where
  "resize_window cs cw sy sx h w s =
    (let (new_dec, s1) = newwin cs h w sy sx s; (new_over, s2) = inner_window cs new_dec s1
     in (\<lparr>decoration = new_dec, overlay = new_over, panel = new_dec\<rparr>,
         delwin cs (overlay cw) (delwin cs (decoration cw) s2)))"

abbreviation TUI_HORIZONTAL_RATIO :: int where "TUI_HORIZONTAL_RATIO \<equiv> 4"
abbreviation TUI_VERTICAL_RATIO :: int where "TUI_VERTICAL_RATIO \<equiv> 5"

text \<open>Rows and columns of the window of output.\<close>

definition output_window_h :: "int \<Rightarrow> int" where
  "output_window_h max_v = max_v - max_v sdiv TUI_VERTICAL_RATIO"

definition output_window_w :: "int \<Rightarrow> int" where
  "output_window_w max_h = max_h - max_h sdiv TUI_HORIZONTAL_RATIO"

text \<open>Where the text that is typed next appears: window, row and column. A division by zero is a fault.\<close>

definition fix_cursor :: "('w, 's) curses \<Rightarrow> ('w, 's) terminal \<Rightarrow> ('w \<times> int \<times> int) option" where
  "fix_cursor cs t =
    (if now_window (front t) = Input_window then
       let wx = snd (getmaxyx cs (overlay (input_window t)) (curses_state t));
           len_msg = long_to_int (int (length (input_text (front t))))
       in if wx = 0 then None else Some (overlay (input_window t), len_msg sdiv wx, len_msg smod wx)
     else Some (overlay (chats_window t), 0, 0))"

text \<open>The interface at its start, on a screen of \<open>max_v\<close> rows and \<open>max_h\<close> columns.\<close>

definition tui_new :: "('w, 's) curses \<Rightarrow> int \<times> int \<Rightarrow> client \<Rightarrow> 's \<Rightarrow> ('w, 's) terminal option" where
  "tui_new cs dims c s =
    (let (max_v, max_h) = dims;
         (ow, s1) = new_window cs 0 0 (output_window_h max_v) (output_window_w max_h) s;
         (iw, s2) = new_window cs (output_window_h max_v) 0 (max_v sdiv TUI_VERTICAL_RATIO) (output_window_w max_h) s1;
         (cw, s3) = new_window cs 0 (output_window_w max_h) max_v (max_h sdiv TUI_HORIZONTAL_RATIO) s2;
         t = \<lparr>curses_state = s3, output_window = ow, input_window = iw, chats_window = cw, front = c\<rparr>
     in map_option (\<lambda>_. t) (fix_cursor cs t))"

definition update_windows :: "('w, 's) curses \<Rightarrow> int \<times> int \<Rightarrow> ('w, 's) terminal \<Rightarrow> ('w, 's) terminal option" where
  "update_windows cs dims t =
    (let (max_v, max_h) = dims;
         (ow, s1) = resize_window cs (output_window t) 0 0 (output_window_h max_v) (output_window_w max_h) (curses_state t);
         (iw, s2) = resize_window cs (input_window t) (output_window_h max_v) 0 (max_v sdiv TUI_VERTICAL_RATIO) (output_window_w max_h) s1;
         (cw, s3) = resize_window cs (chats_window t) 0 (output_window_w max_h) max_v (max_h sdiv TUI_HORIZONTAL_RATIO) s2
     in do {
       c \<leftarrow> redraw_windows (front t);
       Some (t\<lparr>curses_state := s3, output_window := ow, input_window := iw, chats_window := cw, front := c\<rparr>)
     })"

text \<open>
  An event of a session, on a screen of the given size. The cursor is fixed after many keys; the
  width that is divided by changes only with a resize, and there the division is made.
\<close>

definition screen_step :: "('w, 's) curses \<Rightarrow> event \<times> (int \<times> int) \<Rightarrow> ('w, 's) terminal \<Rightarrow> ('w, 's) terminal option" where
  "screen_step cs e t =
    (if fst e = Pressed Key_resize then do {
       t1 \<leftarrow> update_windows cs (snd e) t;
       _ \<leftarrow> fix_cursor cs t1;
       Some t1
     } else map_option (\<lambda>c. t\<lparr>front := c\<rparr>) (client_step (fst e) (front t)))"

fun screen_run :: "('w, 's) curses \<Rightarrow> (event \<times> (int \<times> int)) list \<Rightarrow> ('w, 's) terminal \<Rightarrow> ('w, 's) terminal option" where
  "screen_run cs [] t = Some t"
| "screen_run cs (e # es) t = do { t1 \<leftarrow> screen_step cs e t; screen_run cs es t1 }"

text \<open>The end of the interface (F12).\<close>

definition tui_end :: "('w, 's) curses \<Rightarrow> ('w, 's) terminal \<Rightarrow> 's" where
  "tui_end cs t = fold (delwin cs)
    [decoration (input_window t), decoration (output_window t), decoration (chats_window t),
     overlay (input_window t), overlay (output_window t), overlay (chats_window t)] (curses_state t)"

section \<open>Keys\<close>

text \<open>
  The codes that \<open>getch\<close> gives. A code that is no known key is taken as a character: the low byte is
  what \<open>char(user_key)\<close> keeps.
\<close>

record key_codes =
  ERR :: int
  KEY_RESIZE :: int
  KEY_DOWN :: int
  KEY_UP :: int
  KEY_BACKSPACE :: int
  KEY_F :: "int \<Rightarrow> int"

definition user_key :: "key_codes \<Rightarrow> int \<Rightarrow> key" where
  "user_key ks k =
    (if k = KEY_RESIZE ks then Key_resize
     else if k = KEY_F ks 1 then Key_help
     else if k = KEY_F ks 2 then Key_back
     else if k = 9 then Key_tab
     else if k = 10 then Key_enter
     else if k = KEY_DOWN ks then Key_down
     else if k = KEY_UP ks then Key_up
     else if k = KEY_BACKSPACE ks then Key_backspace
     else Key_char (char_of (k mod 256)))"

fun key_loop :: "key_codes \<Rightarrow> int list \<Rightarrow> client \<Rightarrow> client option" where
  "key_loop ks [] c = Some c"
| "key_loop ks (k # keys) c =
    (if k = ERR ks then key_loop ks keys c
     else if k = KEY_F ks 12 then Some c
     else do { c1 \<leftarrow> tui_key (user_key ks k) c; key_loop ks keys c1 })"

definition tui_loop :: "key_codes \<Rightarrow> int list \<Rightarrow> client \<Rightarrow> client option" where
  "tui_loop ks keys c = key_loop ks keys (print_help c)"

text \<open>The loop is a session of the keys up to the one that ends it.\<close>

lemma key_loop_run:
  "ERR ks \<noteq> KEY_F ks 12 \<Longrightarrow> key_loop ks keys c =
    client_run (map (\<lambda>k. Pressed (user_key ks k)) (filter (\<lambda>k. k \<noteq> ERR ks) (takeWhile (\<lambda>k. k \<noteq> KEY_F ks 12) keys))) c"
proof (induction keys arbitrary: c)
  case (Cons k keys)
  then show ?case by (cases "tui_key (user_key ks k) c") auto
qed simp

section \<open>What is used of ncurses\<close>

text \<open>
  \<open>live\<close> are the windows that exist, \<open>par\<close> the window that one is derived from, \<open>place\<close> its first row
  and column and its numbers of rows and columns. A window from which others are derived is not
  deleted.
\<close>

definition created :: "('s \<Rightarrow> 'w set) \<Rightarrow> ('s \<Rightarrow> 'w \<Rightarrow> 'w option) \<Rightarrow> ('s \<Rightarrow> 'w \<Rightarrow> int \<times> int \<times> int \<times> int) \<Rightarrow> 's \<Rightarrow> 'w \<times> 's \<Rightarrow>
    'w option \<Rightarrow> int \<times> int \<times> int \<times> int \<Rightarrow> bool" where
  "created live par place s vs p r \<longleftrightarrow> (case vs of (v, s') \<Rightarrow> v \<notin> live s \<and> live s' = insert v (live s) \<and> par s' v = p \<and> place s' v = r \<and>
     (\<forall>u \<in> live s. par s' u = par s u \<and> place s' u = place s u))"

definition curses_laws :: "('w, 's) curses \<Rightarrow> ('s \<Rightarrow> 'w set) \<Rightarrow> ('s \<Rightarrow> 'w \<Rightarrow> 'w option) \<Rightarrow>
    ('s \<Rightarrow> 'w \<Rightarrow> int \<times> int \<times> int \<times> int) \<Rightarrow> bool" where
  "curses_laws cs live par place \<longleftrightarrow>
     (\<forall>s h w y x. 0 \<le> y \<and> 0 \<le> x \<and> 0 < h \<and> 0 < w \<longrightarrow> created live par place s (newwin cs h w y x s) None (y, x, h, w)) \<and>
     (\<forall>s p py px ph pw h w y x. p \<in> live s \<and> place s p = (py, px, ph, pw) \<and> 0 \<le> y \<and> 0 \<le> x \<and> 0 < h \<and> 0 < w \<and> y + h \<le> ph \<and> x + w \<le> pw \<longrightarrow>
        created live par place s (derwin cs p h w y x s) (Some p) (py + y, px + x, h, w)) \<and>
     (\<forall>s v. v \<in> live s \<longrightarrow> live (delwin cs v s) = (if \<exists>u \<in> live s. par s u = Some v then live s else live s - {v}) \<and>
        (\<forall>u \<in> live (delwin cs v s). par (delwin cs v s) u = par s u \<and> place (delwin cs v s) u = place s u)) \<and>
     (\<forall>s v y x h w. v \<in> live s \<and> place s v = (y, x, h, w) \<longrightarrow> getmaxyx cs v s = (h, w))"

definition parents_live :: "('s \<Rightarrow> 'w set) \<Rightarrow> ('s \<Rightarrow> 'w \<Rightarrow> 'w option) \<Rightarrow> 's \<Rightarrow> bool" where
  "parents_live live par s \<longleftrightarrow> (\<forall>u \<in> live s. \<forall>p. par s u = Some p \<longrightarrow> p \<in> live s)"

text \<open>A window that stands where it should, with the inner window inside the border.\<close>

definition framed :: "('s \<Rightarrow> 'w set) \<Rightarrow> ('s \<Rightarrow> 'w \<Rightarrow> 'w option) \<Rightarrow> ('s \<Rightarrow> 'w \<Rightarrow> int \<times> int \<times> int \<times> int) \<Rightarrow> 's \<Rightarrow> 'w cursed_window \<Rightarrow>
    int \<times> int \<times> int \<times> int \<Rightarrow> bool" where
  "framed live par place s cw r \<longleftrightarrow> {decoration cw, overlay cw} \<subseteq> live s \<and> panel cw = decoration cw \<and>
     par s (overlay cw) = Some (decoration cw) \<and> (\<forall>u \<in> live s. par s u \<noteq> Some (overlay cw)) \<and> place s (decoration cw) = r \<and>
     (case r of (y, x, h, w) \<Rightarrow> place s (overlay cw) = (y + 1, x + 1, h - 2, w - 2))"

section \<open>Lemmas\<close>

lemma curses_lawsD:
  assumes "curses_laws cs live par place"
  shows "\<And>s h w y x. 0 \<le> y \<Longrightarrow> 0 \<le> x \<Longrightarrow> 0 < h \<Longrightarrow> 0 < w \<Longrightarrow> created live par place s (newwin cs h w y x s) None (y, x, h, w)"
    and "\<And>s p py px ph pw h w y x. p \<in> live s \<Longrightarrow> place s p = (py, px, ph, pw) \<Longrightarrow> 0 \<le> y \<Longrightarrow> 0 \<le> x \<Longrightarrow> 0 < h \<Longrightarrow> 0 < w \<Longrightarrow>
        y + h \<le> ph \<Longrightarrow> x + w \<le> pw \<Longrightarrow> created live par place s (derwin cs p h w y x s) (Some p) (py + y, px + x, h, w)"
    and "\<And>s v. v \<in> live s \<Longrightarrow> live (delwin cs v s) = (if \<exists>u \<in> live s. par s u = Some v then live s else live s - {v})"
    and "\<And>s v u. v \<in> live s \<Longrightarrow> u \<in> live (delwin cs v s) \<Longrightarrow> par (delwin cs v s) u = par s u \<and> place (delwin cs v s) u = place s u"
    and "\<And>s v y x h w. v \<in> live s \<Longrightarrow> place s v = (y, x, h, w) \<Longrightarrow> getmaxyx cs v s = (h, w)"
  using assms unfolding curses_laws_def by simp_all

lemma new_window_framed:
  assumes "curses_laws cs live par place" "parents_live live par s" "0 \<le> sy" "0 \<le> sx" "3 \<le> h" "3 \<le> w"
    and "new_window cs sy sx h w s = (cw, s')"
  shows "framed live par place s' cw (sy, sx, h, w)" "live s' = live s \<union> {decoration cw, overlay cw}"
    "decoration cw \<notin> live s" "overlay cw \<notin> live s" "decoration cw \<noteq> overlay cw" "parents_live live par s'"
    "\<forall>u \<in> live s. par s' u = par s u \<and> place s' u = place s u" "par s' (decoration cw) = None"
proof -
  obtain dec s1 where 1: "newwin cs h w sy sx s = (dec, s1)" by (cases "newwin cs h w sy sx s")
  have "created live par place s (newwin cs h w sy sx s) None (sy, sx, h, w)"
    using assms(3-6) by (intro curses_lawsD(1) [OF assms(1)]) simp_all
  then have d: "dec \<notin> live s" "live s1 = insert dec (live s)" "par s1 dec = None" "place s1 dec = (sy, sx, h, w)"
    "\<forall>u \<in> live s. par s1 u = par s u \<and> place s1 u = place s u"
    by (auto simp: created_def 1)
  have size: "getmaxyx cs dec s1 = (h, w)" using curses_lawsD(5) [OF assms(1)] d(2,4) by simp
  obtain over s2 where 2: "derwin cs dec (h - 2) (w - 2) 1 1 s1 = (over, s2)" by (cases "derwin cs dec (h - 2) (w - 2) 1 1 s1")
  have "created live par place s1 (derwin cs dec (h - 2) (w - 2) 1 1 s1) (Some dec) (sy + 1, sx + 1, h - 2, w - 2)"
    using d(2,4) assms(5,6) by (intro curses_lawsD(2) [OF assms(1)]) (simp, simp, (linarith | simp)+)
  then have o: "over \<notin> live s1" "live s2 = insert over (live s1)" "par s2 over = Some dec" "place s2 over = (sy + 1, sx + 1, h - 2, w - 2)"
    "\<forall>u \<in> live s1. par s2 u = par s1 u \<and> place s2 u = place s1 u"
    by (auto simp: created_def 2)
  have eq: "cw = \<lparr>decoration = dec, overlay = over, panel = dec\<rparr>" "s' = s2"
    using assms(7) by (simp_all add: new_window_def inner_window_def 1 size 2)
  have no_child: "par s2 u \<noteq> Some over" if "u \<in> live s2" for u
  proof -
    have "par s u \<noteq> Some over" if "u \<in> live s" using that assms(2) o(1) d(2) by (auto simp: parents_live_def)
    then show ?thesis using that o d by auto
  qed
  show "framed live par place s' cw (sy, sx, h, w)" using eq o d no_child by (simp add: framed_def)
  show "live s' = live s \<union> {decoration cw, overlay cw}" "decoration cw \<notin> live s" "overlay cw \<notin> live s" "decoration cw \<noteq> overlay cw"
    "\<forall>u \<in> live s. par s' u = par s u \<and> place s' u = place s u" "par s' (decoration cw) = None"
    using eq o d by auto
  show "parents_live live par s'" using assms(2) eq o d by (auto simp: parents_live_def)
qed

text \<open>A window stays framed while others come, and while others go that it does not consist of.\<close>

lemma framed_frame:
  assumes "framed live par place s cw r" "{decoration cw, overlay cw} \<subseteq> live s'"
    and "\<forall>u \<in> live s \<inter> live s'. par s' u = par s u \<and> place s' u = place s u" "\<forall>u \<in> live s' - live s. par s' u \<noteq> Some (overlay cw)"
  shows "framed live par place s' cw r"
proof -
  have "par s' u \<noteq> Some (overlay cw)" if "u \<in> live s'" for u
    using assms(1,3,4) that by (cases "u \<in> live s") (auto simp: framed_def)
  with assms show ?thesis by (auto simp: framed_def split: prod.splits)
qed

lemma drop_window:
  assumes "curses_laws cs live par place" "parents_live live par s" "framed live par place s cw r"
  defines "s' \<equiv> delwin cs (overlay cw) (delwin cs (decoration cw) s)"
  shows "live s' = live s - {overlay cw}" "\<forall>u \<in> live s'. par s' u = par s u \<and> place s' u = place s u" "parents_live live par s'"
proof -
  note del = curses_lawsD(3,4) [OF assms(1)]
  let ?s1 = "delwin cs (decoration cw) s"
  have cw: "decoration cw \<in> live s" "overlay cw \<in> live s" "par s (overlay cw) = Some (decoration cw)" "\<forall>u \<in> live s. par s u \<noteq> Some (overlay cw)"
    using assms(3) by (simp_all add: framed_def)
  have "live ?s1 = live s" using del(1) [OF cw(1)] cw(2,3) by auto
  moreover have "\<forall>u \<in> live ?s1. par ?s1 u = par s u \<and> place ?s1 u = place s u" using del(2) [OF cw(1)] by blast
  ultimately have 1: "live ?s1 = live s" "\<forall>u \<in> live s. par ?s1 u = par s u \<and> place ?s1 u = place s u" by simp_all
  have over: "overlay cw \<in> live ?s1" using 1(1) cw(2) by simp
  have 2: "live s' = live s - {overlay cw}" using del(1) [OF over] 1 cw(4) by (simp add: s'_def)
  have "\<forall>u \<in> live s'. par s' u = par ?s1 u \<and> place s' u = place ?s1 u" using del(2) [OF over] unfolding s'_def by blast
  note 2 = 2 this
  then show "live s' = live s - {overlay cw}" "\<forall>u \<in> live s'. par s' u = par s u \<and> place s' u = place s u" using 1 by auto
  then show "parents_live live par s'" using assms(2) cw(4) by (auto simp: parents_live_def)
qed

lemma resize_window_new:
  "resize_window cs cw sy sx h w s =
    (let (cw', s2) = new_window cs sy sx h w s in (cw', delwin cs (overlay cw) (delwin cs (decoration cw) s2)))"
  by (simp add: resize_window_def new_window_def split: prod.splits)

text \<open>A resize of one window leaves its old border behind; other windows stay as they are.\<close>

lemma resize_window_framed:
  assumes "curses_laws cs live par place" "parents_live live par s" "framed live par place s cw r0" "finite (live s)"
    and "0 \<le> sy" "0 \<le> sx" "3 \<le> h" "3 \<le> w" "resize_window cs cw sy sx h w s = (cw', s')"
  shows "framed live par place s' cw' (sy, sx, h, w)" "parents_live live par s'" "finite (live s')" "card (live s') = card (live s) + 1"
    "\<And>cw2 r2. framed live par place s cw2 r2 \<Longrightarrow> {decoration cw2, overlay cw2} \<inter> {decoration cw, overlay cw} = {} \<Longrightarrow>
       framed live par place s' cw2 r2 \<and> {decoration cw2, overlay cw2} \<inter> {decoration cw', overlay cw'} = {}"
proof -
  obtain s2 where new: "new_window cs sy sx h w s = (cw', s2)" and s': "s' = delwin cs (overlay cw) (delwin cs (decoration cw) s2)"
    using assms(9) by (auto simp: resize_window_new split: prod.splits)
  note n = new_window_framed [OF assms(1,2,5-8) new]
  have old: "decoration cw \<in> live s" "overlay cw \<in> live s" using assms(3) by (simp_all add: framed_def)
  have keep: "framed live par place s2 cw2 r2" if "framed live par place s cw2 r2" for cw2 r2
  proof (rule framed_frame [OF that])
    show "{decoration cw2, overlay cw2} \<subseteq> live s2" using that n(2) by (auto simp: framed_def)
    have "par s2 (overlay cw') = Some (decoration cw')" using n(1) by (simp add: framed_def)
    then show "\<forall>u \<in> live s2 - live s. par s2 u \<noteq> Some (overlay cw2)" using that n(2,3,8) by (auto simp: framed_def)
  qed (use n(7) in simp)
  note d = drop_window [OF assms(1) n(6) keep [OF assms(3)], folded s']
  have stay: "framed live par place s' cw2 r2" if "framed live par place s2 cw2 r2" "overlay cw \<notin> {decoration cw2, overlay cw2}" for cw2 r2
    by (rule framed_frame [OF that(1)]) (use that d in \<open>auto simp: framed_def\<close>)
  show "framed live par place s' cw' (sy, sx, h, w)" by (rule stay [OF n(1)]) (use n(3,4) old in auto)
  show "parents_live live par s'" "finite (live s')" using d n(2) assms(4) by auto
  have "card (live s2) = card (live s) + 2" using n(2-5) assms(4) by simp
  then show "card (live s') = card (live s) + 1" using d(1) n(2) old assms(4) by (simp add: card_Diff_singleton)
  show "framed live par place s' cw2 r2 \<and> {decoration cw2, overlay cw2} \<inter> {decoration cw', overlay cw'} = {}"
    if "framed live par place s cw2 r2" "{decoration cw2, overlay cw2} \<inter> {decoration cw, overlay cw} = {}" for cw2 r2
    using stay [OF keep [OF that(1)]] that n(3,4) by (auto simp: framed_def)
qed

text \<open>The three windows on a screen of the given size.\<close>

abbreviation parts :: "'w cursed_window \<Rightarrow> 'w set" where "parts cw \<equiv> {decoration cw, overlay cw}"

definition terminal_ok :: "('s \<Rightarrow> 'w set) \<Rightarrow> ('s \<Rightarrow> 'w \<Rightarrow> 'w option) \<Rightarrow> ('s \<Rightarrow> 'w \<Rightarrow> int \<times> int \<times> int \<times> int) \<Rightarrow> int \<times> int \<Rightarrow>
    ('w, 's) terminal \<Rightarrow> bool" where
  "terminal_ok live par place dims t \<longleftrightarrow> (case dims of (max_v, max_h) \<Rightarrow>
     parents_live live par (curses_state t) \<and> finite (live (curses_state t)) \<and>
     framed live par place (curses_state t) (output_window t) (0, 0, output_window_h max_v, output_window_w max_h) \<and>
     framed live par place (curses_state t) (input_window t) (output_window_h max_v, 0, max_v sdiv 5, output_window_w max_h) \<and>
     framed live par place (curses_state t) (chats_window t) (0, output_window_w max_h, max_v, max_h sdiv 4) \<and>
     parts (output_window t) \<inter> parts (input_window t) = {} \<and> parts (output_window t) \<inter> parts (chats_window t) = {} \<and>
     parts (input_window t) \<inter> parts (chats_window t) = {})"

definition big_enough :: "int \<times> int \<Rightarrow> bool" where
  "big_enough dims \<longleftrightarrow> 15 \<le> fst dims \<and> 12 \<le> snd dims"

lemma sdiv_pos: "0 \<le> a \<Longrightarrow> 0 < b \<Longrightarrow> a sdiv b = a div b" "0 \<le> a \<Longrightarrow> 0 < b \<Longrightarrow> a smod b = a mod b" for a b :: int
  by (simp_all add: signed_divide_int_def signed_modulo_int_def sgn_if minus_mult_div_eq_mod [symmetric] mult.commute)

lemma big_enough_sizes:
  assumes "big_enough (max_v, max_h)"
  shows "0 \<le> output_window_h max_v" "3 \<le> output_window_h max_v" "0 \<le> output_window_w max_h" "3 \<le> output_window_w max_h"
    "3 \<le> max_v sdiv 5" "3 \<le> max_h sdiv 4" "3 \<le> max_v"
  using assms by (auto simp: big_enough_def output_window_h_def output_window_w_def sdiv_pos)

lemma fix_cursor_ok:
  assumes "curses_laws cs live par place" "terminal_ok live par place (max_v, max_h) t" "big_enough (max_v, max_h)"
  shows "fix_cursor cs t = Some (if now_window (front t) = Input_window
     then (overlay (input_window t), long_to_int (int (length (input_text (front t)))) sdiv (output_window_w max_h - 2),
           long_to_int (int (length (input_text (front t)))) smod (output_window_w max_h - 2))
     else (overlay (chats_window t), 0, 0))"
proof -
  have "overlay (input_window t) \<in> live (curses_state t)"
    "place (curses_state t) (overlay (input_window t)) = (output_window_h max_v + 1, 0 + 1, max_v sdiv 5 - 2, output_window_w max_h - 2)"
    using assms(2) by (auto simp: terminal_ok_def framed_def)
  then have "getmaxyx cs (overlay (input_window t)) (curses_state t) = (max_v sdiv 5 - 2, output_window_w max_h - 2)"
    by (rule curses_lawsD(5) [OF assms(1)])
  then show ?thesis using big_enough_sizes(4) [OF assms(3)] by (simp add: fix_cursor_def Let_def)
qed

lemma new_window_keeps:
  assumes "curses_laws cs live par place" "parents_live live par s" "0 \<le> sy" "0 \<le> sx" "3 \<le> h" "3 \<le> w"
    and "new_window cs sy sx h w s = (cw, s')" "framed live par place s cw2 r2"
  shows "framed live par place s' cw2 r2" "parts cw2 \<inter> parts cw = {}"
proof -
  note n = new_window_framed [OF assms(1-7)]
  show "framed live par place s' cw2 r2"
  proof (rule framed_frame [OF assms(8)])
    have "par s' (overlay cw) = Some (decoration cw)" using n(1) by (simp add: framed_def)
    then show "\<forall>u \<in> live s' - live s. par s' u \<noteq> Some (overlay cw2)" using assms(8) n(2,3,8) by (auto simp: framed_def)
  qed (use assms(8) n(2,7) in \<open>auto simp: framed_def\<close>)
  show "parts cw2 \<inter> parts cw = {}" using assms(8) n(3,4) by (auto simp: framed_def)
qed

lemma tui_new_ok:
  assumes "curses_laws cs live par place" "parents_live live par s" "finite (live s)" "big_enough dims"
  shows "\<exists>t. tui_new cs dims c s = Some t \<and> terminal_ok live par place dims t \<and> front t = c \<and> card (live (curses_state t)) = card (live s) + 6"
proof -
  obtain max_v max_h where dims: "dims = (max_v, max_h)" by (cases dims)
  note sz = big_enough_sizes [OF assms(4) [unfolded dims]]
  obtain ow s1 where 1: "new_window cs 0 0 (output_window_h max_v) (output_window_w max_h) s = (ow, s1)"
    by (cases "new_window cs 0 0 (output_window_h max_v) (output_window_w max_h) s")
  obtain iw s2 where 2: "new_window cs (output_window_h max_v) 0 (max_v sdiv 5) (output_window_w max_h) s1 = (iw, s2)"
    by (cases "new_window cs (output_window_h max_v) 0 (max_v sdiv 5) (output_window_w max_h) s1")
  obtain cw s3 where 3: "new_window cs 0 (output_window_w max_h) max_v (max_h sdiv 4) s2 = (cw, s3)"
    by (cases "new_window cs 0 (output_window_w max_h) max_v (max_h sdiv 4) s2")
  note n1 = new_window_framed [OF assms(1,2) order_refl order_refl sz(2,4) 1]
  note n2 = new_window_framed [OF assms(1) n1(6) sz(1) order_refl sz(5,4) 2]
  note n3 = new_window_framed [OF assms(1) n2(6) order_refl sz(3,7,6) 3]
  note k2 = new_window_keeps [OF assms(1) n1(6) sz(1) order_refl sz(5,4) 2]
  note k3 = new_window_keeps [OF assms(1) n2(6) order_refl sz(3,7,6) 3]
  define t where "t = \<lparr>curses_state = s3, output_window = ow, input_window = iw, chats_window = cw, front = c\<rparr>"
  have "card (live s1) = card (live s) + 2" "card (live s2) = card (live s1) + 2" "card (live s3) = card (live s2) + 2"
    "finite (live s3)"
    using n1(2-5) n2(2-5) n3(2-5) assms(3) by simp_all
  moreover have "terminal_ok live par place dims t"
    unfolding dims terminal_ok_def t_def
    using n3(1,6) k3(1) [OF k2(1) [OF n1(1)]] k3(2) [OF k2(1) [OF n1(1)]] k2(2) [OF n1(1)] k3 [OF n2(1)] calculation(4) by simp
  moreover have "tui_new cs dims c s = map_option (\<lambda>_. t) (fix_cursor cs t)"
    by (simp add: tui_new_def dims 1 2 3 t_def Let_def)
  ultimately show ?thesis using fix_cursor_ok [OF assms(1), of max_v max_h t] assms(4)
    by (intro exI [of _ t]) (simp add: dims t_def)
qed

lemma update_windows_ok:
  assumes "curses_laws cs live par place" "terminal_ok live par place dims0 t" "big_enough dims" "update_windows cs dims t = Some t'"
  shows "terminal_ok live par place dims t'" "card (live (curses_state t')) = card (live (curses_state t)) + 3"
    "redraw_windows (front t) = Some (front t')"
proof -
  obtain max_v max_h where dims: "dims = (max_v, max_h)" by (cases dims)
  note sz = big_enough_sizes [OF assms(3) [unfolded dims]]
  obtain ow s1 where 1: "resize_window cs (output_window t) 0 0 (output_window_h max_v) (output_window_w max_h) (curses_state t) = (ow, s1)"
    by (cases "resize_window cs (output_window t) 0 0 (output_window_h max_v) (output_window_w max_h) (curses_state t)")
  obtain iw s2 where 2: "resize_window cs (input_window t) (output_window_h max_v) 0 (max_v sdiv 5) (output_window_w max_h) s1 = (iw, s2)"
    by (cases "resize_window cs (input_window t) (output_window_h max_v) 0 (max_v sdiv 5) (output_window_w max_h) s1")
  obtain cw s3 where 3: "resize_window cs (chats_window t) 0 (output_window_w max_h) max_v (max_h sdiv 4) s2 = (cw, s3)"
    by (cases "resize_window cs (chats_window t) 0 (output_window_w max_h) max_v (max_h sdiv 4) s2")
  obtain r1 r2 r3 where ok: "parents_live live par (curses_state t)" "finite (live (curses_state t))"
      "framed live par place (curses_state t) (output_window t) r1" "framed live par place (curses_state t) (input_window t) r2"
      "framed live par place (curses_state t) (chats_window t) r3"
      "parts (output_window t) \<inter> parts (input_window t) = {}" "parts (output_window t) \<inter> parts (chats_window t) = {}"
      "parts (input_window t) \<inter> parts (chats_window t) = {}"
    using assms(2) by (auto simp: terminal_ok_def split: prod.splits)
  note w1 = resize_window_framed [OF assms(1) ok(1,3,2) order_refl order_refl sz(2,4) 1]
  have i1: "framed live par place s1 (input_window t) r2 \<and> parts (input_window t) \<inter> parts ow = {}"
    "framed live par place s1 (chats_window t) r3 \<and> parts (chats_window t) \<inter> parts ow = {}"
    using w1(5) [OF ok(4)] w1(5) [OF ok(5)] ok(6,7) by (simp_all add: Int_commute)
  note w2 = resize_window_framed [OF assms(1) w1(2) i1(1) [THEN conjunct1] w1(3) sz(1) order_refl sz(5,4) 2]
  have i2: "framed live par place s2 (chats_window t) r3 \<and> parts (chats_window t) \<inter> parts iw = {}"
    "framed live par place s2 ow (0, 0, output_window_h max_v, output_window_w max_h) \<and> parts ow \<inter> parts iw = {}"
    using w2(5) [of "chats_window t" r3] w2(5) [OF w1(1)] i1 ok(8) by (simp_all add: Int_commute)
  note w3 = resize_window_framed [OF assms(1) w2(2) i2(1) [THEN conjunct1] w2(3) order_refl sz(3,7,6) 3]
  have "parts ow \<inter> parts (chats_window t) = {}" "parts iw \<inter> parts (chats_window t) = {}" using i1(2) i2(1) by (simp_all add: Int_commute)
  then have i3: "framed live par place s3 ow (0, 0, output_window_h max_v, output_window_w max_h) \<and> parts ow \<inter> parts cw = {}"
    "framed live par place s3 iw (output_window_h max_v, 0, max_v sdiv 5, output_window_w max_h) \<and> parts iw \<inter> parts cw = {}"
    using w3(5) [OF conjunct1 [OF i2(2)]] w3(5) [OF w2(1)] by simp_all
  obtain c where c: "redraw_windows (front t) = Some c"
     and t': "t' = t\<lparr>curses_state := s3, output_window := ow, input_window := iw, chats_window := cw, front := c\<rparr>"
    using assms(4) by (auto simp: update_windows_def dims 1 2 3 bind_eq_Some_conv)
  show "terminal_ok live par place dims t'" unfolding dims terminal_ok_def t' using w3(1-3) i3 i2(2) by simp
  show "card (live (curses_state t')) = card (live (curses_state t)) + 3" using w1(4) w2(4) w3(4) by (simp add: t')
  show "redraw_windows (front t) = Some (front t')" using c by (simp add: t')
qed

text \<open>A session: the screen that the windows are made for, and the number of resizes.\<close>

fun drawn_for :: "(event \<times> (int \<times> int)) list \<Rightarrow> int \<times> int \<Rightarrow> int \<times> int" where
  "drawn_for [] dims = dims"
| "drawn_for (e # es) dims = drawn_for es (if fst e = Pressed Key_resize then snd e else dims)"

definition resizes :: "(event \<times> (int \<times> int)) list \<Rightarrow> nat" where
  "resizes es = length (filter (\<lambda>e. fst e = Pressed Key_resize) es)"

lemma screen_step_ok:
  assumes "curses_laws cs live par place" "terminal_ok live par place dims t" "big_enough (snd e)"
  shows "map_option front (screen_step cs e t) = client_step (fst e) (front t)"
    and "screen_step cs e t = Some t' \<Longrightarrow> terminal_ok live par place (drawn_for [e] dims) t' \<and>
      card (live (curses_state t')) = card (live (curses_state t)) + 3 * resizes [e]"
proof -
  have "fix_cursor cs t1 \<noteq> None \<and> redraw_windows (front t) = Some (front t1)" if "update_windows cs (snd e) t = Some t1" for t1
    using fix_cursor_ok [OF assms(1), of "fst (snd e)" "snd (snd e)" t1] update_windows_ok [OF assms that] assms(3) by simp
  moreover have "update_windows cs (snd e) t = None \<longleftrightarrow> redraw_windows (front t) = None"
    by (simp add: update_windows_def split: prod.splits Option.bind_splits)
  ultimately show "map_option front (screen_step cs e t) = client_step (fst e) (front t)"
    by (cases "update_windows cs (snd e) t")
      (auto simp: screen_step_def tui_key_def option.map_comp comp_def option.map_ident split: option.splits Option.bind_splits)
  show "terminal_ok live par place (drawn_for [e] dims) t' \<and> card (live (curses_state t')) = card (live (curses_state t)) + 3 * resizes [e]"
    if step: "screen_step cs e t = Some t'"
  proof (cases "fst e = Pressed Key_resize")
    case True
    then have "update_windows cs (snd e) t = Some t'" using step by (auto simp: screen_step_def bind_eq_Some_conv)
    with update_windows_ok [OF assms] True show ?thesis by (simp add: resizes_def)
  next
    case False
    then obtain c where "t' = t\<lparr>front := c\<rparr>" using step unfolding screen_step_def by auto
    with False assms(2) show ?thesis by (simp add: resizes_def terminal_ok_def)
  qed
qed

lemma screen_run_ok:
  assumes "curses_laws cs live par place" "terminal_ok live par place dims t" "\<forall>e \<in> set es. big_enough (snd e)"
  shows "map_option front (screen_run cs es t) = client_run (map fst es) (front t)"
    and "screen_run cs es t = Some t' \<Longrightarrow> terminal_ok live par place (drawn_for es dims) t' \<and>
      card (live (curses_state t')) = card (live (curses_state t)) + 3 * resizes es"
  using assms(2,3)
proof (induction es arbitrary: t dims)
  case (Cons e es)
  {
    case 1
    have "map_option front (screen_step cs e t) = client_step (fst e) (front t)"
      using screen_step_ok(1) [OF assms(1) 1(1)] 1(2) by simp
    moreover have "map_option front (screen_run cs es t1) = client_run (map fst es) (front t1)" if "screen_step cs e t = Some t1" for t1
      using screen_step_ok(2) [OF assms(1) 1(1) _ that] Cons.IH(1) [of "drawn_for [e] dims" t1] 1(2) by simp
    ultimately show ?case by (cases "screen_step cs e t") (auto dest!: sym [of "Some _"])
  next
    case 2
    then obtain t1 where t1: "screen_step cs e t = Some t1" "screen_run cs es t1 = Some t'" by (auto simp: bind_eq_Some_conv)
    have "terminal_ok live par place (drawn_for [e] dims) t1" "card (live (curses_state t1)) = card (live (curses_state t)) + 3 * resizes [e]"
      using screen_step_ok(2) [OF assms(1) 2(2) _ t1(1)] 2(3) by auto
    with Cons.IH(2) [OF t1(2), of "drawn_for [e] dims"] 2(3) show ?case by (simp add: resizes_def)
  }
qed (simp_all add: resizes_def)

text \<open>Deletion of a border is refused, deletion of an inner window is not.\<close>

lemma delete_border:
  assumes "curses_laws cs live par place" "framed live par place s cw r"
  shows "live (delwin cs (decoration cw) s) = live s"
    and "framed live par place s cw2 r2 \<Longrightarrow> framed live par place (delwin cs (decoration cw) s) cw2 r2"
proof -
  have cw: "decoration cw \<in> live s" "overlay cw \<in> live s" "par s (overlay cw) = Some (decoration cw)" using assms(2) by (auto simp: framed_def)
  show same: "live (delwin cs (decoration cw) s) = live s" using curses_lawsD(3) [OF assms(1) cw(1)] cw by auto
  show "framed live par place (delwin cs (decoration cw) s) cw2 r2" if "framed live par place s cw2 r2"
    by (rule framed_frame [OF that]) (use same that curses_lawsD(4) [OF assms(1) cw(1)] in \<open>auto simp: framed_def\<close>)
qed

lemma delete_inner:
  assumes "curses_laws cs live par place" "framed live par place s cw r"
  shows "live (delwin cs (overlay cw) s) = live s - {overlay cw}"
    and "framed live par place s cw2 r2 \<Longrightarrow> overlay cw \<notin> parts cw2 \<Longrightarrow> framed live par place (delwin cs (overlay cw) s) cw2 r2"
proof -
  have cw: "overlay cw \<in> live s" "\<forall>u \<in> live s. par s u \<noteq> Some (overlay cw)" using assms(2) by (auto simp: framed_def)
  show same: "live (delwin cs (overlay cw) s) = live s - {overlay cw}" using curses_lawsD(3) [OF assms(1) cw(1)] cw by auto
  show "framed live par place (delwin cs (overlay cw) s) cw2 r2" if "framed live par place s cw2 r2" "overlay cw \<notin> parts cw2"
    by (rule framed_frame [OF that(1)]) (use same that curses_lawsD(4) [OF assms(1) cw(1)] in \<open>auto simp: framed_def\<close>)
qed

lemma tui_end_live:
  assumes "curses_laws cs live par place" "terminal_ok live par place dims t"
  shows "live (tui_end cs t) = live (curses_state t) - {overlay (input_window t), overlay (output_window t), overlay (chats_window t)}"
proof -
  let ?o = "output_window t" and ?i = "input_window t" and ?c = "chats_window t"
  obtain r1 r2 r3 where ok: "framed live par place (curses_state t) ?o r1" "framed live par place (curses_state t) ?i r2"
      "framed live par place (curses_state t) ?c r3" "parts ?o \<inter> parts ?i = {}" "parts ?o \<inter> parts ?c = {}" "parts ?i \<inter> parts ?c = {}"
    using assms(2) by (auto simp: terminal_ok_def split: prod.splits)
  have apart: "overlay ?i \<notin> parts ?o" "overlay ?i \<notin> parts ?c" "overlay ?o \<notin> parts ?c" using ok(4-6) by auto
  define s1 where "s1 = delwin cs (decoration ?i) (curses_state t)"
  define s2 where "s2 = delwin cs (decoration ?o) s1"
  define s3 where "s3 = delwin cs (decoration ?c) s2"
  define s4 where "s4 = delwin cs (overlay ?i) s3"
  define s5 where "s5 = delwin cs (overlay ?o) s4"
  note d1 = delete_border [OF assms(1) ok(2), folded s1_def]
  note d2 = delete_border [OF assms(1) d1(2) [OF ok(1)], folded s2_def]
  note d3 = delete_border [OF assms(1) d2(2) [OF d1(2) [OF ok(3)]], folded s3_def]
  have f3: "framed live par place s3 ?i r2" "framed live par place s3 ?o r1" "framed live par place s3 ?c r3"
    by (rule d3(2) [OF d2(2) [OF d1(2) [OF ok(2)]]], rule d3(2) [OF d2(2) [OF d1(2) [OF ok(1)]]], rule d3(2) [OF d2(2) [OF d1(2) [OF ok(3)]]])
  note d4 = delete_inner [OF assms(1) f3(1), folded s4_def]
  have f4: "framed live par place s4 ?o r1" "framed live par place s4 ?c r3" using d4(2) [OF f3(2) apart(1)] d4(2) [OF f3(3) apart(2)] .
  note d5 = delete_inner [OF assms(1) f4(1), folded s5_def]
  have f5: "framed live par place s5 ?c r3" using d5(2) [OF f4(2) apart(3)] .
  note d6 = delete_inner [OF assms(1) f5]
  have "tui_end cs t = delwin cs (overlay ?c) s5" by (simp add: tui_end_def s1_def s2_def s3_def s4_def s5_def)
  then show ?thesis using d1(1) d2(1) d3(1) d4(1) d5(1) d6(1) by auto
qed

section \<open>Properties\<close>

definition inside :: "int \<times> int \<times> int \<times> int \<Rightarrow> int \<Rightarrow> int \<Rightarrow> bool" where
  "inside r y x \<longleftrightarrow> (case r of (sy, sx, h, w) \<Rightarrow> sy \<le> y \<and> y < sy + h \<and> sx \<le> x \<and> x < sx + w)"

lemma inside_one:
  assumes "0 \<le> max_v" "0 \<le> max_h" "0 \<le> y" "y < max_v" "0 \<le> x" "x < max_h"
  defines "r1 \<equiv> (0, 0, output_window_h max_v, output_window_w max_h)"
    and "r2 \<equiv> (output_window_h max_v, 0, max_v sdiv 5, output_window_w max_h)" and "r3 \<equiv> (0, output_window_w max_h, max_v, max_h sdiv 4)"
  shows "inside r1 y x \<and> \<not> inside r2 y x \<and> \<not> inside r3 y x \<or> \<not> inside r1 y x \<and> inside r2 y x \<and> \<not> inside r3 y x \<or>
    \<not> inside r1 y x \<and> \<not> inside r2 y x \<and> inside r3 y x"
proof -
  let ?a = "output_window_h max_v" and ?b = "output_window_w max_h"
  have sums: "?a + max_v sdiv 5 = max_v" "?b + max_h sdiv 4 = max_h" by (simp_all add: output_window_h_def output_window_w_def)
  show ?thesis
  proof (cases "x < ?b")
    case True
    with sums assms(3-6) show ?thesis unfolding inside_def r1_def r2_def r3_def by (cases "y < ?a") simp_all
  next
    case False
    with sums assms(3-6) show ?thesis unfolding inside_def r1_def r2_def r3_def by simp
  qed
qed

lemma div_less_area:
  fixes n c r :: int
  assumes "0 < c"
  shows "n div c < r \<longleftrightarrow> n < r * c"
proof
  assume "n div c < r"
  then have "(n div c + 1) * c \<le> r * c" using assms by (intro mult_right_mono) simp_all
  moreover have "n < (n div c + 1) * c"
    using pos_mod_bound [OF assms, of n] div_mult_mod_eq [of n c] unfolding distrib_right by linarith
  ultimately show "n < r * c" by simp
next
  assume less: "n < r * c"
  show "n div c < r"
  proof (rule ccontr)
    assume "\<not> n div c < r"
    then have "r * c \<le> n div c * c" using assms by (intro mult_right_mono) simp_all
    moreover have "n div c * c \<le> n" using pos_mod_sign [OF assms, of n] div_mult_mod_eq [of n c] by linarith
    ultimately show False using less by simp
  qed
qed

text \<open>Each cell of the screen is in one window.\<close>

definition divided :: "('s \<Rightarrow> 'w \<Rightarrow> int \<times> int \<times> int \<times> int) \<Rightarrow> ('w, 's) terminal \<Rightarrow> int \<times> int \<Rightarrow> bool" where
  "divided place t dims \<longleftrightarrow> (\<forall>y x. 0 \<le> y \<and> y < fst dims \<and> 0 \<le> x \<and> x < snd dims \<longrightarrow>
     (\<exists>!w. w \<in> {decoration (output_window t), decoration (input_window t), decoration (chats_window t)} \<and>
           inside (place (curses_state t) w) y x))"

text \<open>The cursor is behind the text, inside the window if the text is short.\<close>

definition cursor_behind_text :: "('w, 's) curses \<Rightarrow> ('s \<Rightarrow> 'w \<Rightarrow> int \<times> int \<times> int \<times> int) \<Rightarrow> ('w, 's) terminal \<Rightarrow> int \<times> int \<Rightarrow> bool" where
  "cursor_behind_text cs place t dims \<longleftrightarrow>
     (let rows = fst dims div 5 - 2; columns = snd dims - snd dims div 4 - 2; n = int (length (input_text (front t))) in
      place (curses_state t) (overlay (input_window t)) = (fst dims - fst dims div 5 + 1, 1, rows, columns) \<and>
      (now_window (front t) = Input_window \<and> n < 2 ^ 31 \<longrightarrow>
        fix_cursor cs t = Some (overlay (input_window t), n div columns, n mod columns) \<and>
        (n div columns < rows \<longleftrightarrow> n < rows * columns)))"

lemma terminal_ok_places:
  assumes "terminal_ok live par place (max_v, max_h) t"
  shows "place (curses_state t) (decoration (output_window t)) = (0, 0, output_window_h max_v, output_window_w max_h)"
    "place (curses_state t) (decoration (input_window t)) = (output_window_h max_v, 0, max_v sdiv 5, output_window_w max_h)"
    "place (curses_state t) (decoration (chats_window t)) = (0, output_window_w max_h, max_v, max_h sdiv 4)"
    "place (curses_state t) (overlay (input_window t)) = (output_window_h max_v + 1, 1, max_v sdiv 5 - 2, output_window_w max_h - 2)"
  using assms by (auto simp: terminal_ok_def framed_def)

lemma terminal_ok_divided:
  assumes "terminal_ok live par place dims t" "big_enough dims"
  shows "divided place t dims"
proof -
  obtain max_v max_h where dims: "dims = (max_v, max_h)" by (cases dims)
  have pos: "0 \<le> max_v" "0 \<le> max_h" using assms(2) by (simp_all add: dims big_enough_def)
  note places = terminal_ok_places [OF assms(1) [unfolded dims]]
  have "\<exists>!w. w \<in> {decoration (output_window t), decoration (input_window t), decoration (chats_window t)} \<and> inside (place (curses_state t) w) y x"
    if "0 \<le> y" "y < max_v" "0 \<le> x" "x < max_h" for y x
    using inside_one [OF pos that] unfolding places(1-3) [symmetric] by blast
  then show ?thesis by (simp add: divided_def dims)
qed

lemma terminal_ok_cursor:
  assumes "curses_laws cs live par place" "terminal_ok live par place dims t" "big_enough dims"
  shows "cursor_behind_text cs place t dims"
proof -
  obtain max_v max_h where dims: "dims = (max_v, max_h)" by (cases dims)
  have pos: "0 \<le> max_v" "12 \<le> max_h" using assms(3) by (simp_all add: dims big_enough_def)
  define rows columns n where eqs: "rows = max_v div 5 - 2" "columns = max_h - max_h div 4 - 2" "n = int (length (input_text (front t)))"
  have columns: "0 < columns" "output_window_w max_h - 2 = columns" using pos(2) by (auto simp: eqs output_window_w_def sdiv_pos)
  have place: "place (curses_state t) (overlay (input_window t)) = (max_v - max_v div 5 + 1, 1, rows, columns)"
    unfolding terminal_ok_places(4) [OF assms(2) [unfolded dims]] columns(2) using pos(1) by (simp add: eqs(1) output_window_h_def sdiv_pos)
  have n: "0 \<le> n" by (simp add: eqs(3))
  have "fix_cursor cs t = Some (overlay (input_window t), n div columns, n mod columns)"
    if "now_window (front t) = Input_window" "n < 2 ^ 31"
  proof -
    have "long_to_int n = n" using n that(2) by (intro long_to_int_id) (simp add: is_int_def)
    then show ?thesis
      using fix_cursor_ok [OF assms(1) assms(2,3) [unfolded dims]] that(1) sdiv_pos [OF n columns(1)]
      unfolding eqs(3) [symmetric] columns(2) by simp
  qed
  with place div_less_area [OF columns(1), of n rows] show ?thesis
    unfolding cursor_behind_text_def dims fst_conv snd_conv Let_def eqs [symmetric] by blast
qed

text \<open>
  C13: the screen. On a screen of at least 15 rows and 12 columns the interface starts, and windows never make
  a session fault: it goes like a session of the client. At any time the borders of the three
  windows divide the screen for which they were made last: each cell is in exactly one of them. The
  cursor in the input window is at the position behind the text, which is inside the window exactly as long as
  the text is shorter than the window's area.
\<close>

theorem terminal_windows:
  assumes "curses_laws cs live par place" "parents_live live par s" "finite (live s)" "big_enough dims" "\<forall>e \<in> set es. big_enough (snd e)"
  shows "\<exists>t0. tui_new cs dims c s = Some t0 \<and> map_option front (screen_run cs es t0) = client_run (map fst es) c \<and>
    (\<forall>t. screen_run cs es t0 = Some t \<longrightarrow> divided place t (drawn_for es dims) \<and> cursor_behind_text cs place t (drawn_for es dims))"
proof -
  obtain t0 where t0: "tui_new cs dims c s = Some t0" "terminal_ok live par place dims t0" "front t0 = c"
    using tui_new_ok [OF assms(1-4), of c] by blast
  have big: "big_enough (drawn_for es dims)" using assms(4,5) by (induction es arbitrary: dims) auto
  have "divided place t (drawn_for es dims) \<and> cursor_behind_text cs place t (drawn_for es dims)" if "screen_run cs es t0 = Some t" for t
    using screen_run_ok(2) [OF assms(1) t0(2) assms(5) that] terminal_ok_divided [OF _ big] terminal_ok_cursor [OF assms(1) _ big] by blast
  moreover have "map_option front (screen_run cs es t0) = client_run (map fst es) c"
    using screen_run_ok(1) [OF assms(1) t0(2) assms(5)] t0(3) by simp
  ultimately show ?thesis using t0(1) by blast
qed

text \<open>
  C14: windows are left behind. A border is deleted before the window inside it, so its deletion is
  refused: every resize leaves three windows, and after the end of the interface there are three more for the
  last borders.
\<close>

theorem resize_leaves_windows:
  assumes "curses_laws cs live par place" "parents_live live par s" "finite (live s)" "big_enough dims" "\<forall>e \<in> set es. big_enough (snd e)"
    and "tui_new cs dims c s = Some t0" "screen_run cs es t0 = Some t"
  shows "card (live (curses_state t)) = card (live s) + 6 + 3 * resizes es \<and>
    card (live (tui_end cs t)) = card (live s) + 3 + 3 * resizes es"
proof -
  have t0: "terminal_ok live par place dims t0" "card (live (curses_state t0)) = card (live s) + 6"
    using tui_new_ok [OF assms(1-4), of c] assms(6) by auto
  have ok: "terminal_ok live par place (drawn_for es dims) t" "card (live (curses_state t)) = card (live s) + 6 + 3 * resizes es"
    using screen_run_ok(2) [OF assms(1) t0(1) assms(5,7)] t0(2) by auto
  let ?ov = "{overlay (input_window t), overlay (output_window t), overlay (chats_window t)}"
  have "?ov \<subseteq> live (curses_state t)" "card ?ov = 3" "finite (live (curses_state t))"
    using ok(1) by (auto simp: terminal_ok_def framed_def split: prod.splits)
  then have "card (live (tui_end cs t)) = card (live (curses_state t)) - 3"
    unfolding tui_end_live [OF assms(1) ok(1)] by (simp add: card_Diff_subset)
  with ok(2) show ?thesis by simp
qed

section \<open>Examples\<close>

text \<open>A state of ncurses as the list of its windows, the newest first.\<close>

type_synonym listed = "(nat \<times> nat option \<times> int \<times> int \<times> int \<times> int) list"

definition listed_live :: "listed \<Rightarrow> nat set" where
  "listed_live l = fst ` set l"

definition listed_par :: "listed \<Rightarrow> nat \<Rightarrow> nat option" where
  "listed_par l v = (case map_of l v of None \<Rightarrow> None | Some (p, r) \<Rightarrow> p)"

definition listed_place :: "listed \<Rightarrow> nat \<Rightarrow> int \<times> int \<times> int \<times> int" where
  "listed_place l v = (case map_of l v of None \<Rightarrow> (0, 0, 0, 0) | Some (p, r) \<Rightarrow> r)"

definition listed_curses :: "(nat, listed) curses" where
  "listed_curses =
    (let fresh = (\<lambda>l. Suc (sum_list (map fst l))) in
     \<lparr>newwin = \<lambda>h w y x l. (fresh l, (fresh l, None, y, x, h, w) # l),
      derwin = \<lambda>p h w y x l. (fresh l, (fresh l, Some p, fst (listed_place l p) + y, fst (snd (listed_place l p)) + x, h, w) # l),
      delwin = \<lambda>v l. if \<exists>u \<in> set (map fst l). listed_par l u = Some v then l else filter (\<lambda>e. fst e \<noteq> v) l,
      getmaxyx = \<lambda>v l. snd (snd (listed_place l v))\<rparr>)"

lemma map_of_deleted: "u \<noteq> v \<Longrightarrow> map_of (filter (\<lambda>e. fst e \<noteq> v) l) u = map_of l u"
  by (induction l) auto

lemma listed_new:
  "created listed_live listed_par listed_place l (Suc (sum_list (map fst l)), (Suc (sum_list (map fst l)), p, r) # l) p r"
proof -
  have "v \<le> sum_list (map fst l)" if "v \<in> fst ` set l" for v
    using member_le_sum_list [of v "map fst l"] that by simp
  then have fresh: "Suc (sum_list (map fst l)) \<notin> fst ` set l" by fastforce
  then have "(Suc (sum_list (map fst l)), x) \<notin> set l" for x by force
  with fresh show ?thesis by (auto simp: created_def listed_live_def listed_par_def listed_place_def)
qed

lemma listed_laws: "curses_laws listed_curses listed_live listed_par listed_place"
proof -
  have new: "created listed_live listed_par listed_place l (newwin listed_curses h w y x l) None (y, x, h, w)" for h w y x l
    using listed_new [of l None "(y, x, h, w)"] by (simp add: listed_curses_def)
  have der: "created listed_live listed_par listed_place l (derwin listed_curses p h w y x l) (Some p) (py + y, px + x, h, w)"
    if "listed_place l p = (py, px, ph, pw)" for p py px ph pw h w y x l
    using listed_new [of l "Some p" "(py + y, px + x, h, w)"] by (simp add: listed_curses_def that)
  have del: "listed_live (delwin listed_curses v l) = (if \<exists>u \<in> listed_live l. listed_par l u = Some v then listed_live l else listed_live l - {v})"
    for v l by (auto simp: listed_curses_def listed_live_def)
  have frame: "listed_par (delwin listed_curses v l) u = listed_par l u \<and> listed_place (delwin listed_curses v l) u = listed_place l u"
    if "u \<in> listed_live (delwin listed_curses v l)" for u v l
  proof (cases "delwin listed_curses v l = l")
    case False
    then have "delwin listed_curses v l = filter (\<lambda>e. fst e \<noteq> v) l" by (auto simp: listed_curses_def split: if_split_asm)
    then show ?thesis using that map_of_deleted [of u v l] by (auto simp: listed_live_def listed_par_def listed_place_def)
  qed simp
  have max: "getmaxyx listed_curses v l = (h, w)" if "listed_place l v = (y, x, h, w)" for v l y x h w
    using that by (simp add: listed_curses_def)
  show ?thesis unfolding curses_laws_def using new der del frame max by simp
qed

text \<open>A screen of 24 rows and 80 columns, made larger before the first character.\<close>

definition demo_session :: "(event \<times> (int \<times> int)) list" where
  "demo_session = [(Pressed Key_resize, (30, 100)), (Pressed (Key_char (CHR ''x'')), (30, 100))]"

lemma demo_session_facts:
  "\<forall>e \<in> set demo_session. big_enough (snd e)" "big_enough (24, 80)" "parents_live listed_live listed_par []" "finite (listed_live [])"
  "resizes demo_session = 1" "drawn_for demo_session (24, 80) = (30, 100)"
  "client_run (map fst demo_session) (client_init ''/tmp/p'') = Some ((client_init ''/tmp/p'')\<lparr>input_text := ''x''\<rparr>)"
  by (simp_all add: demo_session_def big_enough_def parents_live_def listed_live_def resizes_def tui_key_def redraw_windows_def
      print_chats_def client_init_def)

theorem terminal_windows_witness:
  "\<exists>t0 t. tui_new listed_curses (24, 80) (client_init ''/tmp/p'') [] = Some t0 \<and> screen_run listed_curses demo_session t0 = Some t \<and>
     divided listed_place t (30, 100) \<and> fix_cursor listed_curses t = Some (overlay (input_window t), 0, 1)"
proof -
  note facts = demo_session_facts
  obtain t0 where t0: "tui_new listed_curses (24, 80) (client_init ''/tmp/p'') [] = Some t0"
    "map_option front (screen_run listed_curses demo_session t0) = Some ((client_init ''/tmp/p'')\<lparr>input_text := ''x''\<rparr>)"
    "\<forall>t. screen_run listed_curses demo_session t0 = Some t \<longrightarrow> divided listed_place t (30, 100) \<and> cursor_behind_text listed_curses listed_place t (30, 100)"
    using terminal_windows [OF listed_laws facts(3,4,2,1), of "client_init ''/tmp/p''"] unfolding facts(6,7) by blast
  then obtain t where t: "screen_run listed_curses demo_session t0 = Some t" "front t = (client_init ''/tmp/p'')\<lparr>input_text := ''x''\<rparr>"
    by auto
  then have "cursor_behind_text listed_curses listed_place t (30, 100)" using t0(3) by blast
  then have "fix_cursor listed_curses t = Some (overlay (input_window t), 0, 1)"
    by (simp add: cursor_behind_text_def t(2) client_init_def)
  with t0 t show ?thesis by blast
qed

theorem resize_leaves_windows_witness:
  "\<exists>t0 t. tui_new listed_curses (24, 80) (client_init ''/tmp/p'') [] = Some t0 \<and> screen_run listed_curses demo_session t0 = Some t \<and>
     card (listed_live (curses_state t)) = 9 \<and> card (listed_live (tui_end listed_curses t)) = 6"
proof -
  note facts = demo_session_facts
  obtain t0 where t0: "tui_new listed_curses (24, 80) (client_init ''/tmp/p'') [] = Some t0" "terminal_ok listed_live listed_par listed_place (24, 80) t0"
      "front t0 = client_init ''/tmp/p''"
    using tui_new_ok [OF listed_laws facts(3,4,2)] by blast
  then obtain t where t: "screen_run listed_curses demo_session t0 = Some t"
    using screen_run_ok(1) [OF listed_laws t0(2) facts(1)] facts(7) by auto
  have "card (listed_live []) = 0" by (simp add: listed_live_def)
  then show ?thesis using resize_leaves_windows [OF listed_laws facts(3,4,2,1) t0(1) t] t0(1) t unfolding facts(5) by auto
qed

end
