(* ===== verification/NamedPipe.thy ===== *)
theory NamedPipe
  imports Messenger
begin

text \<open>
  The named pipes of the messenger, \<^verbatim>\<open>KP/structs/fifo_pipe.cpp\<close>. A pipe holds bytes.
  \<open>get_message\<close> opens the pipe as a buffered stream, takes one message and closes it again; the stream
  reads blocks of up to \<open>b\<close> bytes, and what it has read behind the separator is gone with it.
\<close>

section \<open>Names\<close>

text \<open>
  Making a pipe object: its name ends at a zero byte; the pipe is made unless something has that name
  already, be it a pipe or not, and if it can be made.
\<close>

datatype file_kind = Fifo | Other_file

definition exists_pipe :: "(string \<rightharpoonup> file_kind) \<Rightarrow> string \<Rightarrow> bool" where
  "exists_pipe files name \<longleftrightarrow> files name \<noteq> None"

definition fifo_pipe :: "bool \<Rightarrow> string \<Rightarrow> (string \<rightharpoonup> file_kind) \<Rightarrow> string \<times> (string \<rightharpoonup> file_kind)" where
  "fifo_pipe can_make name files =
    (let pipe_name = c_str name
     in (pipe_name, if \<not> exists_pipe files pipe_name \<and> can_make then files(pipe_name \<mapsto> Fifo) else files))"

lemma fifo_pipe_again: "fifo_pipe cm name (snd (fifo_pipe True name files)) = fifo_pipe True name files"
  by (simp add: fifo_pipe_def exists_pipe_def Let_def)

section \<open>Reading and writing\<close>

function get_message :: "nat \<Rightarrow> char \<Rightarrow> string \<Rightarrow> string \<times> string" where
  "get_message b separator pipe =
    (if pipe = [] \<or> b = 0 then ([], pipe)
     else if separator \<in> set (take b pipe) then (takeWhile (\<lambda>c. c \<noteq> separator) (take b pipe), drop b pipe)
     else let (res, pipe') = get_message b separator (drop b pipe) in (take b pipe @ res, pipe'))"
  by pat_completeness auto
termination
  by (relation "measure (\<lambda>(b, separator, pipe). length pipe)") auto

declare get_message.simps [simp del]

text \<open>
  The server and its request pipe: clients put messages into it, and the loop of the server takes
  one and serves it at a given time. On an empty pipe the server waits.
\<close>

datatype pipe_event = Put string | Get int

fun pipe_run :: "nat \<Rightarrow> pipe_event list \<Rightarrow> string \<Rightarrow> server \<Rightarrow> (string \<times> server) option" where
  "pipe_run b [] pipe s = Some (pipe, s)"
| "pipe_run b (Put message # es) pipe s = pipe_run b es (pipe @ message @ [COMMAND_SEPARATOR]) s"
| "pipe_run b (Get now # es) pipe s =
    (if pipe = [] then pipe_run b es pipe s
     else let (request, pipe') = get_message b COMMAND_SEPARATOR pipe in
       do {
         s1 \<leftarrow> request_handler request now (say (''get '' @ request) s);
         pipe_run b es pipe' s1
       })"

section \<open>Lemmas\<close>

text \<open>The message is complete, whatever the size of the blocks.\<close>

lemma get_message_first:
  "0 < b \<Longrightarrow> separator \<notin> set m \<Longrightarrow>
   get_message b separator (m @ separator # later) = (m, drop (b * (length m div b + 1)) (m @ separator # later))"
proof (induction b separator "m @ separator # later" arbitrary: m rule: get_message.induct)
  case (1 b separator)
  show ?case
  proof (cases "length m < b")
    case True
    then have "separator \<in> set (take b (m @ separator # later))"
      by (cases "b - length m") auto
    moreover have "takeWhile (\<lambda>c. c \<noteq> separator) (take b (m @ separator # later)) = m"
      using 1(3) True by (cases "b - length m") (simp_all add: takeWhile_append)
    ultimately show ?thesis using 1(2) True by (subst get_message.simps) simp
  next
    case False
    have no_sep: "separator \<notin> set (take b (m @ separator # later))"
      using 1(3) False by (auto dest: in_set_takeD)
    have rest: "drop b (m @ separator # later) = drop b m @ separator # later" using False by simp
    have "separator \<notin> set (drop b m)" using 1(3) by (auto dest: in_set_dropD)
    moreover have "\<not> (m @ separator # later = [] \<or> b = 0)" using 1(2) by simp
    ultimately have IH: "get_message b separator (drop b m @ separator # later) =
        (drop b m, drop (b * (length (drop b m) div b + 1)) (drop b m @ separator # later))"
      using 1(1) [OF _ no_sep rest] 1(2) by blast
    have "length m div b = length (drop b m) div b + 1"
      using False 1(2) le_div_geq [of b "length m"] by simp
    then have "drop (b * (length m div b + 1)) (m @ separator # later) =
        drop (b * (length (drop b m) div b + 1)) (drop b m @ separator # later)"
      unfolding rest [symmetric] drop_drop by (simp add: algebra_simps)
    then show ?thesis using 1(2) no_sep False IH rest by (subst get_message.simps) simp
  qed
qed

text \<open>A message that is alone in the pipe leaves it empty.\<close>

lemma get_message_alone:
  assumes "0 < b" "separator \<notin> set m"
  shows "get_message b separator (m @ [separator]) = (m, [])"
proof -
  have "b * (length m div b + 1) = b * (length m div b) + b" by simp
  then have "length m < b * (length m div b + 1)"
    using mult_div_mod_eq [of b "length m"] mod_less_divisor [OF assms(1), of "length m"] by linarith
  then have "drop (b * (length m div b + 1)) (m @ [separator]) = []" by simp
  then show ?thesis using get_message_first [OF assms, of "[]"] by (simp del: drop_append)
qed

definition in_turn :: "(string \<times> int) list \<Rightarrow> pipe_event list" where
  "in_turn rs = concat (map (\<lambda>(r, now). [Put r, Get now]) rs)"

lemma run_in_turn:
  assumes "0 < b"
  shows "\<forall>(r, now) \<in> set rs. COMMAND_SEPARATOR \<notin> set r \<Longrightarrow>
    pipe_run b (in_turn rs) [] s = map_option (Pair []) (serve_requests rs s)"
proof (induction rs arbitrary: s)
  case (Cons x rs)
  obtain r now where x: "x = (r, now)" by fastforce
  have "COMMAND_SEPARATOR \<notin> set r" using Cons.prems x by simp
  then have get: "get_message b COMMAND_SEPARATOR (r @ [COMMAND_SEPARATOR]) = (r, [])" using get_message_alone [OF assms] by blast
  show ?case
    using Cons.IH Cons.prems
    by (cases "request_handler r now (say (''get '' @ r) s)") (simp_all add: x in_turn_def get)
qed (simp add: in_turn_def)

lemma run_puts: "pipe_run b (map Put ms @ es) pipe s = pipe_run b es (pipe @ concat (map (\<lambda>m. m @ [COMMAND_SEPARATOR]) ms)) s"
  by (induction ms arbitrary: pipe) simp_all

section \<open>Properties\<close>

text \<open>
  C8: the request pipe. If every request is read before the next one is written, the server serves
  exactly the requests, in order, and the pipe is empty in between, whatever the size of the blocks. But requests
  that are in the pipe together and fit one block are served up to the first: the server reads the
  block, serves the first request, and the others are gone.
\<close>

theorem pipe_requests_lost:
  assumes "0 < b" "\<forall>(r, now) \<in> set rs. COMMAND_SEPARATOR \<notin> set r" "COMMAND_SEPARATOR \<notin> set x"
    and "length (concat (map (\<lambda>m. m @ [COMMAND_SEPARATOR]) (x # ys))) \<le> b"
  shows "pipe_run b (in_turn rs) [] s = map_option (Pair []) (serve_requests rs s) \<and>
    pipe_run b (map Put (x # ys) @ [Get now]) [] s = map_option (Pair []) (serve_requests [(x, now)] s)"
proof
  show "pipe_run b (in_turn rs) [] s = map_option (Pair []) (serve_requests rs s)" by (rule run_in_turn [OF assms(1,2)])
  let ?later = "concat (map (\<lambda>m. m @ [COMMAND_SEPARATOR]) ys)"
  have "length (x @ COMMAND_SEPARATOR # ?later) \<le> b * (length x div b + 1)"
    using assms(4) by (simp add: le_trans [of _ b])
  then have "get_message b COMMAND_SEPARATOR (x @ COMMAND_SEPARATOR # ?later) = (x, [])"
    using get_message_first [OF assms(1,3)] by (metis drop_all)
  then show "pipe_run b (map Put (x # ys) @ [Get now]) [] s = map_option (Pair []) (serve_requests [(x, now)] s)"
    unfolding run_puts by (cases "request_handler x now (say (''get '' @ x) s)") simp_all
qed

theorem pipe_requests_lost_witness:
  "pipe_run 8191 [Put ''login|/tmp/a|Ann'', Put ''login|/tmp/b|Bob'', Get 5] [] server_init =
     map_option (Pair []) (serve_requests [(''login|/tmp/a|Ann'', 5)] server_init)"
  using pipe_requests_lost [of 8191 "[]" "''login|/tmp/a|Ann''" "[''login|/tmp/b|Bob'']" server_init 5]
  by (simp del: serve_requests.simps pipe_run.simps(3))

end
