(* ===== verification/Spec2Isabelle.thy ===== *)
theory Spec2Isabelle
  imports BalancedTree XorList CString HexCodec MathLibs DString LineFilter HashMapApi MqNode
    ComputeNode ControlNode Removal Broadcast Overlay Messenger ParallelAverage GenerateHex SharedFilter
    ControlMain Heartbeat FilterProcesses SharedProcesses TuiWindows NamedPipe
begin

text \<open>
  Verification of the MAI operating-systems repository: five laboratory programs in C
  (\<^verbatim>\<open>src/lab2\<close> to \<^verbatim>\<open>src/lab6\<close>) and a messenger in C++ (\<^verbatim>\<open>src/KP\<close>). The programs do not share code, but for
  small copies of helpers; inside each program several processes or threads work together, and
  most properties are about that.

  \<^bold>\<open>Parts and theories.\<close>

    \<^item> Shared: \<open>Prelude\<close> has the C types, memory as a list of cells that may be unwritten, and the
      hint collections; \<open>Schedules\<close> has what all step relations share; \<open>CString\<close> has decimal printing, \<open>strtol\<close>, and the address and string helpers of
      \<^verbatim>\<open>lab6/control_node.c\<close>.
    \<^item> Lab 2, a line filter over pipes: \<open>DString\<close> (\<open>scan_string\<close> of \<^verbatim>\<open>lab2/d_string.c\<close> and
      \<^verbatim>\<open>lab4/d_string.c\<close>), \<open>LineFilter\<close> (the loops of \<^verbatim>\<open>lab2/main.c\<close> and \<^verbatim>\<open>lab2/child.c\<close>) and
      \<open>FilterProcesses\<close> (\<open>main\<close> of \<^verbatim>\<open>lab2/main.c\<close>: pipes, fork, descriptors). The parent passes lines to
      a child that prints those with an upper-case first letter.
    \<^item> Lab 4, the same filter over a shared mapping and signals: \<open>SharedFilter\<close> (\<^verbatim>\<open>lab4/main.c\<close>,
      \<^verbatim>\<open>lab4/child.c\<close>) as a step relation of both processes, and \<open>SharedProcesses\<close> (both \<open>main\<close>
      functions, the struct with the mutexes, the messages about rejected lines).
    \<^item> Lab 3, the mean of a file of 128-bit numbers: \<open>HexCodec\<close> (\<^verbatim>\<open>lab3/string_utils.c\<close>),
      \<open>ParallelAverage\<close> (\<^verbatim>\<open>lab3/main.c\<close>, \<^verbatim>\<open>lab3/args_parsing.c\<close>: the threads as a step relation) and
      \<open>GenerateHex\<close> (\<^verbatim>\<open>lab3/generate_hex128.c\<close>, which writes the files that the threads read).
    \<^item> Lab 5, two implementations of one library interface: \<open>MathLibs\<close> (\<^verbatim>\<open>lab5/lib1.c\<close>, \<^verbatim>\<open>lab5/lib2.c\<close>
      and the programs \<^verbatim>\<open>lab5/prog1.c\<close>, linked, and \<^verbatim>\<open>lab5/prog2.c\<close>, which loads and exchanges them).
    \<^item> Lab 6, a tree of processes over ZeroMQ: \<open>BalancedTree\<close> and \<open>XorList\<close> (\<^verbatim>\<open>lab6/structures\<close>: the
      table of nodes and the list of removals in progress), \<open>HashMapApi\<close> (the interface of the hash
      map), \<open>MqNode\<close> (\<^verbatim>\<open>structures/mq_node.c\<close>), \<open>ComputeNode\<close> (\<^verbatim>\<open>compute_node.c\<close>), \<open>ControlNode\<close>
      (\<^verbatim>\<open>control_node.c\<close>), \<open>ControlMain\<close> (its command loop and the turns of its threads), \<open>Heartbeat\<close>
      (its heartbeat worker), \<open>Removal\<close> (the removal of a node as the control node drives it),
      \<open>Broadcast\<close> (a command in the tree of processes) and \<open>Overlay\<close> (the connections of all nodes).
    \<^item> The messenger: \<open>StringParser\<close> (\<^verbatim>\<open>KP/funcs/string_parser.cpp\<close>), \<open>MessengerServer\<close>
      (\<^verbatim>\<open>KP/server/server.cpp\<close> and \<^verbatim>\<open>KP/structs\<close>), \<open>MessengerClient\<close> (\<^verbatim>\<open>KP/client/client.cpp\<close>,
      \<^verbatim>\<open>KP/messenger.cpp\<close>, and what \<^verbatim>\<open>KP/tui\<close> remembers and shows), \<open>TuiWindows\<close> (the windows of
      \<^verbatim>\<open>KP/tui/tui.cpp\<close> on the screen), \<open>Messenger\<close> (client and server together) and \<open>NamedPipe\<close>
      (\<^verbatim>\<open>KP/structs/fifo_pipe.cpp\<close>, and the server on its request pipe).

  \<^bold>\<open>How code becomes definitions.\<close> Structures are records, and a function is a definition with the
  same name where possible; a prefix or suffix tells namesakes apart (\<open>srv_login\<close>, \<open>cl_login\<close>,
  \<open>scan_string2\<close>, \<open>scan_string4\<close>). Global variables are the fields of one state record per process
  (\<open>control\<close>, \<open>compute\<close>, \<open>server\<close>, \<open>client\<close>). Undefined behaviour and uncaught exceptions are \<open>None\<close>: a store outside
  an array, a read of a cell that was not written, an overflow of a signed integer, a null pointer.
  So \<open>f x = Some y\<close> also says that \<open>f\<close> returns and faults nowhere. Errors that the code reports are
  values. Integers are bounded \<open>int\<close>s or words where their width matters: 128-bit words in
  \<open>HexCodec\<close>, 64-bit keys in \<open>XorList\<close>, wrapped message ids in \<open>MessengerServer\<close>.

  \<^bold>\<open>State and interaction.\<close> In lab 6 the control node keeps a heap-ordered table of nodes; entry \<open>i\<close>
  has the children \<open>2 i + 1\<close> and \<open>2 i + 2\<close>, and each edge is a pair of sockets. A command is sent down the
  tree, every node serves it or passes it on, and the answers go up. A removal exchanges the node
  with the last one of the table by a list of requests. \<open>control_turn\<close> is a turn of one of the threads
  of the control node, \<open>dispatch\<close> and \<open>compute_iteration\<close> are the loop of one compute node, \<open>cast_step\<close> the system of all of them, and \<open>net_run\<close> the effect of
  requests on the connections. In the messenger, clients write lines to one request pipe;
  \<open>request_handler\<close> serves a line and answers on the pipe of the client; \<open>client_step\<close> is one event
  of a client: a key, an answer, or a tick of the updater; \<open>screen_step\<close> is that event with the windows on a
  screen. In lab 4 \<open>shared_step\<close> interleaves the stores of the parent with the loads of the child, and
  \<open>exchange_step\<close> adds the start of the child and the signals back to the parent.

  \<^bold>\<open>What the lemmas show.\<close>

    \<^item> Data structures: invariants (\<open>btree_inv\<close>, \<open>list_of\<close>, \<open>mqn_inv\<close>, \<open>server_inv\<close>) kept by all operations, and what
      each operation does on the abstract value (a list of entries, a list with a cursor).
    \<^item> Codecs and readers: round trips of numbers, messages, fields and lines.
    \<^item> One process: handlers of a compute node refine one abstract step; a removal encodes, sends and
      advances its commands; each request prints one line; the command loop runs what is typed; a node
      that stops answering is reported once.
    \<^item> Several processes: broadcasts end with exactly the answers that the control node counts; removals
      lead from one overlay to the next; a client that polls sees each message once; the threads of
      lab 3 end with the mean under every schedule; the filter of lab 4 agrees with that of lab 2 if the
      parent waits, and loses or tears lines if it does not; its messages about rejected lines are printed, pending or
      end the parent.
    \<^item> The screen: windows show what the buffers hold in every session, and divide the screen after
      every resize.
    \<^item> Errors: which inputs make a program fault or answer wrongly, stated as theorems too.

  \<^bold>\<open>Interfaces.\<close> Locales state what a client relies on, each interpreted on the model of the
  code: \<open>node_table\<close> (\<open>btree_add\<close>, \<open>btree_remove\<close>, \<open>btree_find\<close>), \<open>cursor_list\<close> (the list of removals),
  \<open>line_reader\<close> (both versions of \<open>scan_string\<close>) and \<open>gcd_lib\<close> with its extension \<open>gcd_loader\<close> (both
  libraries of lab 5). \<open>schedule\<close> and its extension \<open>bounded_schedule\<close> have the facts on all interleavings of a step
  relation; they are interpreted for the process tree of lab 6, the threads of lab 3 and the
  processes of lab 4.

  \<^bold>\<open>Parameters.\<close> Code outside the repository is an argument with hypotheses: ZeroMQ (what a socket
  receives; sends succeed or fail as the environment says), the hash map (\<open>hashmap_laws\<close>), the success of
  allocations and of system calls, the contents of files, ncurses (\<open>curses_laws\<close>), what the bytes of a mutex
  mean, and the rounding of floating point (\<open>rounding\<close>: a relative error, exact for counts). Every such hypothesis has an instance in a witness.

  \<^bold>\<open>Bounds.\<close> Loops are structural or have a measure; there is no fuel. Three kinds of bounds appear in
  hypotheses. Inputs are below \<open>2 ^ 29\<close> characters, so that the doubling of the line buffer fits an
  \<open>int\<close>; buffers of lab 3 are below \<open>2 ^ 31\<close> bytes for the same reason. Tables and lists have fewer
  entries than \<open>int\<close> or the address space allows. And the counters of messages do not wrap around.

  \<^bold>\<open>Not modelled.\<close> Within the control
  node of lab 6 the interleaving of the threads below a handler: handlers run one at a time in the
  model, although the code takes no locks; and when messages arrive relative to timeouts. In lab 4 a
  signal handler of the parent runs at once, and the mutexes are locked or not as a whole; the
  child process between fork and exec. In \<^verbatim>\<open>KP/tui/tui.cpp\<close> the colours and cells that ncurses
  draws, and screens of fewer than 15 rows or 12 columns. Random names; the timers and the help texts of
  labs 3, 5 and 6. The hash map of lab 6, a git submodule without files here.
\<close>

end
